(* ===== verification/Snapp_Prelude.thy ===== *)
theory Snapp_Prelude
  imports Main "HOL-Library.Word" "HOL-Library.Sublist"
begin

text \<open>
  Shared vocabulary of the development: the ways a C++ call can fail to return, the
  fragment of the C and C++ string library that the collector uses (over \<open>char list\<close>,
  a C string being the characters before its terminating NUL), decimal conversion in both
  directions, and the generic list lemmas the component theories rely on.
\<close>

named_theorems cstring_simps \<open>evaluation rules of the string library\<close>
named_theorems table_facts \<open>facts about index tables, in the form the loaders use\<close>
named_theorems queue_facts \<open>facts about semaphore-guarded queues\<close>

section \<open>Failures of a call\<close>

text \<open>
  Every way a modelled function can end other than by returning: a failed
  \<^verbatim>\<open>assert\<close> (which aborts the process), undefined behaviour, an integer division by
  zero (SIGFPE), an uncaught \<^verbatim>\<open>std::out_of_range\<close>, and \<^verbatim>\<open>exit(status)\<close>.
\<close>

datatype failure = Assertion_failed | Undefined | Arithmetic_trap | Out_of_range | Exit_process int

type_synonym 'a result = "failure + 'a"

definition bind_result :: "'a result \<Rightarrow> ('a \<Rightarrow> 'b result) \<Rightarrow> 'b result" where
  "bind_result r f = (case r of Inl e \<Rightarrow> Inl e | Inr x \<Rightarrow> f x)"

definition assert_that :: "bool \<Rightarrow> unit result" where
  "assert_that b = (if b then Inr () else Inl Assertion_failed)"

lemma bind_result_simps [simp]:
  "bind_result (Inl e) f = Inl e" "bind_result (Inr x) f = f x"
  by (simp_all add: bind_result_def)

lemma bind_result_eq_Inr:
  "bind_result r f = Inr y \<longleftrightarrow> (\<exists>x. r = Inr x \<and> f x = Inr y)"
  by (cases r) auto

lemma bind_result_split:
  "P (bind_result r f) \<longleftrightarrow> (\<forall>e. r = Inl e \<longrightarrow> P (Inl e)) \<and> (\<forall>x. r = Inr x \<longrightarrow> P (f x))"
  by (cases r) auto

lemma assert_that_simps [simp]:
  "assert_that True = Inr ()" "assert_that False = Inl Assertion_failed"
  "assert_that b = Inr u \<longleftrightarrow> b"
  by (auto simp: assert_that_def)

section \<open>C strings and buffers\<close>

abbreviation nul :: char where "nul \<equiv> CHR 0x00"

text \<open>
  A \<^verbatim>\<open>char buf[n]\<close> is a list of \<open>n\<close> characters. Reading it as a C string needs a
  terminator inside the array; without one the read leaves the array, which is undefined.
\<close>

definition c_str :: "char list \<Rightarrow> string" where
  "c_str s = takeWhile (\<lambda>c. c \<noteq> nul) s"

definition read_buf :: "char list \<Rightarrow> string result" where
  "read_buf buf = (if nul \<in> set buf then Inr (c_str buf) else Inl Undefined)"

definition no_nul :: "string \<Rightarrow> bool" where
  "no_nul s \<longleftrightarrow> nul \<notin> set s"

text \<open>\<^verbatim>\<open>strncpy(dst,src,n)\<close> copies at most \<open>n\<close> characters and pads with NUL up to \<open>n\<close>.\<close>

definition strncpy :: "char list \<Rightarrow> string \<Rightarrow> nat \<Rightarrow> char list" where
  "strncpy dst src n = take n (c_str src @ replicate n nul) @ drop n dst"

lemma c_str_no_nul [simp]: "no_nul s \<Longrightarrow> c_str s = s"
  by (auto simp: c_str_def no_nul_def takeWhile_eq_all_conv)

lemma no_nul_c_str [simp]: "no_nul (c_str s)"
  by (auto simp: c_str_def no_nul_def dest: set_takeWhileD)

lemma no_nul_append [simp]: "no_nul (s @ t) \<longleftrightarrow> no_nul s \<and> no_nul t"
  by (auto simp: no_nul_def)

lemma no_nul_Cons [simp]: "no_nul (c # s) \<longleftrightarrow> c \<noteq> nul \<and> no_nul s"
  by (auto simp: no_nul_def)

lemma no_nul_Nil [simp]: "no_nul []"
  by (simp add: no_nul_def)

lemma c_str_append_nul [simp]: "no_nul s \<Longrightarrow> c_str (s @ nul # t) = s"
  by (induction s) (auto simp: c_str_def)

lemma length_strncpy: "n \<le> length dst \<Longrightarrow> length (strncpy dst src n) = length dst"
  by (auto simp: strncpy_def)

text \<open>A source shorter than the bound is copied whole, with its terminator.\<close>

lemma strncpy_fits:
  assumes "no_nul src" and "length src < n"
  shows "read_buf (strncpy dst src n) = Inr src"
proof -
  have "take n (src @ replicate n nul) = src @ replicate (n - length src) nul"
    using assms by auto
  moreover from assms have "replicate (n - length src) nul = nul # replicate (n - length src - 1) nul"
    by (metis Suc_diff_1 replicate_Suc zero_less_diff)
  ultimately have eq: "strncpy dst src n = src @ nul # (replicate (n - length src - 1) nul @ drop n dst)"
    using assms by (simp add: strncpy_def)
  show ?thesis using assms(1) by (simp only: eq read_buf_def c_str_append_nul) simp
qed

section \<open>Searching and tokenising\<close>

text \<open>\<^verbatim>\<open>strstr\<close>: the rest of the text from the first occurrence of the needle, if any.\<close>

fun strstr :: "string \<Rightarrow> string \<Rightarrow> string option" where
  "strstr [] needle = (if needle = [] then Some [] else None)"
| "strstr (c # cs) needle = (if prefix needle (c # cs) then Some (c # cs) else strstr cs needle)"

text \<open>\<^verbatim>\<open>std::string::find\<close>: the position of that occurrence (None for npos).\<close>

definition find_str :: "string \<Rightarrow> string \<Rightarrow> nat option" where
  "find_str s needle = map_option (\<lambda>r. length s - length r) (strstr s needle)"

lemma strstr_Some_iff:
  "strstr s needle = Some r \<Longrightarrow> (\<exists>p. s = p @ r) \<and> prefix needle r"
  by (induction s needle rule: strstr.induct) (auto split: if_splits simp: Cons_eq_append_conv)

lemma strstr_None_iff: "strstr s needle = None \<longleftrightarrow> \<not> sublist needle s"
  by (induction s needle rule: strstr.induct) (auto simp: sublist_Cons_right)

lemma strstr_prefix [simp]: "prefix needle s \<Longrightarrow> strstr s needle = Some s"
  by (cases s) auto

text \<open>\<^verbatim>\<open>std::string::rfind\<close> / \<^verbatim>\<open>find_last_of\<close> of one character.\<close>

definition rfind_char :: "char \<Rightarrow> string \<Rightarrow> nat option" where
  "rfind_char c s =
     (if c \<in> set s then Some (length s - 1 - length (takeWhile (\<lambda>x. x \<noteq> c) (rev s))) else None)"

text \<open>\<^verbatim>\<open>s.substr(pos)\<close> and \<^verbatim>\<open>s.substr(0,len)\<close>; a start beyond the end throws.\<close>

definition substr_from :: "string \<Rightarrow> nat \<Rightarrow> string result" where
  "substr_from s pos = (if pos \<le> length s then Inr (drop pos s) else Inl Out_of_range)"

text \<open>
  \<^verbatim>\<open>strtok_r\<close>: leading delimiters are skipped; the token runs to the next delimiter, which
  is consumed; None when only delimiters (or nothing) are left.
\<close>

definition strtok_r :: "string \<Rightarrow> char set \<Rightarrow> (string \<times> string) option" where
  "strtok_r s delims =
     (case dropWhile (\<lambda>c. c \<in> delims) s of
        [] \<Rightarrow> None
      | t \<Rightarrow> Some (takeWhile (\<lambda>c. c \<notin> delims) t, drop 1 (dropWhile (\<lambda>c. c \<notin> delims) t)))"

lemma takeWhile_all_outside: "set xs \<inter> d = {} \<Longrightarrow> takeWhile (\<lambda>c. c \<notin> d) xs = xs"
  by (auto simp: takeWhile_eq_all_conv)

lemma dropWhile_all_outside: "set xs \<inter> d = {} \<Longrightarrow> dropWhile (\<lambda>c. c \<notin> d) xs = []"
  by (auto simp: dropWhile_eq_Nil_conv)

lemma strtok_r_token_nonempty: "strtok_r s d = Some (tok, r) \<Longrightarrow> tok \<noteq> []"
  by (auto simp: strtok_r_def dropWhile_eq_Cons_conv split: list.splits)

lemma strtok_r_Nil [simp]: "strtok_r [] d = None"
  by (simp add: strtok_r_def)

lemma strtok_r_last:
  "tok \<noteq> [] \<Longrightarrow> set tok \<inter> d = {} \<Longrightarrow> strtok_r tok d = Some (tok, [])"
  by (cases tok) (auto simp: strtok_r_def takeWhile_all_outside dropWhile_all_outside)

lemma strtok_r_sep:
  assumes "tok \<noteq> []" and "set tok \<inter> d = {}" and "x \<in> d"
  shows "strtok_r (tok @ x # rest) d = Some (tok, rest)"
  using assms by (cases tok) (auto simp: strtok_r_def takeWhile_append2 dropWhile_append2 disjoint_iff)

text \<open>\<^verbatim>\<open>strncat(dst,src,n)\<close> into an array of \<open>cap\<close> characters, terminator included.\<close>

definition strncat :: "nat \<Rightarrow> string \<Rightarrow> string \<Rightarrow> nat \<Rightarrow> string result" where
  "strncat cap dst src n =
     (if length dst + length (take n src) < cap then Inr (dst @ take n src) else Inl Undefined)"

text \<open>Texts joined by a separator, as the code builds \<^verbatim>\<open>a:b:c\<close>.\<close>

fun join_with :: "char \<Rightarrow> string list \<Rightarrow> string" where
  "join_with c [] = []"
| "join_with c [x] = x"
| "join_with c (x # xs) = x @ c # join_with c xs"

lemma join_with_Cons: "join_with c (x # xs) = x @ concat (map (\<lambda>y. c # y) xs)"
  by (induction xs arbitrary: x) (simp, simp)

definition to_lower :: "char \<Rightarrow> char" where
  "to_lower c = (let n = of_char c :: nat in if 65 \<le> n \<and> n \<le> 90 then char_of (n + 32) else c)"

text \<open>\<^verbatim>\<open>s == strcasestr(s,p)\<close>: the prefix test without regard to case.\<close>

definition strcase_prefix :: "string \<Rightarrow> string \<Rightarrow> bool" where
  "strcase_prefix p s \<longleftrightarrow> prefix (map to_lower p) (map to_lower s)"

definition strcasecmp_eq :: "string \<Rightarrow> string \<Rightarrow> bool" where
  "strcasecmp_eq s t \<longleftrightarrow> map to_lower s = map to_lower t"

section \<open>Decimal conversion\<close>

definition is_digit :: "char \<Rightarrow> bool" where
  "is_digit c \<longleftrightarrow> (48::nat) \<le> of_char c \<and> of_char c \<le> (57::nat)"

definition is_space :: "char \<Rightarrow> bool" where
  "is_space c \<longleftrightarrow> c = CHR '' '' \<or> ((9::nat) \<le> of_char c \<and> of_char c \<le> (13::nat))"

definition digit_val :: "char \<Rightarrow> nat" where
  "digit_val c = of_char c - 48"

definition digit_char :: "nat \<Rightarrow> char" where
  "digit_char d = char_of (48 + d)"

text \<open>\<^verbatim>\<open>%u\<close>/\<^verbatim>\<open>%llu\<close> of a natural number, and its inverse.\<close>

fun show_nat :: "nat \<Rightarrow> string" where
  "show_nat n = (if n < 10 then [digit_char n] else show_nat (n div 10) @ [digit_char (n mod 10)])"

declare show_nat.simps [simp del]

definition show_int :: "int \<Rightarrow> string" where
  "show_int i = (if i < 0 then CHR ''-'' # show_nat (nat (- i)) else show_nat (nat i))"

definition digits_val :: "string \<Rightarrow> nat" where
  "digits_val ds = foldl (\<lambda>acc c. 10 * acc + digit_val c) 0 ds"

lemma is_digit_digit_char [simp]: "d < 10 \<Longrightarrow> is_digit (digit_char d)"
  by (simp add: is_digit_def digit_char_def)

lemma digit_val_digit_char [simp]: "d < 10 \<Longrightarrow> digit_val (digit_char d) = d"
  by (simp add: digit_val_def digit_char_def)

lemma show_nat_digits: "\<forall>c \<in> set (show_nat n). is_digit c"
proof (induction n rule: show_nat.induct)
  case (1 n)
  then show ?case by (subst show_nat.simps) (auto split: if_splits)
qed

lemma show_nat_nonempty [simp]: "show_nat n \<noteq> []"
  by (subst show_nat.simps) simp

lemma digits_val_show_nat [simp]: "digits_val (show_nat n) = n"
proof (induction n rule: show_nat.induct)
  case (1 n)
  show ?case
  proof (cases "n < 10")
    case True
    then show ?thesis by (subst show_nat.simps) (simp add: digits_val_def)
  next
    case False
    with 1 have "digits_val (show_nat (n div 10)) = n div 10" by simp
    with False show ?thesis by (subst show_nat.simps) (simp add: digits_val_def)
  qed
qed

lemma length_show_nat: "n < 10 ^ k \<Longrightarrow> 0 < k \<Longrightarrow> length (show_nat n) \<le> k"
proof (induction n arbitrary: k rule: show_nat.induct)
  case (1 n)
  show ?case
  proof (cases "n < 10")
    case True
    with "1.prems" show ?thesis by (subst show_nat.simps) simp
  next
    case False
    with "1.prems" obtain j where j: "k = Suc j" "0 < j"
      by (cases k; cases "k - 1") auto
    with "1.prems" have "n div 10 < 10 ^ j" by (simp add: less_mult_imp_div_less mult.commute)
    with "1.IH"[of j] False j have "length (show_nat (n div 10)) \<le> j" by simp
    with False j show ?thesis by (subst show_nat.simps) simp
  qed
qed

text \<open>The numeric prefix of a text after blanks and a sign, as \<^verbatim>\<open>strtol\<close> reads it.\<close>

definition strtol_val :: "string \<Rightarrow> int" where
  "strtol_val s =
     (let t = dropWhile is_space s;
          neg = (t \<noteq> [] \<and> hd t = CHR ''-'');
          u = (if t \<noteq> [] \<and> (hd t = CHR ''-'' \<or> hd t = CHR ''+'') then tl t else t);
          n = int (digits_val (takeWhile is_digit u))
      in if neg then - n else n)"

text \<open>
  \<^verbatim>\<open>atoi\<close> of glibc: \<^verbatim>\<open>(int) strtol(s,NULL,10)\<close>, that is, a 64-bit conversion that
  saturates, then cut to 32 bits.
\<close>

definition atoi :: "string \<Rightarrow> 32 word" where
  "atoi s = word_of_int (max (- (2 ^ 63)) (min (2 ^ 63 - 1) (strtol_val s)))"

lemma not_space_digit: "is_digit c \<Longrightarrow> \<not> is_space c"
  by (auto simp: is_digit_def is_space_def)

lemma digit_not_sign: "is_digit c \<Longrightarrow> c \<noteq> CHR ''-'' \<and> c \<noteq> CHR ''+''"
  by (auto simp: is_digit_def)

lemma dropWhile_hd_False: "\<not> P (hd xs) \<Longrightarrow> dropWhile P xs = xs"
  by (cases xs) auto

lemma hd_show_nat_digit [simp]: "is_digit (hd (show_nat n))"
  using show_nat_digits hd_in_set show_nat_nonempty by blast

lemma strtol_val_show_nat [simp]: "strtol_val (show_nat n) = int n"
proof -
  have "dropWhile is_space (show_nat n) = show_nat n"
    by (rule dropWhile_hd_False) (simp add: not_space_digit)
  moreover have "takeWhile is_digit (show_nat n) = show_nat n"
    using show_nat_digits by (simp add: takeWhile_eq_all_conv)
  moreover have "hd (show_nat n) \<noteq> CHR ''-''" "hd (show_nat n) \<noteq> CHR ''+''"
    using digit_not_sign hd_show_nat_digit by blast+
  ultimately show ?thesis by (simp add: strtol_val_def del: takeWhile_eq_all_conv)
qed

lemma atoi_show_nat: "n < 2 ^ 63 \<Longrightarrow> atoi (show_nat n) = of_nat n"
  by (simp add: atoi_def min_absorb2 max_absorb2)

section \<open>Vectors\<close>

text \<open>\<^verbatim>\<open>v[i]\<close> on a \<^verbatim>\<open>std::vector\<close>: undefined out of range.\<close>

definition vector_at :: "'a list \<Rightarrow> nat \<Rightarrow> 'a result" where
  "vector_at xs i = (if i < length xs then Inr (xs ! i) else Inl Undefined)"

lemma unat_of_nat_size32: "n < 2 ^ 32 \<Longrightarrow> unat (of_nat n :: 32 word) = n"
  by (simp add: unat_of_nat take_bit_eq_mod)

lemma nth_append_last [simp]: "(xs @ [x]) ! length xs = x"
  by simp

lemma list_update_same_length [simp]: "length (xs[i := x]) = length xs"
  by simp

lemma length_filter_update:
  "i < length xs \<Longrightarrow>
   length (filter P (xs[i := x])) + (if P (xs ! i) then 1 else 0) =
   length (filter P xs) + (if P x then 1 else 0)"
proof (induction xs arbitrary: i)
  case (Cons a xs)
  then show ?case using Cons.IH [of "i - 1"] by (cases i) auto
qed simp

lemma sum_list_update_nat:
  fixes f :: "'a \<Rightarrow> nat"
  shows "i < length xs \<Longrightarrow> sum_list (map f (xs[i := x])) + f (xs ! i) = sum_list (map f xs) + f x"
proof (induction xs arbitrary: i)
  case (Cons a xs)
  then show ?case using Cons.IH [of "i - 1"] by (cases i) auto
qed simp

lemma filter_append_one: "filter P (xs @ [x]) = filter P xs @ (if P x then [x] else [])"
  by simp

end
