(* ===== verification/Snmp_Env.thy ===== *)
theory Snmp_Env
  imports Snapp_Prelude "HOL-Library.List_Lexorder" "HOL-Library.Char_ord"
begin

text \<open>
  What the collector sees of net-snmp, PCRE and \<^verbatim>\<open>std::map\<close>. The SNMP library is a record
  of functions (\<open>snmp_lib\<close>): parsing an OID, opening a session, the answer to the \<open>k\<close>-th
  request, and the printing of names and values. \<^verbatim>\<open>std::map<string,T>\<close> is an association
  list sorted by its keys, because the loaders iterate over it in key order.
\<close>

section \<open>SNMP\<close>

type_synonym oid = "nat list"

text \<open>The types of a variable that the code tells apart.\<close>

datatype var_type = Ordinary | SNMP_ENDOFMIBVIEW | SNMP_NOSUCHOBJECT | SNMP_NOSUCHINSTANCE

record varbind =
  vb_name :: oid
  vb_type :: var_type
  vb_print :: string

text \<open>
  A request is a GETBULK (non-repeaters, repetitions, one name), a GET of several names or a GETNEXT. The
  answer is the status of \<^verbatim>\<open>snmp_sess_synch_response\<close> with, on success, whether \<^verbatim>\<open>errstat\<close> is
  \<^verbatim>\<open>SNMP_ERR_NOERROR\<close> and the variables. \<open>vb_print\<close> is the text \<^verbatim>\<open>snprint_value\<close> gives.
\<close>

datatype snmp_pdu = Getbulk nat nat oid | Get "oid list" | Getnext oid

datatype snmp_reply = Stat_success bool "varbind list" | Stat_timeout | Stat_error

record snmp_lib =
  read_objid :: "string \<Rightarrow> oid option"
  sess_open_ok :: "nat \<Rightarrow> bool"
  synch_response :: "nat \<Rightarrow> snmp_pdu \<Rightarrow> snmp_reply"
  snprint_objid :: "nat \<Rightarrow> oid \<Rightarrow> string"

text \<open>\<^verbatim>\<open>pcre_exec\<close> on the value pattern: its return code and \<^verbatim>\<open>ovector[2]\<close>.\<close>

type_synonym value_matcher = "string \<Rightarrow> int \<times> int"

section \<open>Ordered maps\<close>

type_synonym ('k, 'v) omap = "('k \<times> 'v) list"

fun omap_put :: "'k::linorder \<Rightarrow> 'v \<Rightarrow> ('k, 'v) omap \<Rightarrow> ('k, 'v) omap" where
  "omap_put k v [] = [(k, v)]"
| "omap_put k v ((k', v') # m) =
     (if k < k' then (k, v) # (k', v') # m
      else if k = k' then (k, v) # m
      else (k', v') # omap_put k v m)"

definition omap_ok :: "('k::linorder, 'v) omap \<Rightarrow> bool" where
  "omap_ok m \<longleftrightarrow> sorted (map fst m) \<and> distinct (map fst m)"

lemma map_of_omap_put [simp]: "map_of (omap_put k v m) = (map_of m)(k \<mapsto> v)"
  by (induction k v m rule: omap_put.induct) auto

lemma fst_set_omap_put: "fst ` set (omap_put k v m) = insert k (fst ` set m)"
  by (induction k v m rule: omap_put.induct) auto

lemma omap_put_ok: "omap_ok m \<Longrightarrow> omap_ok (omap_put k v m)"
proof (induction k v m rule: omap_put.induct)
  case (2 k v k' v' m)
  then show ?case
    by (auto simp: omap_ok_def fst_set_omap_put image_iff)
qed (simp add: omap_ok_def)

lemma omap_ok_Nil [simp]: "omap_ok []"
  by (simp add: omap_ok_def)

end
