(* ===== verification/Index_Table.thy ===== *)
theory Index_Table
  imports Snapp_Prelude
begin

text \<open>
  The collector keeps four tables of one shape: a vector of entries and a map from a key to
  the position of its entry, where inserting a known key changes nothing and returns the old
  position (hosts by database id, mapping sequences by database id, the writer's file names
  and templates). The locale states that contract once; the tables interpret it. Positions
  are observed as natural numbers, \<open>cap\<close> bounds the positions the table's index type can
  represent.
\<close>

locale index_table =
  fixes entries :: "'t \<Rightarrow> 'e list"
    and position_of :: "'t \<Rightarrow> 'k \<Rightarrow> nat option"
    and key :: "'e \<Rightarrow> 'k"
    and insert_entry :: "'t \<Rightarrow> 'e \<Rightarrow> 't"
    and invar :: "'t \<Rightarrow> bool"
    and cap :: nat
  assumes invar_position:
      "invar t \<Longrightarrow> position_of t k = Some i \<longleftrightarrow> i < length (entries t) \<and> key (entries t ! i) = k"
    and insert_known: "invar t \<Longrightarrow> position_of t (key e) = Some i \<Longrightarrow> insert_entry t e = t"
    and insert_entries:
      "invar t \<Longrightarrow> position_of t (key e) = None \<Longrightarrow> entries (insert_entry t e) = entries t @ [e]"
    and invar_insert: "invar t \<Longrightarrow> length (entries t) < cap \<Longrightarrow> invar (insert_entry t e)"
begin

definition lookup :: "'t \<Rightarrow> 'k \<Rightarrow> 'e option" where
  "lookup t k = map_option (\<lambda>i. entries t ! i) (position_of t k)"

lemma position_None: "invar t \<Longrightarrow> position_of t k = None \<longleftrightarrow> k \<notin> key ` set (entries t)"
proof -
  assume inv: "invar t"
  have "position_of t k \<noteq> None \<longleftrightarrow> (\<exists>i. i < length (entries t) \<and> key (entries t ! i) = k)"
    by (simp flip: invar_position [OF inv])
  also have "\<dots> \<longleftrightarrow> k \<in> key ` set (entries t)"
    by (simp only: set_conv_nth) blast
  finally show ?thesis by blast
qed

lemma position_inj:
  "invar t \<Longrightarrow> position_of t k = Some i \<Longrightarrow> position_of t k' = Some i \<Longrightarrow> k = k'"
  by (auto simp: invar_position)

lemma distinct_keys: "invar t \<Longrightarrow> distinct (map key (entries t))"
proof (simp add: distinct_conv_nth, intro allI impI)
  fix i j
  assume inv: "invar t" and ij: "i < length (entries t)" "j < length (entries t)" "i \<noteq> j"
  show "key (entries t ! i) \<noteq> key (entries t ! j)"
  proof
    assume "key (entries t ! i) = key (entries t ! j)"
    with inv ij have "position_of t (key (entries t ! i)) = Some i"
      and "position_of t (key (entries t ! i)) = Some j"
      by (auto simp: invar_position)
    with ij show False by simp
  qed
qed

lemma position_stable:
  assumes "invar t" "length (entries t) < cap" "position_of t k = Some i"
  shows "position_of (insert_entry t e) k = Some i \<and> entries (insert_entry t e) ! i = entries t ! i"
proof (cases "position_of t (key e)")
  case None
  have "invar (insert_entry t e)" using assms by (blast intro: invar_insert)
  with None assms show ?thesis by (auto simp: invar_position insert_entries nth_append)
next
  case (Some j)
  with assms show ?thesis by (simp add: insert_known)
qed

lemma position_inserted:
  assumes "invar t" "length (entries t) < cap"
  shows "position_of (insert_entry t e) (key e) =
    Some (case position_of t (key e) of Some i \<Rightarrow> i | None \<Rightarrow> length (entries t))"
proof (cases "position_of t (key e)")
  case None
  have "invar (insert_entry t e)" using assms by (blast intro: invar_insert)
  with None assms show ?thesis by (simp add: invar_position insert_entries)
next
  case (Some j)
  with assms show ?thesis by (simp add: insert_known)
qed

lemma position_insert:
  assumes "invar t" "length (entries t) < cap"
  shows "position_of (insert_entry t e) =
    (position_of t)(key e \<mapsto> (case position_of t (key e) of Some i \<Rightarrow> i | None \<Rightarrow> length (entries t)))"
proof
  fix k
  have inv': "invar (insert_entry t e)" using assms by (blast intro: invar_insert)
  show "position_of (insert_entry t e) k = ((position_of t)(key e \<mapsto>
      (case position_of t (key e) of Some i \<Rightarrow> i | None \<Rightarrow> length (entries t)))) k"
  proof (cases "k = key e")
    case True
    with position_inserted [OF assms] show ?thesis by simp
  next
    case False
    show ?thesis
    proof (cases "position_of t k")
      case None
      with assms False have "k \<notin> key ` set (entries (insert_entry t e))"
        by (cases "position_of t (key e)") (auto simp: insert_known insert_entries position_None)
      with None False inv' show ?thesis by (simp add: position_None)
    next
      case (Some i)
      with position_stable [OF assms Some] False show ?thesis by simp
    qed
  qed
qed

lemma lookup_insert:
  assumes "invar t" "length (entries t) < cap"
  shows "lookup (insert_entry t e) k =
    (if k = key e \<and> lookup t k = None then Some e else lookup t k)"
proof (cases "position_of t (key e)")
  case None
  have "entries (insert_entry t e) ! i = entries t ! i" if "position_of t k = Some i" for i
    using that assms None by (auto simp: insert_entries invar_position nth_append)
  with None assms show ?thesis
    by (cases "position_of t k") (auto simp: lookup_def position_insert insert_entries)
next
  case (Some j)
  with assms show ?thesis by (auto simp: insert_known lookup_def)
qed

lemma lookup_key: "invar t \<Longrightarrow> lookup t k = Some e \<Longrightarrow> key e = k \<and> e \<in> set (entries t)"
  by (auto simp: lookup_def invar_position)

definition insert_all :: "'t \<Rightarrow> 'e list \<Rightarrow> 't" where
  "insert_all t es = foldl insert_entry t es"

lemma length_insert_le:
  "invar t \<Longrightarrow> length (entries (insert_entry t e)) \<le> Suc (length (entries t))"
  by (cases "position_of t (key e)") (auto simp: insert_known insert_entries)

lemma insert_all_invar:
  "invar t \<Longrightarrow> length (entries t) + length es \<le> cap \<Longrightarrow> invar (insert_all t es)"
proof (induction es arbitrary: t)
  case Nil
  then show ?case by (simp add: insert_all_def)
next
  case (Cons e es)
  then have "invar (insert_entry t e)" by (intro invar_insert) auto
  moreover have "length (entries (insert_entry t e)) + length es \<le> cap"
    using Cons.prems length_insert_le [of t e] by simp
  ultimately show ?case using Cons.IH by (simp add: insert_all_def)
qed

text \<open>The first entry inserted for a key is the one later lookups see.\<close>

lemma lookup_insert_all:
  assumes "invar t" "length (entries t) + length es \<le> cap"
  shows "lookup (insert_all t es) k =
    (case lookup t k of Some e \<Rightarrow> Some e | None \<Rightarrow> List.find (\<lambda>e. key e = k) es)"
  using assms
proof (induction es arbitrary: t)
  case Nil
  then show ?case by (simp add: insert_all_def split: option.split)
next
  case (Cons e es)
  then have inv: "invar (insert_entry t e)" by (intro invar_insert) auto
  have len: "length (entries (insert_entry t e)) + length es \<le> cap"
    using Cons.prems length_insert_le [of t e] by simp
  have "lookup (insert_all t (e # es)) k = lookup (insert_all (insert_entry t e) es) k"
    by (simp add: insert_all_def)
  also have "\<dots> = (case lookup (insert_entry t e) k of Some e \<Rightarrow> Some e
      | None \<Rightarrow> List.find (\<lambda>e. key e = k) es)"
    by (rule Cons.IH [OF inv len])
  finally show ?case using Cons.prems by (auto simp: lookup_insert split: option.splits)
qed

lemma keys_insert_all:
  "invar t \<Longrightarrow> length (entries t) + length es \<le> cap \<Longrightarrow>
   key ` set (entries (insert_all t es)) = key ` set (entries t) \<union> key ` set es"
proof (induction es arbitrary: t)
  case Nil
  then show ?case by (simp add: insert_all_def)
next
  case (Cons e es)
  then have inv: "invar (insert_entry t e)" by (intro invar_insert) auto
  have len: "length (entries (insert_entry t e)) + length es \<le> cap"
    using Cons.prems length_insert_le [of t e] by simp
  have "key ` set (entries (insert_entry t e)) = insert (key e) (key ` set (entries t))"
    using Cons.prems position_None [of t "key e"]
    by (cases "position_of t (key e)") (auto simp: insert_known insert_entries)
  with Cons.IH [OF inv len] show ?case by (simp add: insert_all_def)
qed

lemma insert_twice:
  assumes "invar t" "length (entries t) < cap"
  shows "insert_entry (insert_entry t e) e = insert_entry t e"
  using assms by (intro insert_known [where i = "case position_of t (key e) of Some i \<Rightarrow> i | None \<Rightarrow> length (entries t)"])
    (auto intro: invar_insert simp: position_inserted)

end

end
