(* ===== verification/Host_Info.thy ===== *)
theory Host_Info
  imports Snmp_Env Index_Table
begin

text \<open>
  \<^verbatim>\<open>host_info.cpp\<close>: the monitored hosts. Each host holds, per configured OID, a table that
  maps the printed values of a column to their row suffixes and back; the table is filled by
  walking the column with GETBULK requests. The agent, the OID printer and the PCRE engine are
  parameters. The walk may run for ever, so it is a partial function into \<open>option\<close>.
\<close>

section \<open>Data\<close>

abbreviation STD_STRING_SIZE :: nat where "STD_STRING_SIZE \<equiv> 256"
abbreviation SNMP_ERR_STR_SIZE :: nat where "SNMP_ERR_STR_SIZE \<equiv> 128"

record oid_value_table =
  vt_oid :: string
  suffix_of :: "(string, string) omap"
  value_of :: "(string, string) omap"

text \<open>
  \<open>has_semaphore\<close> tells whether \<^verbatim>\<open>thread_semaphore\<close> is non-null. \<^verbatim>\<open>mapping_done\<close> is not set
  by the constructor: a new host takes it from the memory it is built in.
\<close>

record host_info =
  db_id :: "32 word"
  ip_address :: string
  community :: string
  mapping_done :: "32 word"
  oid_table :: "(string, oid_value_table) omap"
  has_semaphore :: bool

definition new_host_info :: "32 word \<Rightarrow> host_info" where
  "new_host_info garbage =
     \<lparr>db_id = 0, ip_address = [], community = [], mapping_done = garbage, oid_table = [],
      has_semaphore = False\<rparr>"

section \<open>Values and suffixes\<close>

text \<open>
  The text handed to \<^verbatim>\<open>pcre_exec\<close> is cut to 255 characters. From the start of the first
  group the rest of the text is the value, less one closing quote. Indexing an empty
  \<^verbatim>\<open>std::string\<close> at \<^verbatim>\<open>length()-1\<close> is undefined.
\<close>

definition extract_value_from_raw :: "value_matcher \<Rightarrow> string \<Rightarrow> string result" where
  "extract_value_from_raw pcre raw =
     (let check_string = take (STD_STRING_SIZE - 1) (c_str raw);
          (rc, ovector2) = pcre check_string;
          out_string = (if rc \<ge> 1 \<and> ovector2 \<noteq> - 1 then drop (nat ovector2) check_string else [])
      in if out_string = [] then Inl Undefined
         else if last out_string = CHR 0x22 then Inr (butlast out_string)
         else Inr out_string)"

text \<open>The part of a name after its last dot (all of it when there is none).\<close>

definition after_last_dot :: "string \<Rightarrow> string" where
  "after_last_dot s = (case rfind_char (CHR ''.'') s of Some i \<Rightarrow> drop (i + 1) s | None \<Rightarrow> s)"

definition suffix_search_string :: "string \<Rightarrow> string" where
  "suffix_search_string first = drop (length first * 2 div 3) first"

definition suffix_str :: "string \<Rightarrow> string \<Rightarrow> string result" where
  "suffix_str first printed =
     (let search_string = suffix_search_string first
      in case find_str printed search_string of
           Some found \<Rightarrow> substr_from printed (found + length search_string + 1)
         | None \<Rightarrow> Inr (after_last_dot printed))"

definition insert_value :: "string \<Rightarrow> string \<Rightarrow> oid_value_table \<Rightarrow> oid_value_table" where
  "insert_value value sfx t =
     t\<lparr>suffix_of := omap_put value sfx (suffix_of t),
       value_of := omap_put sfx value (value_of t)\<rparr>"

section \<open>The walk\<close>

definition in_subtree :: "oid \<Rightarrow> varbind \<Rightarrow> bool" where
  "in_subtree root v \<longleftrightarrow>
     \<not> (length (vb_name v) < length root \<or> take (length root) (vb_name v) \<noteq> root)"

definition row_entry :: "snmp_lib \<Rightarrow> value_matcher \<Rightarrow> string \<Rightarrow> varbind \<Rightarrow> (string \<times> string) result" where
  "row_entry lib pcre first v =
     bind_result (suffix_str first (snprint_objid lib (SNMP_ERR_STR_SIZE - 1) (vb_name v))) (\<lambda>sfx.
     bind_result (extract_value_from_raw pcre (vb_print v)) (\<lambda>value.
       Inr (value, sfx)))"

text \<open>One pass over the variables of a response: \<open>running\<close>, \<open>name\<close> and the table are the state.\<close>

fun bulk_variables :: "snmp_lib \<Rightarrow> value_matcher \<Rightarrow> string \<Rightarrow> oid \<Rightarrow> varbind list \<Rightarrow>
    bool \<times> oid \<times> oid_value_table \<Rightarrow> (bool \<times> oid \<times> oid_value_table) result" where
  "bulk_variables lib pcre first root [] st = Inr st"
| "bulk_variables lib pcre first root (v # next_variable) (running, name, t) =
     (if \<not> in_subtree root v then bulk_variables lib pcre first root next_variable (False, name, t)
      else if vb_type v = Ordinary then
        bind_result (row_entry lib pcre first v) (\<lambda>(value, sfx).
          bulk_variables lib pcre first root next_variable
            (running, if next_variable = [] then vb_name v else name, insert_value value sfx t))
      else bulk_variables lib pcre first root next_variable (False, name, t))"

text \<open>One round of the loop: the request and its answer; any error ends the walk.\<close>

definition bulk_request :: "snmp_lib \<Rightarrow> value_matcher \<Rightarrow> string \<Rightarrow> oid \<Rightarrow> nat \<Rightarrow> oid \<Rightarrow> oid_value_table \<Rightarrow>
    (bool \<times> oid \<times> oid_value_table) result" where
  "bulk_request lib pcre first root k name t =
     (case synch_response lib k (Getbulk 0 15 name) of
        Stat_success noerror vars \<Rightarrow>
          if noerror then bulk_variables lib pcre first root vars (True, name, t)
          else Inr (False, name, t)
      | Stat_timeout \<Rightarrow> Inr (False, name, t)
      | Stat_error \<Rightarrow> Inr (False, name, t))"

text \<open>
  The loop of GETBULK requests; \<open>k\<close> counts the requests sent. None is a walk that never ends.
\<close>

partial_function (option) bulk_walk ::
  "snmp_lib \<Rightarrow> value_matcher \<Rightarrow> string \<Rightarrow> oid \<Rightarrow> nat \<Rightarrow> oid \<Rightarrow> oid_value_table \<Rightarrow>
   (nat \<times> oid_value_table) result option" where
  "bulk_walk lib pcre first root k name t =
     (case bulk_request lib pcre first root k name t of
        Inl e \<Rightarrow> Some (Inl e)
      | Inr (running, name', t') \<Rightarrow>
          if running then bulk_walk lib pcre first root (Suc k) name' t'
          else Some (Inr (Suc k, t')))"

declare bulk_walk.simps [code]

text \<open>
  The loop over the configured OIDs of a host, in map order: the value returned (0 or -1) and
  the tables as they are then.
\<close>

fun load_oids :: "snmp_lib \<Rightarrow> value_matcher \<Rightarrow> nat \<Rightarrow> (string, oid_value_table) omap \<Rightarrow>
    (int \<times> (string, oid_value_table) omap) result option" where
  "load_oids lib pcre k [] = Some (Inr (0, []))"
| "load_oids lib pcre k ((first, t) # rest) =
     (if first \<noteq> vt_oid t then Some (Inl Assertion_failed)
      else case read_objid lib (c_str first) of
        None \<Rightarrow> Some (Inr (- 1, (first, t) # rest))
      | Some root \<Rightarrow>
          if \<not> sess_open_ok lib k then Some (Inr (- 1, (first, t) # rest))
          else (case bulk_walk lib pcre first root k root t of
              None \<Rightarrow> None
            | Some (Inl e) \<Rightarrow> Some (Inl e)
            | Some (Inr (k', t')) \<Rightarrow>
                (case load_oids lib pcre k' rest of
                   None \<Rightarrow> None
                 | Some (Inl e) \<Rightarrow> Some (Inl e)
                 | Some (Inr (fvalue, rest')) \<Rightarrow> Some (Inr (fvalue, (first, t') # rest')))))"

definition load_oid_table :: "snmp_lib \<Rightarrow> value_matcher \<Rightarrow> host_info \<Rightarrow> (int \<times> host_info) result option" where
  "load_oid_table lib pcre h =
     map_option (\<lambda>r. bind_result r (\<lambda>(fvalue, ts). Inr (fvalue, h\<lparr>oid_table := ts\<rparr>)))
       (load_oids lib pcre 0 (oid_table h))"

text \<open>
  \<open>load_oid_table_get\<close>, the older walk with GETNEXT, which is no longer called. Its first answer
  is taken apart and then meets \<^verbatim>\<open>assert(0==1)\<close>, so nothing behind that line is ever reached. On the
  way there: no colon, or nothing after it, is a null or stray pointer; a lone quote makes
  \<^verbatim>\<open>resize(size()-1)\<close> throw; a name no longer than the column leaves \<^verbatim>\<open>ifIndexstr\<close> unset, or runs off
  the name; and a suffix that needs 128 characters overflows it.
\<close>

abbreviation MAX_OID_LEN :: nat where "MAX_OID_LEN \<equiv> 128"

definition first_get_row :: "oid \<Rightarrow> varbind \<Rightarrow> failure" where
  "first_get_row root v =
     (case strstr (c_str (vb_print v)) '':'' of
        None \<Rightarrow> Undefined
      | Some r \<Rightarrow>
          if length r < 2 then Undefined
          else if drop 2 r = [CHR 0x22] then Out_of_range
          else if length (vb_name v) \<le> length root then Undefined
          else if MAX_OID_LEN \<le> length (join_with (CHR ''.'')
                    (map (\<lambda>n. show_int (sint (of_nat n :: 32 word))) (drop (length root) (vb_name v))))
            then Undefined
          else Assertion_failed)"

definition load_oid_table_get :: "snmp_lib \<Rightarrow> host_info \<Rightarrow> int result" where
  "load_oid_table_get lib h =
     (case oid_table h of
        [] \<Rightarrow> Inl Undefined
      | (first, t) # _ \<Rightarrow>
          if first \<noteq> vt_oid t then Inl Assertion_failed
          else case read_objid lib (c_str first) of
            None \<Rightarrow> Inr (- 1)
          | Some root \<Rightarrow>
              if \<not> sess_open_ok lib 0 then Inr (- 1)
              else (case synch_response lib 0 (Getnext root) of
                  Stat_success True (v # _) \<Rightarrow> Inl (first_get_row root v)
                | Stat_success True [] \<Rightarrow> Inl Undefined
                | _ \<Rightarrow> Inr (- 1)))"

text \<open>The thread of one host: the host afterwards and the posts on the shared semaphore.\<close>

definition host_thread_start :: "snmp_lib \<Rightarrow> value_matcher \<Rightarrow> host_info \<Rightarrow> (host_info \<times> nat) result option" where
  "host_thread_start lib pcre h =
     map_option (\<lambda>r. bind_result r (\<lambda>(rvalue, h').
         Inr (if rvalue \<ge> 0 then h'\<lparr>mapping_done := 1\<rparr> else h', if has_semaphore h' then 1 else 0)))
       (load_oid_table lib pcre h)"

text \<open>The older walk never succeeds: it returns -1 or does not return at all.\<close>

lemma load_oid_table_get_never_succeeds: "load_oid_table_get lib h = Inr r \<Longrightarrow> r = - 1"
  by (auto simp: load_oid_table_get_def
      split: list.splits prod.splits option.splits if_splits snmp_reply.splits bool.splits)

section \<open>Values\<close>

text \<open>
  What PCRE documents of the pattern \<^verbatim>\<open>[^:]+:\s*"?([^"]*)"?\<close>: with a first colon after at
  least one character, it matches at the start and its group begins after the colon, the blanks
  and an optional quote; without a colon there is no match.
\<close>

definition value_skip :: "string \<Rightarrow> nat" where
  "value_skip rest =
     (let n = length (takeWhile is_space rest)
      in if prefix [CHR 0x22] (drop n rest) then n + 1 else n)"

definition value_pattern_ok :: "value_matcher \<Rightarrow> bool" where
  "value_pattern_ok pcre \<longleftrightarrow>
     (\<forall>ty rest. ty \<noteq> [] \<and> CHR '':'' \<notin> set ty \<longrightarrow>
        pcre (ty @ CHR '':'' # rest) = (2, int (length ty + 1 + value_skip rest))) \<and>
     (\<forall>s. CHR '':'' \<notin> set s \<longrightarrow> fst (pcre s) = - 1)"

definition value_pattern_match :: value_matcher where
  "value_pattern_match s =
     (let ty = takeWhile (\<lambda>c. c \<noteq> CHR '':'') (dropWhile (\<lambda>c. c = CHR '':'') s);
          p = length (takeWhile (\<lambda>c. c = CHR '':'') s) + length ty;
          rest = drop (p + 1) s
      in if ty \<noteq> [] \<and> p < length s then (2, int (p + 1 + value_skip rest)) else (- 1, - 1))"

lemma value_pattern_match_ok: "value_pattern_ok value_pattern_match"
proof -
  have "value_pattern_match (ty @ CHR '':'' # rest) = (2, int (length ty + 1 + value_skip rest))"
    if "ty \<noteq> []" "CHR '':'' \<notin> set ty" for ty rest
  proof -
    have "dropWhile (\<lambda>c. c = CHR '':'') (ty @ CHR '':'' # rest) = ty @ CHR '':'' # rest"
      "takeWhile (\<lambda>c. c = CHR '':'') (ty @ CHR '':'' # rest) = []"
      using that by (cases ty; auto)+
    moreover have "takeWhile (\<lambda>c. c \<noteq> CHR '':'') (ty @ CHR '':'' # rest) = ty"
      using that by (subst takeWhile_append2) auto
    ultimately show ?thesis using that by (simp add: value_pattern_match_def)
  qed
  moreover have "fst (value_pattern_match s) = - 1" if "CHR '':'' \<notin> set s" for s
  proof -
    have "takeWhile (\<lambda>c. c = CHR '':'') s = []" "dropWhile (\<lambda>c. c = CHR '':'') s = s"
      using that by (cases s; auto)+
    moreover have "takeWhile (\<lambda>c. c \<noteq> CHR '':'') s = s"
      using that by (auto simp: takeWhile_eq_all_conv)
    ultimately show ?thesis by (simp add: value_pattern_match_def del: takeWhile_eq_all_conv)
  qed
  ultimately show ?thesis by (simp add: value_pattern_ok_def)
qed

lemma extract_after_type:
  assumes "value_pattern_ok pcre" "ty \<noteq> []" "CHR '':'' \<notin> set ty"
    "no_nul (ty @ CHR '':'' # rest)" "length (ty @ CHR '':'' # rest) < STD_STRING_SIZE"
  shows "extract_value_from_raw pcre (ty @ CHR '':'' # rest) =
    (let v = drop (value_skip rest) rest in
     if v = [] then Inl Undefined
     else if last v = CHR 0x22 then Inr (butlast v) else Inr v)"
proof -
  have "pcre (ty @ CHR '':'' # rest) = (2, int (length ty + 1 + value_skip rest))"
    using assms by (simp add: value_pattern_ok_def)
  moreover have "take (STD_STRING_SIZE - 1) (c_str (ty @ CHR '':'' # rest)) = ty @ CHR '':'' # rest"
    using assms by (subst c_str_no_nul) auto
  ultimately show ?thesis
    by (simp add: extract_value_from_raw_def Let_def nat_add_distrib)
qed

text \<open>
  The value of a row: for a printed value \<^verbatim>\<open>TYPE: "v"\<close> (whose text fits the 255
  characters that are looked at) \<^verbatim>\<open>extract_value_from_raw\<close> returns exactly \<open>v\<close>, also when
  \<open>v\<close> is empty or holds quotes of its own, and for \<^verbatim>\<open>TYPE: v\<close> without quotes it returns \<open>v\<close>.
\<close>

theorem extract_value_typed:
  assumes "value_pattern_ok pcre" "ty \<noteq> []" "CHR '':'' \<notin> set ty" "no_nul ty" "no_nul v"
    "length ty + length v < 252"
  shows "extract_value_from_raw pcre (ty @ '': '' @ [CHR 0x22] @ v @ [CHR 0x22]) = Inr v \<and>
    (v \<noteq> [] \<and> hd v \<noteq> CHR 0x22 \<and> \<not> is_space (hd v) \<and> last v \<noteq> CHR 0x22 \<longrightarrow>
      extract_value_from_raw pcre (ty @ '': '' @ v) = Inr v)"
proof (intro conjI impI)
  let ?q = "CHR '' '' # CHR 0x22 # v @ [CHR 0x22]"
  have "drop (value_skip ?q) ?q = v @ [CHR 0x22]"
    by (simp add: value_skip_def is_space_def)
  with extract_after_type [of pcre ty ?q] assms
  show "extract_value_from_raw pcre (ty @ '': '' @ [CHR 0x22] @ v @ [CHR 0x22]) = Inr v"
    by simp
next
  assume v: "v \<noteq> [] \<and> hd v \<noteq> CHR 0x22 \<and> \<not> is_space (hd v) \<and> last v \<noteq> CHR 0x22"
  let ?q = "CHR '' '' # v"
  have "drop (value_skip ?q) ?q = v"
    using v by (cases v) (auto simp: value_skip_def is_space_def)
  with extract_after_type [of pcre ty ?q] assms v
  show "extract_value_from_raw pcre (ty @ '': '' @ v) = Inr v" by simp
qed

theorem extract_value_typed_witness:
  "value_pattern_ok value_pattern_match \<and>
   extract_value_from_raw value_pattern_match (''STRING'' @ '': '' @ [CHR 0x22] @ ''eth0'' @ [CHR 0x22]) = Inr ''eth0'' \<and>
   extract_value_from_raw value_pattern_match (''INTEGER'' @ '': '' @ ''7'') = Inr ''7''"
proof (intro conjI)
  show "value_pattern_ok value_pattern_match" by (rule value_pattern_match_ok)
  show "extract_value_from_raw value_pattern_match (''STRING'' @ '': '' @ [CHR 0x22] @ ''eth0'' @ [CHR 0x22]) = Inr ''eth0''"
    using extract_value_typed [OF value_pattern_match_ok, of "''STRING''" "''eth0''"] by simp
  show "extract_value_from_raw value_pattern_match (''INTEGER'' @ '': '' @ ''7'') = Inr ''7''"
    using extract_value_typed [OF value_pattern_match_ok, of "''INTEGER''" "''7''"]
    by (simp add: is_space_def)
qed

text \<open>
  A value printed without a type, as net-snmp prints an empty octet string (two quotes), has
  no colon: nothing matches, and the test for a closing quote indexes an empty string at
  \<^verbatim>\<open>length()-1\<close>, which is undefined.
\<close>

theorem extract_untyped_undefined:
  assumes "value_pattern_ok pcre" "CHR '':'' \<notin> set raw"
  shows "extract_value_from_raw pcre raw = Inl Undefined"
proof -
  have "CHR '':'' \<notin> set (take (STD_STRING_SIZE - 1) (c_str raw))"
    using assms(2) by (auto simp: c_str_def dest!: in_set_takeD set_takeWhileD)
  with assms(1) have "fst (pcre (take (STD_STRING_SIZE - 1) (c_str raw))) = - 1"
    by (simp add: value_pattern_ok_def)
  then show ?thesis by (simp add: extract_value_from_raw_def Let_def case_prod_beta)
qed

theorem extract_untyped_undefined_witness:
  "value_pattern_ok value_pattern_match \<and>
   extract_value_from_raw value_pattern_match [CHR 0x22, CHR 0x22] = Inl Undefined"
  using value_pattern_match_ok
    extract_untyped_undefined [OF value_pattern_match_ok, of "[CHR 0x22, CHR 0x22]"] by simp

section \<open>Suffixes\<close>

lemma rfind_char_last: "c \<notin> set s \<Longrightarrow> rfind_char c (p @ c # s) = Some (length p)"
proof -
  assume "c \<notin> set s"
  then have "takeWhile (\<lambda>x. x \<noteq> c) (rev s @ c # rev p) = rev s"
    by (subst takeWhile_append2) auto
  then show ?thesis by (simp add: rfind_char_def)
qed

lemma after_last_dot_eq: "CHR ''.'' \<notin> set s \<Longrightarrow> after_last_dot (p @ CHR ''.'' # s) = s"
  by (simp add: after_last_dot_def rfind_char_last)

lemma strstr_first:
  assumes "\<And>i. i < length p \<Longrightarrow> \<not> prefix needle (drop i (p @ needle @ r))"
  shows "strstr (p @ needle @ r) needle = Some (needle @ r)"
  using assms
proof (induction p)
  case Nil
  then show ?case by simp
next
  case (Cons c p)
  from Cons.prems [of 0] have "\<not> prefix needle (c # p @ needle @ r)" by simp
  moreover have "strstr (p @ needle @ r) needle = Some (needle @ r)"
    using Cons.prems [of "Suc i" for i] by (intro Cons.IH) auto
  ultimately show ?case by simp
qed

lemma search_string_length [simp]:
  "length first - length (suffix_search_string first) + length (suffix_search_string first) = length first"
  by (simp add: suffix_search_string_def)

lemma find_search_string:
  assumes "\<And>i. i < length first * 2 div 3 \<Longrightarrow> \<not> prefix (suffix_search_string first) (drop i (first @ rest))"
  shows "find_str (first @ rest) (suffix_search_string first) =
    Some (length first - length (suffix_search_string first))"
proof -
  let ?p = "take (length first * 2 div 3) first" and ?n = "suffix_search_string first"
  have "first = ?p @ ?n" by (simp add: suffix_search_string_def)
  then have eq: "first @ rest = ?p @ ?n @ rest" by (metis append.assoc)
  have "strstr (first @ rest) ?n = Some (?n @ rest)"
    using strstr_first [of ?p ?n rest] assms unfolding eq [symmetric] by simp
  then show ?thesis by (simp add: find_str_def)
qed

text \<open>The suffix of a row. A name printed as the configured OID, a dot and the index gives
  exactly that index, of any number of components, provided the last third of the OID does not
  already occur further left. A name in which that third does not occur (a symbolic name) gives the part
  after its last dot. A name that ends where the OID ends (an agent that answers with the column
  itself) makes \<^verbatim>\<open>substr\<close> throw \<^verbatim>\<open>std::out_of_range\<close>, which nothing catches.
\<close>

theorem suffix_str_cases:
  assumes "\<forall>i < length first * 2 div 3.
    \<not> prefix (suffix_search_string first) (drop i (first @ CHR ''.'' # idx))"
  shows "suffix_str first (first @ CHR ''.'' # idx) = Inr idx \<and>
    suffix_str first first = Inl Out_of_range \<and>
    (\<not> sublist (suffix_search_string first) (symbol @ CHR ''.'' # row) \<and> CHR ''.'' \<notin> set row \<longrightarrow>
      suffix_str first (symbol @ CHR ''.'' # row) = Inr row)"
proof (intro conjI)
  have "\<not> prefix (suffix_search_string first) (drop i (first @ []))"
    if "i < length first * 2 div 3" for i
    using assms that prefix_order.trans [OF _ prefixI [of "drop i (first @ CHR ''.'' # idx)"
        "drop i first" "CHR ''.'' # idx"]] by fastforce
  from find_search_string [OF this] show "suffix_str first first = Inl Out_of_range"
    by (simp add: suffix_str_def Let_def substr_from_def search_string_length)
  from assms have "find_str (first @ CHR ''.'' # idx) (suffix_search_string first) =
      Some (length first - length (suffix_search_string first))"
    by (intro find_search_string) blast
  then show "suffix_str first (first @ CHR ''.'' # idx) = Inr idx"
    by (simp add: suffix_str_def Let_def substr_from_def search_string_length)
qed (auto simp: suffix_str_def find_str_def after_last_dot_eq simp flip: strstr_None_iff)

theorem suffix_str_cases_witness:
  "suffix_str ''.1.3.6.1.2.1.2.2.1.2'' (''.1.3.6.1.2.1.2.2.1.2'' @ CHR ''.'' # ''10.7'') = Inr ''10.7'' \<and>
   suffix_str ''.1.3.6.1.2.1.2.2.1.2'' ''.1.3.6.1.2.1.2.2.1.2'' = Inl Out_of_range \<and>
   suffix_str ''.1.3.6.1.2.1.2.2.1.2'' (''IF-MIB::ifDescr'' @ CHR ''.'' # ''10'') = Inr ''10''"
proof -
  have "\<forall>i < length ''.1.3.6.1.2.1.2.2.1.2'' * 2 div 3. \<not> prefix (suffix_search_string ''.1.3.6.1.2.1.2.2.1.2'')
      (drop i (''.1.3.6.1.2.1.2.2.1.2'' @ CHR ''.'' # ''10.7''))"
    by code_simp
  from suffix_str_cases [OF this, of "''IF-MIB::ifDescr''" "''10''"] show ?thesis
    by (simp add: suffix_search_string_def sublist_Cons_right)
qed

section \<open>What a walk loads\<close>

text \<open>The rows that are stored, and the entry each leaves.\<close>

definition stored_row :: "oid \<Rightarrow> varbind \<Rightarrow> bool" where
  "stored_row root v \<longleftrightarrow> in_subtree root v \<and> vb_type v = Ordinary"

definition entry_of :: "snmp_lib \<Rightarrow> value_matcher \<Rightarrow> string \<Rightarrow> varbind \<Rightarrow> string \<times> string" where
  "entry_of lib pcre first v = projr (row_entry lib pcre first v)"

definition store_row :: "snmp_lib \<Rightarrow> value_matcher \<Rightarrow> string \<Rightarrow> varbind \<Rightarrow> oid_value_table \<Rightarrow> oid_value_table" where
  "store_row lib pcre first v = (case entry_of lib pcre first v of (value, sfx) \<Rightarrow> insert_value value sfx)"

definition rows_parse :: "snmp_lib \<Rightarrow> value_matcher \<Rightarrow> string \<Rightarrow> oid \<Rightarrow> varbind list \<Rightarrow> bool" where
  "rows_parse lib pcre first root vs \<longleftrightarrow>
     (\<forall>v \<in> set vs. stored_row root v \<longrightarrow> \<not> isl (row_entry lib pcre first v))"

lemma bulk_variables_eq:
  "rows_parse lib pcre first root vs \<Longrightarrow>
   bulk_variables lib pcre first root vs (running, name, t) =
     Inr (running \<and> (\<forall>v \<in> set vs. stored_row root v),
          if vs \<noteq> [] \<and> stored_row root (last vs) then vb_name (last vs) else name,
          fold (store_row lib pcre first) (filter (stored_row root) vs) t)"
proof (induction vs arbitrary: running name t)
  case Nil
  then show ?case by simp
next
  case (Cons v vs)
  then have IH: "\<And>running name t. bulk_variables lib pcre first root vs (running, name, t) =
     Inr (running \<and> (\<forall>v \<in> set vs. stored_row root v),
          if vs \<noteq> [] \<and> stored_row root (last vs) then vb_name (last vs) else name,
          fold (store_row lib pcre first) (filter (stored_row root) vs) t)"
    by (auto simp: rows_parse_def)
  show ?case
  proof (cases "stored_row root v")
    case True
    with Cons.prems have "\<not> isl (row_entry lib pcre first v)" by (simp add: rows_parse_def)
    then obtain val sfx where e: "row_entry lib pcre first v = Inr (val, sfx)"
      by (cases "row_entry lib pcre first v") auto
    then have "store_row lib pcre first v t = insert_value val sfx t"
      by (simp add: store_row_def entry_of_def)
    moreover have "in_subtree root v" "vb_type v = Ordinary"
      using True by (simp_all add: stored_row_def)
    ultimately show ?thesis using True by (simp add: IH e)
  next
    case False
    then have "\<not> (in_subtree root v \<and> vb_type v = Ordinary)" by (simp add: stored_row_def)
    then have "bulk_variables lib pcre first root (v # vs) (running, name, t) =
        bulk_variables lib pcre first root vs (False, name, t)" by simp
    with False show ?thesis by (simp only: IH) simp
  qed
qed

lemma fold_store_row_maps:
  "map_of (suffix_of (fold (store_row lib pcre first) vs t)) =
     map_of (suffix_of t) ++ map_of (rev (map (entry_of lib pcre first) vs))"
  "map_of (value_of (fold (store_row lib pcre first) vs t)) =
     map_of (value_of t) ++ map_of (rev (map (prod.swap \<circ> entry_of lib pcre first) vs))"
  by (induction vs arbitrary: t)
    (auto simp: store_row_def insert_value_def case_prod_beta map_add_assoc fun_eq_iff map_add_def
       split: option.splits)

lemma fold_store_row_oid [simp]:
  "vt_oid (fold (store_row lib pcre first) vs t) = vt_oid t"
  by (induction vs arbitrary: t) (auto simp: store_row_def insert_value_def case_prod_beta)

lemma subtree_convex:
  fixes root x :: oid
  shows "root \<le> x \<Longrightarrow> x < root @ z \<Longrightarrow> prefix root x"
proof (induction root arbitrary: x)
  case Nil
  then show ?case by simp
next
  case (Cons a root)
  then show ?case by (cases x) auto
qed

lemma in_subtree_prefix: "in_subtree root v \<longleftrightarrow> prefix root (vb_name v)"
  by (auto simp: in_subtree_def prefix_def)
    (metis append_take_drop_id)

lemma subtree_left:
  "root \<le> vb_name v \<Longrightarrow> \<not> in_subtree root v \<Longrightarrow> vb_name v < vb_name w \<Longrightarrow> \<not> in_subtree root w"
  using subtree_convex by (auto simp: in_subtree_prefix elim!: prefixE)

text \<open>
  An agent that serves a table as the protocol says: a GETBULK returns, in order, the next one
  to fifteen rows after the name asked for, or all the rows left and an end-of-view marker. How
  many rows fit a response is the agent's choice and may change between requests.
\<close>

definition next_rows :: "varbind list \<Rightarrow> oid \<Rightarrow> varbind list" where
  "next_rows mib name = filter (\<lambda>v. name < vb_name v) mib"

definition serves_mib :: "snmp_lib \<Rightarrow> varbind list \<Rightarrow> bool" where
  "serves_mib lib mib \<longleftrightarrow>
     sorted_wrt (\<lambda>v w. vb_name v < vb_name w) mib \<and> (\<forall>v \<in> set mib. vb_type v = Ordinary) \<and>
     (\<forall>k name. \<exists>n e. 1 \<le> n \<and> n \<le> 15 \<and> vb_type e = SNMP_ENDOFMIBVIEW \<and>
        synch_response lib k (Getbulk 0 15 name) = Stat_success True
          (if n \<le> length (next_rows mib name) then take n (next_rows mib name)
           else next_rows mib name @ [e]))"

lemma next_rows_after:
  assumes "sorted_wrt (\<lambda>v w. vb_name v < vb_name w) xs" "n < length xs"
  shows "next_rows xs (vb_name (xs ! n)) = drop (Suc n) xs"
proof -
  have "\<not> vb_name (xs ! n) < vb_name v" if "v \<in> set (take (Suc n) xs)" for v
  proof -
    from that obtain i where "i \<le> n" "v = xs ! i" by (auto simp: in_set_conv_nth less_Suc_eq_le)
    with assms show ?thesis
      by (cases "i = n") (auto simp: sorted_wrt_iff_nth_less dest: order.asym)
  qed
  moreover have "vb_name (xs ! n) < vb_name v" if "v \<in> set (drop (Suc n) xs)" for v
  proof -
    from that obtain i where "i < length xs - Suc n" "v = xs ! (Suc n + i)"
      by (auto simp: in_set_conv_nth)
    with assms show ?thesis by (auto simp: sorted_wrt_iff_nth_less)
  qed
  ultimately have "filter (\<lambda>v. vb_name (xs ! n) < vb_name v) (take (Suc n) xs @ drop (Suc n) xs) = drop (Suc n) xs"
    by (simp add: filter_empty_conv filter_id_conv del: append_take_drop_id)
  then show ?thesis by (simp add: next_rows_def)
qed

lemma next_rows_trans: "name < name' \<Longrightarrow> next_rows mib name' = next_rows (next_rows mib name) name'"
  by (auto simp: next_rows_def intro!: filter_cong)

lemma no_rows_beyond:
  assumes mib: "serves_mib lib mib" and "root \<le> name"
    and v: "v \<in> set (take n (next_rows mib name))" "\<not> stored_row root v"
  shows "filter (stored_row root) (drop n (next_rows mib name)) = []"
proof -
  let ?rows = "next_rows mib name"
  from v have "v \<in> set ?rows" by (meson in_set_takeD)
  with mib assms(2) have "root \<le> vb_name v" "vb_type v = Ordinary"
    by (auto simp: next_rows_def serves_mib_def)
  moreover have "vb_name v < vb_name w" if "w \<in> set (drop n ?rows)" for w
  proof -
    from mib have "sorted_wrt (\<lambda>v w. vb_name v < vb_name w) (take n ?rows @ drop n ?rows)"
      by (simp add: serves_mib_def next_rows_def sorted_wrt_filter)
    with that v show ?thesis unfolding sorted_wrt_append by blast
  qed
  ultimately show ?thesis
    using subtree_left v by (auto simp: filter_empty_conv stored_row_def)
qed

lemma walk_from:
  assumes mib: "serves_mib lib mib" and parse: "rows_parse lib pcre first root mib"
  shows "root \<le> name \<Longrightarrow> \<exists>k'. bulk_walk lib pcre first root k name t =
    Some (Inr (k', fold (store_row lib pcre first) (filter (stored_row root) (next_rows mib name)) t))"
proof (induction "length (next_rows mib name)" arbitrary: k name t rule: less_induct)
  case less
  let ?rows = "next_rows mib name" and ?store = "store_row lib pcre first"
  from mib have sorted: "sorted_wrt (\<lambda>v w. vb_name v < vb_name w) ?rows"
    by (simp add: serves_mib_def next_rows_def sorted_wrt_filter)
  have parse': "rows_parse lib pcre first root vs" if "set vs \<subseteq> set ?rows" for vs
    using parse that by (fastforce simp: rows_parse_def next_rows_def)
  from mib obtain n e where n: "1 \<le> n" and e: "vb_type e = SNMP_ENDOFMIBVIEW" and
    reply: "synch_response lib k (Getbulk 0 15 name) = Stat_success True
      (if n \<le> length ?rows then take n ?rows else ?rows @ [e])"
    unfolding serves_mib_def by blast
  show ?case
  proof (cases "n \<le> length ?rows")
    case False
    have "rows_parse lib pcre first root (?rows @ [e])"
      using parse' [of ?rows] e by (simp add: rows_parse_def stored_row_def)
    then show ?thesis using False reply e
      by (subst bulk_walk.simps)
        (simp add: bulk_request_def bulk_variables_eq stored_row_def)
  next
    case True
    let ?got = "take n ?rows" and ?v = "?rows ! (n - 1)"
    have got: "bulk_request lib pcre first root k name t = Inr (\<forall>v \<in> set ?got. stored_row root v,
        if ?got \<noteq> [] \<and> stored_row root (last ?got) then vb_name (last ?got) else name,
        fold ?store (filter (stored_row root) ?got) t)"
      using True reply by (simp add: bulk_request_def bulk_variables_eq parse' set_take_subset)
    have "?got \<noteq> []" using True n by auto
    with True n have last: "?got \<noteq> []" "last ?got = ?v"
      by (simp_all add: last_conv_nth min_def)
    have "?v \<in> set ?rows" using True n by auto
    then have "name < vb_name ?v" by (simp add: next_rows_def)
    have split: "fold ?store (filter (stored_row root) (drop n ?rows))
        (fold ?store (filter (stored_row root) ?got) t) = fold ?store (filter (stored_row root) ?rows) t"
      by (metis append_take_drop_id comp_apply filter_append fold_append)
    show ?thesis
    proof (cases "\<forall>v \<in> set ?got. stored_row root v")
      case all: True
      have "next_rows mib (vb_name ?v) = drop n ?rows"
        using next_rows_after [OF sorted, of "n - 1"] True n
        by (subst next_rows_trans [OF \<open>name < vb_name ?v\<close>]) simp
      moreover have "stored_row root (last ?got)" using all last(1) last_in_set by blast
      ultimately show ?thesis
        using less.hyps [of "vb_name ?v" "Suc k" "fold ?store (filter (stored_row root) ?got) t"]
          less.prems \<open>name < vb_name ?v\<close> True n all last split got
        by (subst bulk_walk.simps) simp
    next
      case False
      then obtain v where "v \<in> set ?got" "\<not> stored_row root v" by blast
      with no_rows_beyond [OF mib less.prems] have "filter (stored_row root) (drop n ?rows) = []" .
      with split False got show ?thesis by (subst bulk_walk.simps) auto
    qed
  qed
qed

text \<open>
  C10. Walking a column of an agent that answers GETBULK as the protocol says ends and loads
  exactly the column: afterwards \<^verbatim>\<open>suffix_of\<close> and \<^verbatim>\<open>value_of\<close> are the old tables overridden by
  the value/suffix pairs of the rows in the subtree, in row order (of two rows with one value the
  later suffix is kept), whatever number of rows each response carries.
\<close>

theorem bulk_walk_loads_subtree:
  assumes "serves_mib lib mib" "rows_parse lib pcre first root mib"
  shows "\<exists>k' t'. bulk_walk lib pcre first root k root t = Some (Inr (k', t')) \<and>
    map_of (suffix_of t') = map_of (suffix_of t) ++
      map_of (rev (map (entry_of lib pcre first) (filter (stored_row root) (next_rows mib root)))) \<and>
    map_of (value_of t') = map_of (value_of t) ++
      map_of (rev (map (prod.swap \<circ> entry_of lib pcre first)
        (filter (stored_row root) (next_rows mib root))))"
  using walk_from [OF assms order_refl, of k t] fold_store_row_maps by metis

definition demo_lib :: snmp_lib where
  "demo_lib =
     (let row = (\<lambda>i s. \<lparr>vb_name = [1, 2, 99, i], vb_type = Ordinary, vb_print = s\<rparr>);
          eom = \<lparr>vb_name = [9], vb_type = SNMP_ENDOFMIBVIEW, vb_print = []\<rparr>
      in \<lparr>read_objid = (\<lambda>_. Some [1, 2, 99]), sess_open_ok = (\<lambda>_. True),
          synch_response = (\<lambda>k p. Stat_success True
             (next_rows [row 1 ''STRING: lo'', row 2 ''STRING: eth''] (case p of Getbulk _ _ n \<Rightarrow> n | _ \<Rightarrow> []) @ [eom])),
          snprint_objid = (\<lambda>_ n. ''IF::d.'' @ show_nat (last n))\<rparr>)"

abbreviation demo_mib :: "varbind list" where
  "demo_mib \<equiv> [\<lparr>vb_name = [1, 2, 99, 1], vb_type = Ordinary, vb_print = ''STRING: lo''\<rparr>,
     \<lparr>vb_name = [1, 2, 99, 2], vb_type = Ordinary, vb_print = ''STRING: eth''\<rparr>]"

lemma demo_serves: "serves_mib demo_lib demo_mib"
proof -
  have "\<exists>n e. 1 \<le> n \<and> n \<le> 15 \<and> vb_type e = SNMP_ENDOFMIBVIEW \<and>
      synch_response demo_lib k (Getbulk 0 15 name) = Stat_success True
        (if n \<le> length (next_rows demo_mib name) then take n (next_rows demo_mib name)
         else next_rows demo_mib name @ [e])" for k name
    by (rule exI [of _ 15], rule exI [of _ "\<lparr>vb_name = [9], vb_type = SNMP_ENDOFMIBVIEW, vb_print = []\<rparr>"])
      (simp add: demo_lib_def next_rows_def)
  then show ?thesis unfolding serves_mib_def by (intro conjI allI) simp_all
qed

lemma demo_entries:
  "row_entry demo_lib value_pattern_match ''1.2.99'' (demo_mib ! 0) = Inr (''lo'', ''1'')"
  "row_entry demo_lib value_pattern_match ''1.2.99'' (demo_mib ! 1) = Inr (''eth'', ''2'')"
  by code_simp+

lemma demo_parse: "rows_parse demo_lib value_pattern_match ''1.2.99'' [1, 2, 99] demo_mib"
  using demo_entries by (simp add: rows_parse_def)

theorem bulk_walk_loads_subtree_witness:
  "serves_mib demo_lib demo_mib \<and> rows_parse demo_lib value_pattern_match ''1.2.99'' [1, 2, 99] demo_mib \<and>
   (\<exists>k' t'. bulk_walk demo_lib value_pattern_match ''1.2.99'' [1, 2, 99] 0 [1, 2, 99]
        \<lparr>vt_oid = ''1.2.99'', suffix_of = [], value_of = []\<rparr> = Some (Inr (k', t')) \<and>
      map_of (suffix_of t') ''eth'' = Some ''2'' \<and> map_of (value_of t') ''1'' = Some ''lo'')"
proof -
  have rows: "filter (stored_row [1, 2, 99]) (next_rows demo_mib [1, 2, 99]) = demo_mib"
    by (simp add: next_rows_def stored_row_def in_subtree_def)
  have e: "map (entry_of demo_lib value_pattern_match ''1.2.99'') demo_mib = [(''lo'', ''1''), (''eth'', ''2'')]"
    "map (prod.swap \<circ> entry_of demo_lib value_pattern_match ''1.2.99'') demo_mib = [(''1'', ''lo''), (''2'', ''eth'')]"
    using demo_entries by (simp_all add: entry_of_def)
  show ?thesis
    using bulk_walk_loads_subtree [OF demo_serves demo_parse, of 0
        "\<lparr>vt_oid = ''1.2.99'', suffix_of = [], value_of = []\<rparr>"] demo_serves demo_parse
    unfolding rows e by auto
qed

lemma bulk_variables_running:
  "bulk_variables lib pcre first root vs (r, name, t) = Inr (True, name', t') \<Longrightarrow>
   r \<and> (vs \<noteq> [] \<longrightarrow> stored_row root (last vs) \<and> name' = vb_name (last vs))"
proof (induction vs arbitrary: r name t)
  case (Cons v vs)
  then have in_sub: "in_subtree root v" and ty: "vb_type v = Ordinary"
    by (auto split: if_splits)
  with Cons.prems obtain val sfx where
    "bulk_variables lib pcre first root vs
       (r, if vs = [] then vb_name v else name, insert_value val sfx t) = Inr (True, name', t')"
    by (auto simp: bind_result_eq_Inr)
  from Cons.IH [OF this] this in_sub ty show ?case
    by (cases "vs = []") (auto simp: stored_row_def)
qed simp

text \<open>
  C34. Against any agent the walk ends provided the last row of every answered request, if it is
  stored at all, lies after the requested name and within a finite set of names: the requests may
  otherwise be answered in any way, with errors, time-outs or rows in any order.
\<close>

theorem bulk_walk_terminates:
  assumes "finite M"
    and "\<And>k name vs. synch_response lib k (Getbulk 0 15 name) = Stat_success True vs \<Longrightarrow>
      vs \<noteq> [] \<and> (stored_row root (last vs) \<longrightarrow> name < vb_name (last vs) \<and> vb_name (last vs) \<in> M)"
  shows "\<exists>r. bulk_walk lib pcre first root k name t = Some r"
proof (induction "card {x \<in> M. name < x}" arbitrary: k name t rule: less_induct)
  case less
  show ?case
  proof (cases "\<exists>name' t'. bulk_request lib pcre first root k name t = Inr (True, name', t')")
    case False
    then show ?thesis
      by (subst bulk_walk.simps) (auto split: sum.split)
  next
    case True
    then obtain name' t' where r: "bulk_request lib pcre first root k name t = Inr (True, name', t')"
      by blast
    then obtain vs where vs: "synch_response lib k (Getbulk 0 15 name) = Stat_success True vs"
      and b: "bulk_variables lib pcre first root vs (True, name, t) = Inr (True, name', t')"
      by (auto simp: bulk_request_def split: snmp_reply.splits if_splits)
    from assms(2) [OF vs] bulk_variables_running [OF b]
    have "name < name'" "name' \<in> M" by auto
    then have "{x \<in> M. name' < x} \<subset> {x \<in> M. name < x}" by auto
    then have "card {x \<in> M. name' < x} < card {x \<in> M. name < x}"
      using assms(1) by (intro psubset_card_mono) auto
    from less.hyps [OF this] r show ?thesis by (subst bulk_walk.simps) simp
  qed
qed

theorem bulk_walk_terminates_witness:
  "\<exists>r. bulk_walk demo_lib value_pattern_match ''1.2.99'' [1, 2, 99] 0 [1, 2, 99]
     \<lparr>vt_oid = ''1.2.99'', suffix_of = [], value_of = []\<rparr> = Some r"
proof (rule bulk_walk_terminates [of "{}"])
  fix k name vs
  assume "synch_response demo_lib k (Getbulk 0 15 name) = Stat_success True vs"
  then show "vs \<noteq> [] \<and> (stored_row [1, 2, 99] (last vs) \<longrightarrow> name < vb_name (last vs) \<and> vb_name (last vs) \<in> {})"
    by (auto simp: demo_lib_def stored_row_def)
qed simp

text \<open>The test for increasing names is commented out: an agent that answers a request with a
  stored row of the very name asked for, or with no variables at all, keeps the walk, and with it
  the start of the collector, going for ever.
\<close>

theorem bulk_walk_never_ends:
  assumes "\<forall>k. \<exists>vs. synch_response lib k (Getbulk 0 15 name) = Stat_success True vs \<and>
      rows_parse lib pcre first root vs \<and> (\<forall>v \<in> set vs. stored_row root v) \<and>
      (vs = [] \<or> vb_name (last vs) = name)"
  shows "bulk_walk lib pcre first root k name t = None"
proof (cases "bulk_walk lib pcre first root k name t")
  case (Some r)
  let ?stuck = "\<lambda>lib pcre first root name. \<forall>k. \<exists>vs. synch_response lib k (Getbulk 0 15 name) = Stat_success True vs \<and>
      rows_parse lib pcre first root vs \<and> (\<forall>v \<in> set vs. stored_row root v) \<and>
      (vs = [] \<or> vb_name (last vs) = name)"
  have "\<not> ?stuck lib pcre first root name"
  proof (rule bulk_walk.raw_induct [where P = "\<lambda>lib pcre first root k name t r. \<not> ?stuck lib pcre first root name",
        OF _ Some], rule notI)
    fix walk and lib :: snmp_lib and pcre first root k name t r
    assume IH: "\<And>lib pcre first root k name t r. walk lib pcre first root k name t = Some r \<Longrightarrow>
        \<not> ?stuck lib pcre first root name"
      and step: "(case bulk_request lib pcre first root k name t of Inl e \<Rightarrow> Some (Inl e)
        | Inr (running, name', t') \<Rightarrow> if running then walk lib pcre first root (Suc k) name' t'
            else Some (Inr (Suc k, t'))) = Some r"
      and stuck: "?stuck lib pcre first root name"
    from stuck obtain vs where "synch_response lib k (Getbulk 0 15 name) = Stat_success True vs"
      "rows_parse lib pcre first root vs" "\<forall>v \<in> set vs. stored_row root v"
      "vs = [] \<or> vb_name (last vs) = name" by blast
    then have "\<exists>t'. bulk_request lib pcre first root k name t = Inr (True, name, t')"
      by (auto simp: bulk_request_def bulk_variables_eq)
    then obtain t' where "walk lib pcre first root (Suc k) name t' = Some r" using step by auto
    from IH [OF this] stuck show False by blast
  qed
  with assms show ?thesis by blast
qed

theorem bulk_walk_never_ends_witness:
  "bulk_walk (demo_lib\<lparr>synch_response := \<lambda>_ _. Stat_success True []\<rparr>) value_pattern_match ''1.2.99'' [1, 2, 99] 0 [1, 2, 99]
     \<lparr>vt_oid = ''1.2.99'', suffix_of = [], value_of = []\<rparr> = None"
  by (rule bulk_walk_never_ends) (simp add: rows_parse_def)

end
