(* ===== verification/Sem_Queue.thy ===== *)
theory Sem_Queue
  imports Snapp_Prelude
begin

text \<open>
  Three parts of the collector hand work from producers to workers in one way: a
  mutex-protected \<^verbatim>\<open>std::queue\<close> and a semaphore that counts its items; a producer pushes
  and posts, a worker waits and only then calls \<^verbatim>\<open>front()\<close> and \<^verbatim>\<open>pop()\<close>, which is
  undefined on an empty queue. The locale states what such a component promises about its
  labelled steps and draws the two consequences once: a worker past its wait always finds an
  item, and items leave in the order they entered, none twice, none lost on the way.
\<close>

section \<open>Labelled runs\<close>

inductive lrun :: "('s \<Rightarrow> 'l \<Rightarrow> 's \<Rightarrow> bool) \<Rightarrow> 's \<Rightarrow> 'l list \<Rightarrow> 's \<Rightarrow> bool" for step where
  lrun_nil: "lrun step s [] s"
| lrun_snoc: "lrun step s tr t \<Longrightarrow> step t l u \<Longrightarrow> lrun step s (tr @ [l]) u"

lemma lrun_one: "step s l t \<Longrightarrow> lrun step s [l] t"
  using lrun_snoc [OF lrun_nil] by fastforce

lemma lrun_trans: "lrun step t tr' u \<Longrightarrow> lrun step s tr t \<Longrightarrow> lrun step s (tr @ tr') u"
proof (induction rule: lrun.induct)
  case (lrun_nil t)
  then show ?case by simp
next
  case (lrun_snoc t tr' v l u)
  then have "lrun step s ((tr @ tr') @ [l]) u" by (blast intro: lrun.lrun_snoc)
  then show ?case by simp
qed

lemma lrun_Cons: "step s l t \<Longrightarrow> lrun step t tr u \<Longrightarrow> lrun step s (l # tr) u"
  using lrun_trans [OF _ lrun_one] by fastforce

lemma lrun_invariant:
  "lrun step s tr t \<Longrightarrow> I s \<Longrightarrow> (\<And>a l b. I a \<Longrightarrow> step a l b \<Longrightarrow> I b) \<Longrightarrow> I t"
  by (induction rule: lrun.induct) auto

section \<open>The queue interface\<close>

text \<open>What a label does to the queue under observation.\<close>

datatype 'a qop = Enqueue 'a | Dequeue 'a | Other

fun enqueued :: "('l \<Rightarrow> 'a qop) \<Rightarrow> 'l list \<Rightarrow> 'a list" where
  "enqueued view [] = []"
| "enqueued view (l # tr) = (case view l of Enqueue x \<Rightarrow> x # enqueued view tr | _ \<Rightarrow> enqueued view tr)"

fun dequeued :: "('l \<Rightarrow> 'a qop) \<Rightarrow> 'l list \<Rightarrow> 'a list" where
  "dequeued view [] = []"
| "dequeued view (l # tr) = (case view l of Dequeue x \<Rightarrow> x # dequeued view tr | _ \<Rightarrow> dequeued view tr)"

lemma enqueued_append [simp]: "enqueued view (tr @ tr') = enqueued view tr @ enqueued view tr'"
  by (induction tr) (auto split: qop.split)

lemma dequeued_append [simp]: "dequeued view (tr @ tr') = dequeued view tr @ dequeued view tr'"
  by (induction tr) (auto split: qop.split)

text \<open>
  \<open>credit\<close> is the number of items workers are entitled to: the semaphore's value plus the
  workers (and posts) between the wait and the pop. \<open>claims\<close> are the latter alone.
\<close>

locale sem_queue =
  fixes items :: "'s \<Rightarrow> 'a list"
    and credit :: "'s \<Rightarrow> nat"
    and claims :: "'s \<Rightarrow> nat"
    and step :: "'s \<Rightarrow> 'l \<Rightarrow> 's \<Rightarrow> bool"
    and view :: "'l \<Rightarrow> 'a qop"
    and good :: "'s \<Rightarrow> bool"
  assumes good_step: "good s \<Longrightarrow> step s l t \<Longrightarrow> good t"
    and enqueue: "good s \<Longrightarrow> step s l t \<Longrightarrow> view l = Enqueue x \<Longrightarrow>
      items t = items s @ [x] \<and> credit t \<le> Suc (credit s)"
    and dequeue: "good s \<Longrightarrow> step s l t \<Longrightarrow> view l = Dequeue x \<Longrightarrow>
      items s = x # items t \<and> Suc (credit t) \<le> credit s"
    and other: "good s \<Longrightarrow> step s l t \<Longrightarrow> view l = Other \<Longrightarrow>
      items t = items s \<and> credit t \<le> credit s"
    and claims_credit: "good s \<Longrightarrow> claims s \<le> credit s"
begin

lemma run_good: "lrun step s tr t \<Longrightarrow> good s \<Longrightarrow> good t"
  by (induction rule: lrun.induct) (auto intro: good_step)

lemma credit_covered:
  "lrun step s tr t \<Longrightarrow> good s \<Longrightarrow> credit s \<le> length (items s) \<Longrightarrow> credit t \<le> length (items t)"
proof (induction rule: lrun.induct)
  case (lrun_nil s)
  then show ?case by simp
next
  case (lrun_snoc s tr t l u)
  then have c: "credit t \<le> length (items t)" and g: "good t"
    using run_good by blast+
  show ?case
  proof (cases "view l")
    case (Enqueue x)
    with enqueue [OF g lrun_snoc.hyps(2)] c show ?thesis by auto
  next
    case (Dequeue x)
    with dequeue [OF g lrun_snoc.hyps(2)] c show ?thesis by auto
  next
    case Other
    with other [OF g lrun_snoc.hyps(2)] c show ?thesis by auto
  qed
qed

lemma no_underflow:
  assumes "lrun step s tr t" "good s" "credit s \<le> length (items s)" "0 < claims t"
  shows "items t \<noteq> []"
proof -
  have "credit t \<le> length (items t)" using assms credit_covered by blast
  moreover have "claims t \<le> credit t" using assms run_good claims_credit by blast
  ultimately show ?thesis using assms(4) by auto
qed

lemma fifo: "lrun step s tr t \<Longrightarrow> good s \<Longrightarrow> items s @ enqueued view tr = dequeued view tr @ items t"
proof (induction rule: lrun.induct)
  case (lrun_nil s)
  then show ?case by simp
next
  case (lrun_snoc s tr t l u)
  then have IH: "items s @ enqueued view tr = dequeued view tr @ items t" and g: "good t"
    using run_good by blast+
  show ?case
  proof (cases "view l")
    case (Enqueue x)
    with enqueue [OF g lrun_snoc.hyps(2)] IH show ?thesis by (simp flip: append_assoc)
  next
    case (Dequeue x)
    with dequeue [OF g lrun_snoc.hyps(2)] IH show ?thesis by simp
  next
    case Other
    with other [OF g lrun_snoc.hyps(2)] IH show ?thesis by simp
  qed
qed

end

end
