(* ===== verification/Host_Table.thy ===== *)
theory Host_Table
  imports Host_Info Sem_Queue
begin

text \<open>
  \<^verbatim>\<open>Host_Info_Table\<close> (\<^verbatim>\<open>host_info.cpp\<close>): the hosts by database id, and the parallel loading
  of their OID tables by one thread per host under a semaphore. The table interprets
  \<open>index_table\<close>; the threads are a step relation.
\<close>

section \<open>The table\<close>

record host_info_table =
  host :: "host_info list"
  db_id_to_index :: "32 word \<Rightarrow> 32 word option"

definition empty_host_table :: host_info_table where
  "empty_host_table = \<lparr>host = [], db_id_to_index = (\<lambda>_. None)\<rparr>"

text \<open>The pointer returned is a position in the vector; an index past its end is undefined.\<close>

definition get_host_for_db_id :: "host_info_table \<Rightarrow> 32 word \<Rightarrow> nat option result" where
  "get_host_for_db_id t d =
     (case db_id_to_index t d of
        None \<Rightarrow> Inr None
      | Some i \<Rightarrow> if unat i < length (host t) then Inr (Some (unat i)) else Inl Undefined)"

definition insert_new_host :: "host_info_table \<Rightarrow> host_info \<Rightarrow> host_info_table \<times> nat" where
  "insert_new_host t inclass =
     (case db_id_to_index t (db_id inclass) of
        None \<Rightarrow>
          let position = length (host t)
          in (t\<lparr>host := host t @ [inclass],
                db_id_to_index := (db_id_to_index t)(db_id inclass \<mapsto> of_nat position)\<rparr>, position)
      | Some i \<Rightarrow> (t, unat i))"

definition host_table_ok :: "host_info_table \<Rightarrow> bool" where
  "host_table_ok t \<longleftrightarrow> length (host t) \<le> 2 ^ 32 \<and>
     (\<forall>d i. map_option unat (db_id_to_index t d) = Some i \<longleftrightarrow>
        i < length (host t) \<and> db_id (host t ! i) = d)"

interpretation ht: index_table host "\<lambda>t d. map_option unat (db_id_to_index t d)" db_id
  "\<lambda>t h. fst (insert_new_host t h)" host_table_ok "2 ^ 32"
proof unfold_locales
  fix t d i
  assume "host_table_ok t"
  then show "(map_option unat (db_id_to_index t d) = Some i) = (i < length (host t) \<and> db_id (host t ! i) = d)"
    by (auto simp: host_table_ok_def)
next
  fix t :: host_info_table and h :: host_info and i
  assume "map_option unat (db_id_to_index t (db_id h)) = Some i"
  then show "fst (insert_new_host t h) = t" by (auto simp: insert_new_host_def)
next
  fix t :: host_info_table and h :: host_info
  assume "map_option unat (db_id_to_index t (db_id h)) = None"
  then show "host (fst (insert_new_host t h)) = host t @ [h]"
    by (simp add: insert_new_host_def Let_def)
next
  fix t :: host_info_table and h :: host_info
  assume ok: "host_table_ok t" and len: "length (host t) < 2 ^ 32"
  show "host_table_ok (fst (insert_new_host t h))"
  proof (cases "db_id_to_index t (db_id h)")
    case None
    with ok have fresh: "\<not> (i < length (host t) \<and> db_id (host t ! i) = db_id h)" for i
      unfolding host_table_ok_def by (metis None option.map_disc_iff option.distinct(1))
    with None ok len show ?thesis
      by (auto simp: host_table_ok_def insert_new_host_def Let_def unat_of_nat_size32 nth_append less_Suc_eq)
  next
    case (Some i)
    with ok show ?thesis by (simp add: insert_new_host_def)
  qed
qed

lemma empty_host_table_ok [simp]: "host_table_ok empty_host_table"
  by (simp add: host_table_ok_def empty_host_table_def)

lemma empty_host_table_simps [simp]:
  "host empty_host_table = []" "db_id_to_index empty_host_table d = None"
  by (simp_all add: empty_host_table_def)

lemma get_host_lookup:
  "host_table_ok t \<Longrightarrow> get_host_for_db_id t d = Inr (map_option unat (db_id_to_index t d))"
  using ht.invar_position [of t d] by (auto simp: get_host_for_db_id_def split: option.split)

text \<open>The rows of the host query, inserted one after the other.\<close>

definition insert_hosts :: "host_info_table \<Rightarrow> host_info list \<Rightarrow> host_info_table" where
  "insert_hosts t hs = foldl (\<lambda>t h. fst (insert_new_host t h)) t hs"

lemma insert_hosts_all: "insert_hosts = ht.insert_all"
  by (intro ext) (simp add: insert_hosts_def ht.insert_all_def)

lemma ht_lookup: "ht.lookup t d = map_option (\<lambda>i. host t ! unat i) (db_id_to_index t d)"
  by (simp add: ht.lookup_def option.map_comp comp_def)

text \<open>Whatever hosts are inserted (fewer than \<open>2^32\<close>), \<^verbatim>\<open>get_host_for_db_id\<close> never leaves the
  vector; it finds a host exactly for the ids inserted, and the host it finds is the first one
  inserted with that id, so a later row for the same id never replaces it.
\<close>

theorem get_host_after_inserts:
  assumes "length hs \<le> 2 ^ 32"
  shows "\<exists>p. get_host_for_db_id (insert_hosts empty_host_table hs) d = Inr p \<and>
    map_option (\<lambda>i. host (insert_hosts empty_host_table hs) ! i) p = List.find (\<lambda>h. db_id h = d) hs"
proof -
  let ?t = "insert_hosts empty_host_table hs"
  have "ht.lookup ?t d = List.find (\<lambda>h. db_id h = d) hs"
    using ht.lookup_insert_all [of empty_host_table hs d] assms
    by (simp add: insert_hosts_all ht_lookup)
  moreover have "host_table_ok ?t"
    using ht.insert_all_invar [of empty_host_table hs] assms
    by (simp add: insert_hosts_all)
  ultimately show ?thesis
    by (simp add: get_host_lookup ht_lookup option.map_comp comp_def)
qed

theorem get_host_after_inserts_witness:
  "\<exists>p. get_host_for_db_id (insert_hosts empty_host_table
        [(new_host_info 0)\<lparr>db_id := 7, ip_address := ''a''\<rparr>, (new_host_info 0)\<lparr>db_id := 7, ip_address := ''b''\<rparr>]) 7 = Inr p \<and>
     map_option (\<lambda>i. ip_address (host (insert_hosts empty_host_table
        [(new_host_info 0)\<lparr>db_id := 7, ip_address := ''a''\<rparr>, (new_host_info 0)\<lparr>db_id := 7, ip_address := ''b''\<rparr>]) ! i)) p = Some ''a''"
  using get_host_after_inserts [of "[(new_host_info 0)\<lparr>db_id := 7, ip_address := ''a''\<rparr>,
    (new_host_info 0)\<lparr>db_id := 7, ip_address := ''b''\<rparr>]" 7]
  by (fastforce simp: new_host_info_def)

section \<open>Loading all hosts\<close>

text \<open>
  \<^verbatim>\<open>load_host_tables\<close>: for each host in turn the main thread waits on the semaphore and creates
  a thread; the thread loads the tables of its own host only, and posts. Then all are joined. The
  SNMP library is seen through the address and community of the host's session.
\<close>

datatype load_thread = Not_created | Running | Finished

record load_state =
  ls_hosts :: "host_info list"
  ls_threads :: "load_thread list"
  ls_sem :: nat

type_synonym snmp_of = "string \<Rightarrow> string \<Rightarrow> snmp_lib"

definition run_host_thread :: "snmp_of \<Rightarrow> value_matcher \<Rightarrow> host_info \<Rightarrow> (host_info \<times> nat) result option" where
  "run_host_thread snmp pcre h = host_thread_start (snmp (ip_address h) (community h)) pcre h"

definition load_init :: "host_info list \<Rightarrow> nat \<Rightarrow> load_state" where
  "load_init hs permits =
     \<lparr>ls_hosts = map (\<lambda>h. h\<lparr>has_semaphore := True\<rparr>) hs,
      ls_threads = replicate (length hs) Not_created, ls_sem = permits\<rparr>"

inductive load_step :: "snmp_of \<Rightarrow> value_matcher \<Rightarrow> load_state \<Rightarrow> nat \<Rightarrow> load_state \<Rightarrow> bool"
  for snmp pcre where
  l_create: "i < length (ls_threads s) \<Longrightarrow> ls_threads s ! i = Not_created \<Longrightarrow>
     (\<forall>j < i. ls_threads s ! j \<noteq> Not_created) \<Longrightarrow> 0 < ls_sem s \<Longrightarrow>
     load_step snmp pcre s i
       (s\<lparr>ls_threads := (ls_threads s)[i := Running], ls_sem := ls_sem s - 1\<rparr>)"
| l_finish: "i < length (ls_threads s) \<Longrightarrow> ls_threads s ! i = Running \<Longrightarrow>
     run_host_thread snmp pcre (ls_hosts s ! i) = Some (Inr (h', posts)) \<Longrightarrow>
     load_step snmp pcre s i
       (s\<lparr>ls_hosts := (ls_hosts s)[i := h'], ls_threads := (ls_threads s)[i := Finished],
          ls_sem := ls_sem s + posts\<rparr>)"

definition joined :: "load_state \<Rightarrow> bool" where
  "joined s \<longleftrightarrow> (\<forall>th \<in> set (ls_threads s). th = Finished)"

definition num_loaded :: "load_state \<Rightarrow> nat" where
  "num_loaded s = length (filter (\<lambda>h. mapping_done h = 1) (ls_hosts s))"

text \<open>What a host becomes when its thread returns.\<close>

definition loaded_host :: "snmp_of \<Rightarrow> value_matcher \<Rightarrow> host_info \<Rightarrow> host_info" where
  "loaded_host snmp pcre h =
     (case run_host_thread snmp pcre h of Some (Inr (h', _)) \<Rightarrow> h' | _ \<Rightarrow> h)"

definition loading_ok :: "snmp_of \<Rightarrow> value_matcher \<Rightarrow> host_info list \<Rightarrow> nat \<Rightarrow> load_state \<Rightarrow> bool" where
  "loading_ok snmp pcre hs permits s \<longleftrightarrow>
     length (ls_hosts s) = length hs \<and> length (ls_threads s) = length hs \<and>
     ls_sem s + length (filter (\<lambda>th. th = Running) (ls_threads s)) = permits \<and>
     (\<forall>i < length hs. ls_hosts s ! i =
        (if ls_threads s ! i = Finished then loaded_host snmp pcre ((hs ! i)\<lparr>has_semaphore := True\<rparr>)
         else (hs ! i)\<lparr>has_semaphore := True\<rparr>))"

lemma run_host_thread_posts:
  "run_host_thread snmp pcre h = Some (Inr (h', posts)) \<Longrightarrow> has_semaphore h \<Longrightarrow> posts = 1"
  by (auto simp: run_host_thread_def host_thread_start_def load_oid_table_def
      bind_result_eq_Inr split: if_splits)

lemma load_init_ok: "loading_ok snmp pcre hs permits (load_init hs permits)"
  by (simp add: loading_ok_def load_init_def)

lemma load_step_ok:
  assumes "loading_ok snmp pcre hs permits s" "load_step snmp pcre s i t"
  shows "loading_ok snmp pcre hs permits t"
  using assms(2)
proof (cases rule: load_step.cases)
  case l_create
  with assms(1) length_filter_update [of i "ls_threads s" "\<lambda>th. th = Running" Running] show ?thesis
    by (auto simp: loading_ok_def nth_list_update)
next
  case (l_finish h' posts)
  with assms(1) have h: "ls_hosts s ! i = (hs ! i)\<lparr>has_semaphore := True\<rparr>"
    by (simp add: loading_ok_def)
  with l_finish have "posts = 1" and "h' = loaded_host snmp pcre ((hs ! i)\<lparr>has_semaphore := True\<rparr>)"
    using run_host_thread_posts by (fastforce, simp add: loaded_host_def)
  with l_finish assms(1) length_filter_update [of i "ls_threads s" "\<lambda>th. th = Running" Finished] show ?thesis
    by (auto simp: loading_ok_def nth_list_update)
qed

lemma load_run_ok:
  "lrun (load_step snmp pcre) (load_init hs permits) tr s \<Longrightarrow> loading_ok snmp pcre hs permits s"
  by (erule lrun_invariant [where I = "loading_ok snmp pcre hs permits"])
    (auto intro: load_init_ok load_step_ok)

lemma load_progress:
  assumes ok: "loading_ok snmp pcre hs permits s" and "0 < permits" and open_threads: "\<not> joined s"
    and ret: "\<forall>h \<in> set hs. \<exists>r. run_host_thread snmp pcre (h\<lparr>has_semaphore := True\<rparr>) = Some (Inr r)"
  shows "\<exists>i t. load_step snmp pcre s i t"
proof (cases "\<exists>i < length hs. ls_threads s ! i = Running")
  case True
  then obtain i where i: "i < length hs" "ls_threads s ! i = Running" by blast
  with ok have "ls_hosts s ! i = (hs ! i)\<lparr>has_semaphore := True\<rparr>" by (simp add: loading_ok_def)
  with ret i obtain h' posts where "run_host_thread snmp pcre (ls_hosts s ! i) = Some (Inr (h', posts))"
    by fastforce
  moreover from i ok have "i < length (ls_threads s)" by (simp add: loading_ok_def)
  ultimately show ?thesis using i(2) by (blast intro: l_finish)
next
  case False
  with ok have none: "filter (\<lambda>th. th = Running) (ls_threads s) = []"
    by (auto simp: filter_empty_conv loading_ok_def in_set_conv_nth)
  with ok \<open>0 < permits\<close> have sem: "0 < ls_sem s" by (simp add: loading_ok_def)
  let ?new = "\<lambda>i. i < length (ls_threads s) \<and> ls_threads s ! i = Not_created"
  from open_threads obtain i where i: "i < length (ls_threads s)" "ls_threads s ! i \<noteq> Finished"
    by (auto simp: joined_def in_set_conv_nth)
  with False ok have "?new i"
    by (cases "ls_threads s ! i") (auto simp: loading_ok_def)
  then obtain j where j: "?new j" "\<forall>m < j. \<not> ?new m"
    using exists_least_iff [of ?new] by blast
  then have "\<forall>m < j. ls_threads s ! m \<noteq> Not_created" by auto
  with j sem show ?thesis by (blast intro: l_create)
qed

fun phase :: "load_thread \<Rightarrow> nat" where
  "phase Not_created = 0" | "phase Running = 1" | "phase Finished = 2"

lemma load_run_length:
  "lrun (load_step snmp pcre) s tr t \<Longrightarrow>
   sum_list (map phase (ls_threads t)) = sum_list (map phase (ls_threads s)) + length tr"
proof (induction rule: lrun.induct)
  case (lrun_snoc s tr t i u)
  from lrun_snoc.hyps(2) have "sum_list (map phase (ls_threads u)) = Suc (sum_list (map phase (ls_threads t)))"
    by (cases rule: load_step.cases)
      (use sum_list_update_nat [of i "ls_threads t" phase Running]
         sum_list_update_nat [of i "ls_threads t" phase Finished] in simp_all)
  with lrun_snoc.IH show ?case by simp
qed simp

lemma phases_le: "sum_list (map phase ths) \<le> 2 * length ths"
proof (induction ths)
  case (Cons th ths)
  then show ?case by (cases th) auto
qed simp

text \<open>
  C18. Loading the hosts in parallel: in every interleaving at most \<open>permits\<close> threads run at once
  and at most two steps are taken per host;
  when all threads are joined every permit is back and each host is exactly what its own thread
  makes of it, independent of the order; and as long as there is a permit and every thread
  returns, loading never gets stuck before that.
\<close>

theorem load_host_tables_correct:
  assumes "lrun (load_step snmp pcre) (load_init hs permits) tr s"
  shows "length (filter (\<lambda>th. th = Running) (ls_threads s)) \<le> permits \<and> length tr \<le> 2 * length hs \<and>
    (joined s \<longrightarrow> ls_sem s = permits \<and>
      ls_hosts s = map (\<lambda>h. loaded_host snmp pcre (h\<lparr>has_semaphore := True\<rparr>)) hs) \<and>
    (0 < permits \<and> (\<forall>h \<in> set hs. \<exists>r. run_host_thread snmp pcre (h\<lparr>has_semaphore := True\<rparr>) = Some (Inr r))
      \<longrightarrow> joined s \<or> (\<exists>i t. load_step snmp pcre s i t))"
proof (intro conjI impI)
  from assms have ok: "loading_ok snmp pcre hs permits s" by (rule load_run_ok)
  then show "length (filter (\<lambda>th. th = Running) (ls_threads s)) \<le> permits"
    by (simp add: loading_ok_def)
  show "length tr \<le> 2 * length hs"
    using load_run_length [OF assms] phases_le [of "ls_threads s"] ok by (simp add: loading_ok_def)
  assume fin: "joined s"
  from fin ok have "filter (\<lambda>th. th = Running) (ls_threads s) = []"
    by (auto simp: joined_def filter_empty_conv)
  with ok show "ls_sem s = permits" by (simp add: loading_ok_def)
  from fin ok show "ls_hosts s = map (\<lambda>h. loaded_host snmp pcre (h\<lparr>has_semaphore := True\<rparr>)) hs"
    by (intro nth_equalityI) (auto simp: joined_def loading_ok_def)
next
  assume "0 < permits \<and> (\<forall>h \<in> set hs. \<exists>r. run_host_thread snmp pcre (h\<lparr>has_semaphore := True\<rparr>) = Some (Inr r))"
  with load_progress [OF load_run_ok [OF assms]]
  show "joined s \<or> (\<exists>i t. load_step snmp pcre s i t)" by blast
qed

theorem load_host_tables_correct_witness:
  "ls_sem (load_init [] 3) = 3 \<and>
   (\<exists>i t. load_step (\<lambda>_ _. demo_lib) value_pattern_match (load_init [new_host_info 0, new_host_info 0] 1) i t)"
proof -
  have "\<exists>r. run_host_thread (\<lambda>_ _. demo_lib) value_pattern_match (h\<lparr>has_semaphore := True\<rparr>) = Some (Inr r)"
    if "h = new_host_info 0" for h
    using that by (simp add: run_host_thread_def host_thread_start_def load_oid_table_def new_host_info_def)
  with load_host_tables_correct [OF lrun_nil, of "[new_host_info 0, new_host_info 0]" 1 "\<lambda>_ _. demo_lib" value_pattern_match]
    load_host_tables_correct [OF lrun_nil, of "[]" 3 "\<lambda>_ _. demo_lib" value_pattern_match]
  show ?thesis by (auto simp: joined_def load_init_def)
qed

end
