(* ===== verification/Collection_Class.thy ===== *)
theory Collection_Class
  imports Host_Table
begin

text \<open>
  \<^verbatim>\<open>collection_class.cpp\<close>: the mapping sequences, the state of a monitored host inside a
  collection class, the cleaning of printed SNMP values and one collection round of a host
  (\<^verbatim>\<open>get_collect\<close>). A round returns the updates it pushes in order; \<^verbatim>\<open>push_data\<close> itself is
  the writer's, and its return value is only logged. The worker pool is \<open>Collection_Sched\<close>.
\<close>

section \<open>Mapping sequences\<close>

record oid_mapping_sequence =
  ms_name :: string
  ms_db_id :: "32 word"
  ms_oid :: "string list"

record oid_mapping_sequence_db =
  mapping :: "oid_mapping_sequence list"
  name_to_index :: "string \<Rightarrow> 32 word option"
  ms_db_id_to_index :: "32 word \<Rightarrow> 32 word option"

definition empty_sequence_db :: oid_mapping_sequence_db where
  "empty_sequence_db = \<lparr>mapping = [], name_to_index = (\<lambda>_. None), ms_db_id_to_index = (\<lambda>_. None)\<rparr>"

definition get_sequence_by_db_id :: "oid_mapping_sequence_db \<Rightarrow> 32 word \<Rightarrow> oid_mapping_sequence option result" where
  "get_sequence_by_db_id t d =
     (case ms_db_id_to_index t d of
        None \<Rightarrow> Inr None
      | Some i \<Rightarrow> bind_result (vector_at (mapping t) (unat i)) (\<lambda>s. Inr (Some s)))"

definition get_sequence_by_name :: "oid_mapping_sequence_db \<Rightarrow> string \<Rightarrow> oid_mapping_sequence option result" where
  "get_sequence_by_name t n =
     (case name_to_index t n of
        None \<Rightarrow> Inr None
      | Some i \<Rightarrow> bind_result (vector_at (mapping t) (unat i)) (\<lambda>s. Inr (Some s)))"

definition insert_new_sequence ::
  "oid_mapping_sequence_db \<Rightarrow> oid_mapping_sequence \<Rightarrow> oid_mapping_sequence_db \<times> nat" where
  "insert_new_sequence t inclass =
     (case ms_db_id_to_index t (ms_db_id inclass) of
        None \<Rightarrow>
          let position = length (mapping t)
          in (t\<lparr>mapping := mapping t @ [inclass],
                ms_db_id_to_index := (ms_db_id_to_index t)(ms_db_id inclass \<mapsto> of_nat position),
                name_to_index := (name_to_index t)(ms_name inclass \<mapsto> of_nat position)\<rparr>, position)
      | Some i \<Rightarrow> (t, unat i))"

section \<open>Collections of a host\<close>

record sql_collection =
  premaping_oid_suffix :: string
  post_mapping_oid_suffix :: string
  oid_mapping_sequence_db_id :: "64 word"
  rrd_filename :: string

text \<open>\<open>sh_host\<close> is the \<^verbatim>\<open>Host_Info\<close> pointer, a position in the host table or null.\<close>

record sql_host =
  collection :: "sql_collection list"
  sh_host :: "nat option"
  timeticks :: "32 word"
  mytime :: "32 word"

record oid_collection =
  oid_prefix :: string
  ds_datatype :: string
  ds_name :: string

definition mapping_failed :: "sql_collection \<Rightarrow> bool" where
  "mapping_failed c \<longleftrightarrow> post_mapping_oid_suffix c = [] \<and> oid_mapping_sequence_db_id c \<noteq> - 1"

text \<open>The warnings logged: one for all, or up to ten, one per collection; and the value returned.\<close>

definition report_mappings :: "sql_host \<Rightarrow> nat" where
  "report_mappings h =
     (let failure_count = length (filter mapping_failed (collection h))
      in if failure_count = length (collection h) then failure_count
         else foldl (\<lambda>n c. if mapping_failed c \<and> n < 10 then n + 1 else n) 0 (collection h))"

section \<open>Cleaning a printed value\<close>

text \<open>
  Two characters past a separator. With nothing at all after the separator the pointer passes the
  terminator, and a null pointer plus two is no string: both are undefined.
\<close>

definition skip_two :: "string option \<Rightarrow> string result" where
  "skip_two r = (case r of Some s \<Rightarrow> if 2 \<le> length s then Inr (drop 2 s) else Inl Undefined | None \<Rightarrow> Inl Undefined)"

definition timeticks_value :: "string \<Rightarrow> string" where
  "timeticks_value buf =
     (case strtok_r buf {CHR ''(''} of
        None \<Rightarrow> ''-1''
      | Some (_, saveptr) \<Rightarrow>
          (case strtok_r saveptr {CHR '')''} of
             None \<Rightarrow> ''-1''
           | Some (the_value, _) \<Rightarrow> if strstr the_value ''null'' \<noteq> None then ''-1'' else the_value))"

definition first_chance :: "string \<Rightarrow> string result" where
  "first_chance buf =
     (if strstr buf ''Timeticks'' \<noteq> None then Inr (timeticks_value buf)
      else if strstr buf ''No Such Instance'' \<noteq> None then Inr ''0''
      else if strstr buf ''No Such Object'' \<noteq> None then Inr ''0''
      else if strstr buf '':'' = None then skip_two (strstr buf ''='')
      else skip_two (strstr buf '':''))"

definition second_chance :: "string \<Rightarrow> string" where
  "second_chance the_value =
     (if the_value \<noteq> [] \<and> is_digit (hd the_value) then the_value
      else if strstr the_value ''up(1)'' \<noteq> None then ''1''
      else if strstr the_value ''down(2)'' \<noteq> None \<or> strstr the_value ''lowerLayerDown(7)'' \<noteq> None \<or>
              strstr the_value ''No Such Instance currently exists at this OID'' \<noteq> None then ''0''
      else ''U'')"

definition get_clean_snmpvalue :: "string \<Rightarrow> string result" where
  "get_clean_snmpvalue buf = bind_result (first_chance buf) (\<lambda>the_value. Inr (second_chance the_value))"

section \<open>One collection round\<close>

text \<open>The names of a request: every OID of the class with the collection's suffix.\<close>

definition oid_string :: "sql_collection \<Rightarrow> oid_collection \<Rightarrow> string" where
  "oid_string c oc =
     (if post_mapping_oid_suffix c \<noteq> [] then oid_prefix oc @ ''.'' @ post_mapping_oid_suffix c
      else oid_prefix oc)"

fun request_oids :: "snmp_lib \<Rightarrow> sql_collection \<Rightarrow> oid_collection list \<Rightarrow> oid list option" where
  "request_oids lib c [] = Some [[1, 3, 6, 1, 2, 1, 1, 3, 0]]"
| "request_oids lib c (oc # ocs) =
     (case read_objid lib (c_str (oid_string c oc)) of
        None \<Rightarrow> None
      | Some root \<Rightarrow> map_option (\<lambda>os. root # os) (request_oids lib c ocs))"

text \<open>The values of a response; None when one is an exception value.\<close>

fun collect_values :: "varbind list \<Rightarrow> string list option result" where
  "collect_values [] = Inr (Some [])"
| "collect_values (v # vars) =
     (if vb_type v = SNMP_ENDOFMIBVIEW \<or> vb_type v = SNMP_NOSUCHOBJECT then Inr None
      else bind_result
        (if vb_type v = SNMP_NOSUCHINSTANCE then Inr ''NAN'' else get_clean_snmpvalue (c_str (vb_print v)))
        (\<lambda>temp_string1. bind_result (collect_values vars) (\<lambda>vs. Inr (map_option ((#) temp_string1) vs))))"

record push =
  p_time :: int
  p_filename :: string
  p_template :: string
  p_values :: string

text \<open>The clock of a host: what the device's tick counter was, and when, at the last reset.\<close>

definition advance_clock :: "32 word \<Rightarrow> 32 word \<Rightarrow> sql_host \<Rightarrow> sql_host" where
  "advance_clock now tt h =
     (if tt \<le> timeticks h \<or> timeticks h = 0 \<or> tt - timeticks h > 6000
      then h\<lparr>timeticks := tt, mytime := now\<rparr> else h)"

definition final_time :: "32 word \<Rightarrow> sql_host \<Rightarrow> int" where
  "final_time tt h = sint (mytime h) + uint ((tt - timeticks h) div 100)"

text \<open>
  What follows one collection: the loop goes on, or control jumps to \<^verbatim>\<open>done\<close>. \<open>Some\<close> carries
  the update pushed.
\<close>

datatype after_collection = Next_collection | Goto_done

record round_state =
  rs_host :: sql_host
  rs_fvalue :: int
  rs_requests :: nat
  rs_pushed :: "push list"

definition handle_values ::
  "oid_collection list \<Rightarrow> string \<Rightarrow> (nat \<Rightarrow> 32 word) \<Rightarrow> sql_collection \<Rightarrow> string list \<Rightarrow> round_state \<Rightarrow>
   (after_collection \<times> round_state) result" where
  "handle_values ocs rrd_dir now c snmp_val st =
     (if length snmp_val \<noteq> length ocs + 1 then Inr (Next_collection, st)
      else let tt = atoi (snmp_val ! length ocs)
           in if tt = - 1 then Inr (Goto_done, st)
              else if ocs = [] then Inl Undefined
              else let h = advance_clock (now (rs_requests st)) tt (rs_host st);
                       p = \<lparr>p_time = final_time tt h,
                            p_filename = rrd_dir @ rrd_filename c,
                            p_template = join_with CHR '':'' (map ds_name ocs),
                            p_values = join_with CHR '':'' (take (length ocs) snmp_val)\<rparr>
                   in Inr (Next_collection, st\<lparr>rs_host := h, rs_pushed := rs_pushed st @ [p]\<rparr>))"

definition collect_one ::
  "snmp_lib \<Rightarrow> (nat \<Rightarrow> 32 word) \<Rightarrow> oid_collection list \<Rightarrow> string \<Rightarrow> sql_collection \<Rightarrow> round_state \<Rightarrow>
   (after_collection \<times> round_state) result" where
  "collect_one lib now ocs rrd_dir c st =
     (if mapping_failed c then Inr (Next_collection, st)
      else case request_oids lib c ocs of
        None \<Rightarrow> Inr (Next_collection, st\<lparr>rs_fvalue := - 1\<rparr>)
      | Some oids \<Rightarrow>
          let st1 = st\<lparr>rs_requests := rs_requests st + 1\<rparr>
          in case synch_response lib (rs_requests st) (Get oids) of
               Stat_success noerror vars \<Rightarrow>
                 if noerror then
                   bind_result (collect_values vars) (\<lambda>r.
                     case r of None \<Rightarrow> Inr (Next_collection, st1\<lparr>rs_fvalue := - 1\<rparr>)
                     | Some snmp_val \<Rightarrow> handle_values ocs rrd_dir now c snmp_val st1)
                 else Inr (Next_collection, st1)
             | Stat_timeout \<Rightarrow> Inr (Goto_done, st1\<lparr>rs_fvalue := - 1\<rparr>)
             | Stat_error \<Rightarrow> Inr (Goto_done, st1\<lparr>rs_fvalue := - 1\<rparr>))"

fun collect_all ::
  "snmp_lib \<Rightarrow> (nat \<Rightarrow> 32 word) \<Rightarrow> oid_collection list \<Rightarrow> string \<Rightarrow> sql_collection list \<Rightarrow> round_state \<Rightarrow>
   round_state result" where
  "collect_all lib now ocs rrd_dir [] st = Inr st"
| "collect_all lib now ocs rrd_dir (c # cs) st =
     bind_result (collect_one lib now ocs rrd_dir c st) (\<lambda>(ctl, st').
       case ctl of Goto_done \<Rightarrow> Inr st' | Next_collection \<Rightarrow> collect_all lib now ocs rrd_dir cs st')"

text \<open>
  \<^verbatim>\<open>get_collect\<close>: the host is read through its pointer for the session; the result is the value
  returned, the host with its clock, and the updates pushed.
\<close>

definition get_collect ::
  "snmp_of \<Rightarrow> host_info list \<Rightarrow> (nat \<Rightarrow> 32 word) \<Rightarrow> oid_collection list \<Rightarrow> string \<Rightarrow> sql_host \<Rightarrow>
   (int \<times> sql_host \<times> push list) result" where
  "get_collect snmp hosts now ocs rrd_dir h =
     (case sh_host h of
        None \<Rightarrow> Inl Undefined
      | Some p \<Rightarrow>
          bind_result (vector_at hosts p) (\<lambda>hi.
            let lib = snmp (ip_address hi) (community hi)
            in if \<not> sess_open_ok lib 0 then Inr (- 1, h, [])
               else bind_result
                 (collect_all lib now ocs rrd_dir (collection h)
                    \<lparr>rs_host = h, rs_fvalue = 0, rs_requests = 0, rs_pushed = []\<rparr>)
                 (\<lambda>st. Inr (rs_fvalue st, rs_host st, rs_pushed st))))"

section \<open>The table of sequences\<close>

definition sequence_db_ok :: "oid_mapping_sequence_db \<Rightarrow> bool" where
  "sequence_db_ok t \<longleftrightarrow> length (mapping t) \<le> 2 ^ 32 \<and>
     (\<forall>d i. map_option unat (ms_db_id_to_index t d) = Some i \<longleftrightarrow>
        i < length (mapping t) \<and> ms_db_id (mapping t ! i) = d) \<and>
     (\<forall>n. get_sequence_by_name t n = Inr (List.find (\<lambda>s. ms_name s = n) (rev (mapping t))))"

lemma get_sequence_by_name_insert:
  assumes "length (mapping t) < 2 ^ 32" "ms_db_id_to_index t (ms_db_id s) = None"
    "get_sequence_by_name t n = Inr r"
  shows "get_sequence_by_name (fst (insert_new_sequence t s)) n =
    Inr (if ms_name s = n then Some s else r)"
  using assms
  by (auto simp: get_sequence_by_name_def insert_new_sequence_def Let_def vector_at_def
      unat_of_nat_size32 nth_append split: option.splits if_splits)

interpretation ms: index_table mapping "\<lambda>t d. map_option unat (ms_db_id_to_index t d)" ms_db_id
  "\<lambda>t s. fst (insert_new_sequence t s)" sequence_db_ok "2 ^ 32"
proof unfold_locales
  fix t d i
  assume "sequence_db_ok t"
  then show "(map_option unat (ms_db_id_to_index t d) = Some i) =
      (i < length (mapping t) \<and> ms_db_id (mapping t ! i) = d)"
    by (auto simp: sequence_db_ok_def)
next
  fix t :: oid_mapping_sequence_db and s :: oid_mapping_sequence and i
  assume "map_option unat (ms_db_id_to_index t (ms_db_id s)) = Some i"
  then show "fst (insert_new_sequence t s) = t" by (auto simp: insert_new_sequence_def)
next
  fix t :: oid_mapping_sequence_db and s :: oid_mapping_sequence
  assume "map_option unat (ms_db_id_to_index t (ms_db_id s)) = None"
  then show "mapping (fst (insert_new_sequence t s)) = mapping t @ [s]"
    by (simp add: insert_new_sequence_def Let_def)
next
  fix t :: oid_mapping_sequence_db and s :: oid_mapping_sequence
  assume ok: "sequence_db_ok t" and len: "length (mapping t) < 2 ^ 32"
  show "sequence_db_ok (fst (insert_new_sequence t s))"
  proof (cases "ms_db_id_to_index t (ms_db_id s)")
    case None
    with ok have fresh: "\<not> (i < length (mapping t) \<and> ms_db_id (mapping t ! i) = ms_db_id s)" for i
      unfolding sequence_db_ok_def by (metis None option.map_disc_iff option.distinct(1))
    have names: "get_sequence_by_name (fst (insert_new_sequence t s)) n =
        Inr (List.find (\<lambda>s. ms_name s = n) (rev (mapping t @ [s])))" for n
      using get_sequence_by_name_insert [OF len None] ok by (simp add: sequence_db_ok_def)
    from fresh None ok len names show ?thesis
      by (auto simp: sequence_db_ok_def insert_new_sequence_def Let_def unat_of_nat_size32 nth_append less_Suc_eq)
  next
    case (Some i)
    with ok show ?thesis by (simp add: insert_new_sequence_def)
  qed
qed

lemma empty_sequence_db_ok [simp]: "sequence_db_ok empty_sequence_db"
  and empty_sequence_db_simps [simp]: "mapping empty_sequence_db = []" "ms_db_id_to_index empty_sequence_db d = None"
  by (simp_all add: sequence_db_ok_def empty_sequence_db_def get_sequence_by_name_def)

definition insert_sequences :: "oid_mapping_sequence_db \<Rightarrow> oid_mapping_sequence list \<Rightarrow> oid_mapping_sequence_db" where
  "insert_sequences t ss = foldl (\<lambda>t s. fst (insert_new_sequence t s)) t ss"

lemma insert_sequences_all: "insert_sequences = ms.insert_all"
  by (intro ext) (simp add: insert_sequences_def ms.insert_all_def)

lemma insert_sequences_ok:
  "length ss \<le> 2 ^ 32 \<Longrightarrow> sequence_db_ok (insert_sequences empty_sequence_db ss)"
  using ms.insert_all_invar [of empty_sequence_db ss] by (simp add: insert_sequences_all)

lemma get_sequence_lookup:
  assumes "sequence_db_ok t"
  shows "get_sequence_by_db_id t d = Inr (ms.lookup t d)"
proof (cases "ms_db_id_to_index t d")
  case (Some i)
  with ms.invar_position [OF assms, of d "unat i"] show ?thesis
    by (simp add: get_sequence_by_db_id_def ms.lookup_def vector_at_def)
qed (simp add: get_sequence_by_db_id_def ms.lookup_def)

text \<open>
  The mapping sequences loaded from the database: a lookup by id never leaves the vector and
  returns the first sequence inserted with that id; a lookup by name returns the most recently
  inserted sequence of that name, so of two sequences with one name the earlier one can only be
  reached by its id.
\<close>

theorem get_sequence_after_inserts:
  assumes "length ss \<le> 2 ^ 32"
  shows "get_sequence_by_db_id (insert_sequences empty_sequence_db ss) d =
      Inr (List.find (\<lambda>s. ms_db_id s = d) ss) \<and>
    get_sequence_by_name (insert_sequences empty_sequence_db ss) n =
      Inr (List.find (\<lambda>s. ms_name s = n) (rev (mapping (insert_sequences empty_sequence_db ss))))"
proof
  have "ms.lookup (insert_sequences empty_sequence_db ss) d = List.find (\<lambda>s. ms_db_id s = d) ss"
    using ms.lookup_insert_all [of empty_sequence_db ss d] assms
    by (simp add: insert_sequences_all ms.lookup_def [of empty_sequence_db])
  with get_sequence_lookup [OF insert_sequences_ok [OF assms]]
  show "get_sequence_by_db_id (insert_sequences empty_sequence_db ss) d =
      Inr (List.find (\<lambda>s. ms_db_id s = d) ss)" by simp
qed (use insert_sequences_ok [OF assms] in \<open>simp add: sequence_db_ok_def\<close>)

theorem get_sequence_after_inserts_witness:
  "get_sequence_by_db_id (insert_sequences empty_sequence_db
      [\<lparr>ms_name = ''a'', ms_db_id = 1, ms_oid = []\<rparr>, \<lparr>ms_name = ''a'', ms_db_id = 2, ms_oid = []\<rparr>]) 1 =
     Inr (Some \<lparr>ms_name = ''a'', ms_db_id = 1, ms_oid = []\<rparr>) \<and>
   get_sequence_by_name (insert_sequences empty_sequence_db
      [\<lparr>ms_name = ''a'', ms_db_id = 1, ms_oid = []\<rparr>, \<lparr>ms_name = ''a'', ms_db_id = 2, ms_oid = []\<rparr>]) ''a'' =
     Inr (Some \<lparr>ms_name = ''a'', ms_db_id = 2, ms_oid = []\<rparr>)"
  using get_sequence_after_inserts [of "[\<lparr>ms_name = ''a'', ms_db_id = 1, ms_oid = []\<rparr>,
    \<lparr>ms_name = ''a'', ms_db_id = 2, ms_oid = []\<rparr>]" 1 "''a''"]
  by (simp add: insert_sequences_def insert_new_sequence_def empty_sequence_db_def)

text \<open>
  The number \<^verbatim>\<open>report_mappings\<close> returns: the number of collections when all their mappings
  failed (so also 0 for a host without collections), and otherwise the number of failed mappings,
  capped at ten.
\<close>

theorem report_mappings_count:
  "report_mappings h =
     (if list_all mapping_failed (collection h) then length (collection h)
      else min 10 (length (filter mapping_failed (collection h))))"
proof -
  have fold: "foldl (\<lambda>n c. if mapping_failed c \<and> n < 10 then n + 1 else n) n cs =
      max n (min 10 (n + length (filter mapping_failed cs)))" for n :: nat and cs
    by (induction cs arbitrary: n) auto
  have "length (filter mapping_failed (collection h)) = length (collection h) \<longleftrightarrow>
      list_all mapping_failed (collection h)"
    by (metis filter_True length_filter_less less_irrefl list_all_iff)
  then show ?thesis by (simp only: report_mappings_def Let_def fold) auto
qed

section \<open>Clean values\<close>

lemma strstr_missing_char: "c \<in> set needle \<Longrightarrow> c \<notin> set s \<Longrightarrow> strstr s needle = None"
  by (meson set_mono_sublist strstr_None_iff subsetD)

lemma strstr_char: "c \<notin> set p \<Longrightarrow> strstr (p @ c # r) [c] = Some (c # r)"
  by (induction p) auto

lemma second_chance_shape: "second_chance v = ''U'' \<or> (second_chance v \<noteq> [] \<and> is_digit (hd (second_chance v)))"
  by (auto simp: second_chance_def is_digit_def)

lemma first_chance_cases: "first_chance s = Inl Undefined \<or> (\<exists>v. first_chance s = Inr v)"
  by (auto simp: first_chance_def skip_two_def split: option.split)

text \<open>A cleaned value is \<^verbatim>\<open>U\<close> or begins with a digit, for every text an agent can make the
  library print; in particular the \<^verbatim>\<open>-1\<close> meant for missing time ticks never comes out. The only
  other outcome is undefined behaviour: no separator, or nothing after it.
\<close>

theorem clean_value_shape:
  "get_clean_snmpvalue s = Inl Undefined \<or>
   (\<exists>v. get_clean_snmpvalue s = Inr v \<and> v \<noteq> ''-1'' \<and> (v = ''U'' \<or> v \<noteq> [] \<and> is_digit (hd v)))"
proof -
  have "v \<noteq> ''-1''" if "v = ''U'' \<or> v \<noteq> [] \<and> is_digit (hd v)" for v
    using that by (auto simp: is_digit_def)
  then have "second_chance v \<noteq> ''-1''" for v using second_chance_shape by metis
  with second_chance_shape first_chance_cases [of s] show ?thesis
    by (elim disjE exE) (simp_all only: get_clean_snmpvalue_def bind_result_simps sum.inject, simp_all)
qed

definition numeric_types :: "string list" where
  "numeric_types = [''Counter32'', ''Counter64'', ''Gauge32'', ''INTEGER'', ''UInteger32'']"

lemma numeric_type_chars:
  assumes "ty \<in> set numeric_types"
  shows "CHR '':'' \<notin> set ty" "CHR ''m'' \<notin> set ty" "CHR ''S'' \<notin> set ty"
  using assms by (auto simp: numeric_types_def)

lemma show_nat_chars: "\<not> is_digit c \<Longrightarrow> c \<notin> set (show_nat n)"
  using show_nat_digits by blast

lemma first_chance_typed:
  assumes "CHR '':'' \<notin> set ty" "CHR ''m'' \<notin> set (ty @ v)" "CHR ''S'' \<notin> set (ty @ v)"
  shows "first_chance (ty @ '': '' @ v) = Inr v"
proof -
  let ?s = "ty @ CHR '':'' # CHR '' '' # v"
  have "strstr ?s ''Timeticks'' = None" "strstr ?s ''No Such Instance'' = None"
    "strstr ?s ''No Such Object'' = None"
    using assms by (auto intro: strstr_missing_char [of "CHR ''m''"] strstr_missing_char [of "CHR ''S''"])
  moreover have "strstr ?s '':'' = Some (CHR '':'' # CHR '' '' # v)"
    using assms by (intro strstr_char)
  ultimately show ?thesis by (simp add: first_chance_def skip_two_def)
qed

lemma timeticks_value_ticks: "timeticks_value (''Timeticks: ('' @ show_nat n @ '')'' @ rest) = show_nat n"
proof -
  have "strtok_r (''Timeticks: '' @ CHR ''('' # show_nat n @ '')'' @ rest) {CHR ''(''} =
      Some (''Timeticks: '', show_nat n @ '')'' @ rest)"
    by (rule strtok_r_sep) auto
  moreover have "strtok_r (show_nat n @ CHR '')'' # rest) {CHR '')''} = Some (show_nat n, rest)"
    using show_nat_chars [of "CHR '')''"] by (intro strtok_r_sep) (auto simp: is_digit_def)
  moreover have "strstr (show_nat n) ''null'' = None"
    using show_nat_chars [of "CHR ''n''" n]
    by (intro strstr_missing_char [of "CHR ''n''"]) (auto simp: is_digit_def)
  ultimately show ?thesis by (simp add: timeticks_value_def)
qed

lemma clean_typed_values:
  assumes "ty \<in> set numeric_types"
  shows "get_clean_snmpvalue (ty @ '': '' @ show_nat n) = Inr (show_nat n) \<and>
    get_clean_snmpvalue (''Timeticks: ('' @ show_nat n @ '')'' @ rest) = Inr (show_nat n) \<and>
    get_clean_snmpvalue (ty @ '': '' @ ''up(1)'') = Inr ''1'' \<and>
    get_clean_snmpvalue (ty @ '': '' @ ''-'' @ show_nat n) = Inr ''U'' \<and>
    get_clean_snmpvalue ''Timeticks: (null)'' = Inr ''U''"
proof (intro conjI)
  have digits: "CHR ''m'' \<notin> set (show_nat n)" "CHR ''S'' \<notin> set (show_nat n)"
    by (simp_all add: show_nat_chars is_digit_def)
  note chars = numeric_type_chars [OF assms] digits
  have typed: "get_clean_snmpvalue (ty @ '': '' @ v) = Inr (second_chance v)"
    if "CHR ''m'' \<notin> set v" "CHR ''S'' \<notin> set v" for v
    using chars that by (simp add: get_clean_snmpvalue_def first_chance_typed [simplified])
  show "get_clean_snmpvalue (ty @ '': '' @ show_nat n) = Inr (show_nat n)"
    by (subst typed [OF digits]) (simp add: second_chance_def)
  show "get_clean_snmpvalue (''Timeticks: ('' @ show_nat n @ '')'' @ rest) = Inr (show_nat n)"
    using timeticks_value_ticks [of n rest]
    by (simp add: get_clean_snmpvalue_def first_chance_def second_chance_def)
  show "get_clean_snmpvalue (ty @ '': '' @ ''up(1)'') = Inr ''1''"
    by (subst typed) (simp_all add: second_chance_def is_digit_def)
  have none: "strstr (''-'' @ show_nat n) needle = None" if "CHR ''('' \<in> set needle \<or> CHR ''x'' \<in> set needle" for needle
  proof -
    have "CHR ''('' \<notin> set (''-'' @ show_nat n)" "CHR ''x'' \<notin> set (''-'' @ show_nat n)"
      by (simp_all add: show_nat_chars is_digit_def)
    with that strstr_missing_char show ?thesis by blast
  qed
  have "second_chance (''-'' @ show_nat n) = ''U''"
    unfolding second_chance_def
    by (subst none, simp, subst none, simp, subst none, simp, subst none, simp)
      (simp add: is_digit_def)
  then show "get_clean_snmpvalue (ty @ '': '' @ ''-'' @ show_nat n) = Inr ''U''"
    using digits by (subst typed) simp_all
  show "get_clean_snmpvalue ''Timeticks: (null)'' = Inr ''U''" by code_simp
qed

text \<open>
  What becomes of the values agents send: a counter, gauge or non-negative integer is kept
  digit for digit; of time ticks the count in parentheses is kept; an interface state \<^verbatim>\<open>up(1)\<close>
  becomes 1; a negative integer becomes \<^verbatim>\<open>U\<close>, and so do time ticks printed as null.
\<close>

theorem clean_value_kept:
  assumes "ty \<in> set numeric_types"
  shows "get_clean_snmpvalue (ty @ '': '' @ show_nat n) = Inr (show_nat n) \<and>
    get_clean_snmpvalue (''Timeticks: ('' @ show_nat n @ '')'' @ rest) = Inr (show_nat n) \<and>
    get_clean_snmpvalue (ty @ '': '' @ ''up(1)'') = Inr ''1'' \<and>
    get_clean_snmpvalue (ty @ '': '' @ ''-'' @ show_nat n) = Inr ''U'' \<and>
    get_clean_snmpvalue ''Timeticks: (null)'' = Inr ''U''"
  using assms by (rule clean_typed_values)

theorem clean_value_kept_witness:
  "''Counter64'' \<in> set numeric_types \<and>
   get_clean_snmpvalue (''Counter64'' @ '': '' @ show_nat 18446744073709551615) = Inr (show_nat 18446744073709551615) \<and>
   get_clean_snmpvalue (''Timeticks: ('' @ show_nat 4711 @ '')'' @ '' 0:00:47.11'') = Inr (show_nat 4711)"
  using clean_value_kept [of "''Counter64''" 18446744073709551615 "[]"]
    clean_value_kept [of "''Counter64''" 4711 "'' 0:00:47.11''"]
  by (simp add: numeric_types_def)

section \<open>The clock\<close>

text \<open>
  C33. The time of an update: the local time of the last clock reset plus the seconds the device
  counted since, never more than 60 seconds after it; the tick counter never runs behind the
  recorded one, and an update that resets the clock carries the present time. None of the
  unsigned subtractions wraps.
\<close>

theorem final_time_bounds:
  fixes now tt :: "32 word"
  shows "sint (mytime (advance_clock now tt h)) \<le> final_time tt (advance_clock now tt h) \<and>
    final_time tt (advance_clock now tt h) \<le> sint (mytime (advance_clock now tt h)) + 60 \<and>
    uint (timeticks (advance_clock now tt h)) \<le> uint tt \<and>
    final_time tt (advance_clock now tt h) =
      sint (mytime (advance_clock now tt h)) + (uint tt - uint (timeticks (advance_clock now tt h))) div 100 \<and>
    (advance_clock now tt h = h \<or> final_time tt (advance_clock now tt h) = sint now)"
proof (cases "tt \<le> timeticks h \<or> timeticks h = 0 \<or> tt - timeticks h > 6000")
  case True
  then show ?thesis by (simp add: advance_clock_def final_time_def)
next
  case False
  then have lt: "timeticks h < tt" and le: "tt - timeticks h \<le> 6000" by auto
  from lt have sub: "uint (tt - timeticks h) = uint tt - uint (timeticks h)"
    by (simp add: uint_sub_if' word_less_def)
  from le have "uint (tt - timeticks h) \<le> 6000" by (simp add: word_le_def)
  moreover have "uint ((tt - timeticks h) div 100) = (uint tt - uint (timeticks h)) div 100"
    by (simp add: uint_div sub)
  moreover have "0 \<le> uint tt - uint (timeticks h)" using lt by (simp add: word_less_def)
  ultimately show ?thesis using False lt
    by (auto simp: advance_clock_def final_time_def sub word_less_def)
qed

section \<open>A round\<close>

definition update_of :: "oid_collection list \<Rightarrow> string \<Rightarrow> sql_collection \<Rightarrow> string list \<Rightarrow> string \<times> string \<times> string" where
  "update_of ocs rrd_dir c vals =
     (rrd_dir @ rrd_filename c, join_with CHR '':'' (map ds_name ocs), join_with CHR '':'' vals)"

abbreviation p_update :: "push \<Rightarrow> string \<times> string \<times> string" where
  "p_update p \<equiv> (p_filename p, p_template p, p_values p)"

text \<open>A value as the writer receives it.\<close>

definition rrd_value :: "string \<Rightarrow> bool" where
  "rrd_value v \<longleftrightarrow> v = ''NAN'' \<or> v = ''U'' \<or> (v \<noteq> [] \<and> is_digit (hd v))"

lemma clean_rrd_value: "get_clean_snmpvalue s = Inr v \<Longrightarrow> rrd_value v"
  using second_chance_shape by (auto simp: get_clean_snmpvalue_def bind_result_eq_Inr rrd_value_def)

lemma collect_values_rrd: "collect_values vars = Inr (Some vs) \<Longrightarrow> list_all rrd_value vs"
  by (induction vars arbitrary: vs)
    (auto simp: bind_result_eq_Inr rrd_value_def [of "''NAN''"] intro: clean_rrd_value split: if_splits)

lemma handle_values_push:
  assumes "handle_values ocs rrd_dir now c vals st = Inr (ctl, st')" "list_all rrd_value vals"
  shows "rs_pushed st' = rs_pushed st \<or>
    (\<exists>p vs. rs_pushed st' = rs_pushed st @ [p] \<and> p_update p = update_of ocs rrd_dir c vs \<and>
       length vs = length ocs \<and> list_all rrd_value vs)"
  using assms
  by (auto simp: handle_values_def Let_def update_of_def list_all_length
      intro!: exI [of _ "take (length ocs) vals"] split: if_splits)

lemma collect_one_push:
  assumes "collect_one lib now ocs rrd_dir c st = Inr (ctl, st')"
  shows "rs_pushed st' = rs_pushed st \<or>
    (\<not> mapping_failed c \<and> (\<exists>p vs. rs_pushed st' = rs_pushed st @ [p] \<and>
       p_update p = update_of ocs rrd_dir c vs \<and> length vs = length ocs \<and> list_all rrd_value vs))"
proof (cases "\<exists>vals st1. list_all rrd_value vals \<and> \<not> mapping_failed c \<and> rs_pushed st1 = rs_pushed st \<and>
    handle_values ocs rrd_dir now c vals st1 = Inr (ctl, st')")
  case True
  then show ?thesis using handle_values_push by metis
next
  case False
  with assms show ?thesis
    by (auto simp: collect_one_def Let_def bind_result_eq_Inr dest!: collect_values_rrd
        split: if_splits option.splits snmp_reply.splits)
qed

definition push_ok :: "oid_collection list \<Rightarrow> string \<Rightarrow> push \<Rightarrow> sql_collection \<Rightarrow> bool" where
  "push_ok ocs rrd_dir p c \<longleftrightarrow> \<not> mapping_failed c \<and>
     (\<exists>vs. p_update p = update_of ocs rrd_dir c vs \<and> length vs = length ocs \<and> list_all rrd_value vs)"

lemma collect_all_push:
  "collect_all lib now ocs rrd_dir cs st = Inr st' \<Longrightarrow>
   \<exists>ps ds. rs_pushed st' = rs_pushed st @ ps \<and> subseq ds cs \<and> list_all2 (push_ok ocs rrd_dir) ps ds"
proof (induction cs arbitrary: st)
  case Nil
  then show ?case by auto
next
  case (Cons c cs)
  then obtain ctl st1 where one: "collect_one lib now ocs rrd_dir c st = Inr (ctl, st1)"
    and rest: "(case ctl of Goto_done \<Rightarrow> Inr st1 | Next_collection \<Rightarrow> collect_all lib now ocs rrd_dir cs st1) = Inr st'"
    by (auto simp: bind_result_eq_Inr)
  obtain ps1 ds1 where first: "rs_pushed st1 = rs_pushed st @ ps1" "subseq ds1 [c]"
    "list_all2 (push_ok ocs rrd_dir) ps1 ds1"
  proof (cases "rs_pushed st1 = rs_pushed st")
    case True
    then show ?thesis using that [of "[]" "[]"] by simp
  next
    case False
    with collect_one_push [OF one] obtain p where "rs_pushed st1 = rs_pushed st @ [p]" "push_ok ocs rrd_dir p c"
      by (auto simp: push_ok_def)
    then show ?thesis using that [of "[p]" "[c]"] by simp
  qed
  obtain ps2 ds2 where later: "rs_pushed st' = rs_pushed st1 @ ps2" "subseq ds2 cs"
    "list_all2 (push_ok ocs rrd_dir) ps2 ds2"
    using rest Cons.IH [of st1] by (cases ctl) (auto intro: that [of "[]" "[]"])
  from first later have "rs_pushed st' = rs_pushed st @ ps1 @ ps2"
    "list_all2 (push_ok ocs rrd_dir) (ps1 @ ps2) (ds1 @ ds2)"
    by (simp_all add: list_all2_appendI)
  moreover have "subseq (ds1 @ ds2) (c # cs)"
    using list_emb_append_mono [OF first(2) later(2)] by simp
  ultimately show ?case by blast
qed

text \<open>
  C21. The updates a round pushes, whatever the agent answers: at most one per collection, in the
  order of the collections, only for collections whose mapping succeeded; each goes to the file of
  its collection under the class's directory, carries the data-source names of the class as
  template and exactly one value per OID, and every value is a number, \<^verbatim>\<open>U\<close> or \<^verbatim>\<open>NAN\<close>.
\<close>

theorem get_collect_pushes:
  assumes "get_collect snmp hosts now ocs rrd_dir h = Inr (fvalue, h', ps)"
  shows "\<exists>cs. subseq cs (collection h) \<and> list_all2 (push_ok ocs rrd_dir) ps cs"
proof (cases "ps = []")
  case False
  with assms obtain lib st where
    "collect_all lib now ocs rrd_dir (collection h)
       \<lparr>rs_host = h, rs_fvalue = 0, rs_requests = 0, rs_pushed = []\<rparr> = Inr st" "rs_pushed st = ps"
    by (auto simp: get_collect_def Let_def bind_result_eq_Inr split: option.splits if_splits)
  from collect_all_push [OF this(1)] this(2) show ?thesis by auto
qed auto

text \<open>
  A round in which the agent answers every request: \<open>vals c\<close> are the cleaned values of the
  collection's OIDs, \<open>ticks c\<close> that of the tick counter.
\<close>

definition answers_all ::
  "snmp_lib \<Rightarrow> oid_collection list \<Rightarrow> (sql_collection \<Rightarrow> string list) \<Rightarrow> (sql_collection \<Rightarrow> string) \<Rightarrow>
   sql_collection list \<Rightarrow> bool" where
  "answers_all lib ocs vals ticks cs \<longleftrightarrow>
     (\<forall>c \<in> set cs. \<not> mapping_failed c \<longrightarrow> length (vals c) = length ocs \<and> atoi (ticks c) \<noteq> - 1 \<and>
        (\<exists>oids. request_oids lib c ocs = Some oids \<and>
           (\<forall>k. \<exists>vars. synch_response lib k (Get oids) = Stat_success True vars \<and>
              collect_values vars = Inr (Some (vals c @ [ticks c])))))"

lemma collect_all_complete:
  assumes "ocs \<noteq> []"
  shows "answers_all lib ocs vals ticks cs \<Longrightarrow>
    \<exists>st' ps. collect_all lib now ocs rrd_dir cs st = Inr st' \<and> rs_fvalue st' = rs_fvalue st \<and>
      rs_pushed st' = rs_pushed st @ ps \<and>
      map p_update ps = map (\<lambda>c. update_of ocs rrd_dir c (vals c)) (filter (\<lambda>c. \<not> mapping_failed c) cs)"
proof (induction cs arbitrary: st)
  case Nil
  then show ?case by simp
next
  case (Cons c cs)
  then have IH: "\<exists>st' ps. collect_all lib now ocs rrd_dir cs st = Inr st' \<and> rs_fvalue st' = rs_fvalue st \<and>
      rs_pushed st' = rs_pushed st @ ps \<and>
      map p_update ps = map (\<lambda>c. update_of ocs rrd_dir c (vals c)) (filter (\<lambda>c. \<not> mapping_failed c) cs)" for st
    by (auto simp: answers_all_def)
  show ?case
  proof (cases "mapping_failed c")
    case True
    with IH [of st] show ?thesis by (simp add: collect_one_def)
  next
    case False
    with Cons.prems obtain oids vars where "request_oids lib c ocs = Some oids"
      "synch_response lib (rs_requests st) (Get oids) = Stat_success True vars"
      "collect_values vars = Inr (Some (vals c @ [ticks c]))"
      "length (vals c) = length ocs" "atoi (ticks c) \<noteq> - 1"
      unfolding answers_all_def by (meson list.set_intros(1))
    then have "\<exists>st1 p. collect_one lib now ocs rrd_dir c st = Inr (Next_collection, st1) \<and>
        rs_fvalue st1 = rs_fvalue st \<and> rs_pushed st1 = rs_pushed st @ [p] \<and>
        p_update p = update_of ocs rrd_dir c (vals c)"
      using False assms by (simp add: collect_one_def handle_values_def Let_def update_of_def nth_append)
    then obtain st1 p where one: "collect_one lib now ocs rrd_dir c st = Inr (Next_collection, st1)"
      "rs_fvalue st1 = rs_fvalue st" "rs_pushed st1 = rs_pushed st @ [p]"
      "p_update p = update_of ocs rrd_dir c (vals c)" by blast
    from IH [of st1] one False show ?thesis by force
  qed
qed

lemma get_collect_answered:
  assumes "sh_host h = Some i" "i < length hosts" "ocs \<noteq> []"
    and "lib = snmp (ip_address (hosts ! i)) (community (hosts ! i))" "sess_open_ok lib 0"
    and "answers_all lib ocs vals ticks (collection h)"
  shows "\<exists>h' ps. get_collect snmp hosts now ocs rrd_dir h = Inr (0, h', ps) \<and>
    map p_update ps =
      map (\<lambda>c. update_of ocs rrd_dir c (vals c)) (filter (\<lambda>c. \<not> mapping_failed c) (collection h))"
  using collect_all_complete [OF assms(3, 6), of now rrd_dir
      "\<lparr>rs_host = h, rs_fvalue = 0, rs_requests = 0, rs_pushed = []\<rparr>"] assms
  by (auto simp: get_collect_def vector_at_def Let_def)


definition demo_agent :: snmp_lib where
  "demo_agent =
     \<lparr>read_objid = (\<lambda>_. Some [1]), sess_open_ok = (\<lambda>_. True),
      synch_response = (\<lambda>_ _. Stat_success True
        [\<lparr>vb_name = [1, 5], vb_type = Ordinary, vb_print = ''Counter64: 42''\<rparr>,
         \<lparr>vb_name = [1, 6], vb_type = SNMP_NOSUCHINSTANCE, vb_print = []\<rparr>,
         \<lparr>vb_name = [1], vb_type = Ordinary, vb_print = ''Timeticks: (900) 0:00:09''\<rparr>]),
      snprint_objid = (\<lambda>_ _. [])\<rparr>"

definition demo_ocs :: "oid_collection list" where
  "demo_ocs = [\<lparr>oid_prefix = ''1'', ds_datatype = ''COUNTER'', ds_name = ''in''\<rparr>,
     \<lparr>oid_prefix = ''1'', ds_datatype = ''COUNTER'', ds_name = ''out''\<rparr>]"

definition demo_sql_host :: sql_host where
  "demo_sql_host = \<lparr>collection =
     [\<lparr>premaping_oid_suffix = ''eth'', post_mapping_oid_suffix = ''5'', oid_mapping_sequence_db_id = 1, rrd_filename = ''e.rrd''\<rparr>,
      \<lparr>premaping_oid_suffix = ''lo'', post_mapping_oid_suffix = [], oid_mapping_sequence_db_id = 1, rrd_filename = ''l.rrd''\<rparr>],
     sh_host = Some 0, timeticks = 0, mytime = 0\<rparr>"

lemma demo_answers:
  "answers_all demo_agent demo_ocs (\<lambda>_. [''42'', ''NAN'']) (\<lambda>_. ''900'') (collection demo_sql_host)"
proof -
  have "collect_values [\<lparr>vb_name = [1, 5], vb_type = Ordinary, vb_print = ''Counter64: 42''\<rparr>,
      \<lparr>vb_name = [1, 6], vb_type = SNMP_NOSUCHINSTANCE, vb_print = []\<rparr>,
      \<lparr>vb_name = [1], vb_type = Ordinary, vb_print = ''Timeticks: (900) 0:00:09''\<rparr>] =
      Inr (Some [''42'', ''NAN'', ''900''])" by code_simp
  moreover have "atoi ''900'' \<noteq> - 1" by code_simp
  ultimately show ?thesis
    by (simp add: answers_all_def demo_agent_def demo_ocs_def)
qed


theorem get_collect_pushes_witness:
  "\<exists>h' ps. get_collect (\<lambda>_ _. demo_agent) [new_host_info 0] (\<lambda>_. 1000) demo_ocs ''/d/'' demo_sql_host = Inr (0, h', ps) \<and>
     (\<exists>cs. subseq cs (collection demo_sql_host) \<and> list_all2 (push_ok demo_ocs ''/d/'') ps cs)"
proof -
  have "\<not> isl (get_collect (\<lambda>_ _. demo_agent) [new_host_info 0] (\<lambda>_. 1000) demo_ocs ''/d/'' demo_sql_host) \<and>
    fst (projr (get_collect (\<lambda>_ _. demo_agent) [new_host_info 0] (\<lambda>_. 1000) demo_ocs ''/d/'' demo_sql_host)) = 0"
    by code_simp
  then obtain h' ps where
    "get_collect (\<lambda>_ _. demo_agent) [new_host_info 0] (\<lambda>_. 1000) demo_ocs ''/d/'' demo_sql_host = Inr (0, h', ps)"
    by (cases "get_collect (\<lambda>_ _. demo_agent) [new_host_info 0] (\<lambda>_. 1000) demo_ocs ''/d/'' demo_sql_host") auto
  with get_collect_pushes [OF this] show ?thesis by blast
qed

text \<open>The guard against missing time ticks misses them: ticks printed as null are cleaned to
  \<^verbatim>\<open>U\<close>, read as 0, and the update is pushed with the present time; the guard fires instead for
  the regular count 4294967295, and then ends the whole round of the host with nothing pushed for
  the collection and no error returned.
\<close>

theorem null_ticks_unnoticed:
  assumes "length vals = length ocs" "ocs \<noteq> []"
  shows "collect_values [\<lparr>vb_name = [1, 3, 6, 1, 2, 1, 1, 3, 0], vb_type = Ordinary, vb_print = ''Timeticks: (null)''\<rparr>] =
      Inr (Some [''U'']) \<and>
    (\<exists>p st'. handle_values ocs rrd_dir now c (vals @ [''U'']) st = Inr (Next_collection, st') \<and>
       rs_pushed st' = rs_pushed st @ [p] \<and> p_time p = sint (now (rs_requests st))) \<and>
    handle_values ocs rrd_dir now c (vals @ [''4294967295'']) st = Inr (Goto_done, st)"
proof (intro conjI)
  have "strtol_val ''4294967295'' = 4294967295"
    by (simp add: strtol_val_def digits_val_def digit_val_def is_digit_def is_space_def)
  then have "atoi ''4294967295'' = - 1" by (simp add: atoi_def)
  moreover have "atoi ''U'' = 0" by code_simp
  ultimately
  show "\<exists>p st'. handle_values ocs rrd_dir now c (vals @ [''U'']) st = Inr (Next_collection, st') \<and>
       rs_pushed st' = rs_pushed st @ [p] \<and> p_time p = sint (now (rs_requests st))"
    and "handle_values ocs rrd_dir now c (vals @ [''4294967295'']) st = Inr (Goto_done, st)"
    using assms by (simp_all add: handle_values_def nth_append Let_def advance_clock_def final_time_def)
  show "collect_values [\<lparr>vb_name = [1, 3, 6, 1, 2, 1, 1, 3, 0], vb_type = Ordinary, vb_print = ''Timeticks: (null)''\<rparr>] =
      Inr (Some [''U''])" by code_simp
qed

theorem null_ticks_unnoticed_witness:
  "handle_values demo_ocs ''/d/'' (\<lambda>_. 1000) (collection demo_sql_host ! 0) ([''42'', ''NAN''] @ [''4294967295''])
     \<lparr>rs_host = demo_sql_host, rs_fvalue = 0, rs_requests = 1, rs_pushed = []\<rparr> =
   Inr (Goto_done, \<lparr>rs_host = demo_sql_host, rs_fvalue = 0, rs_requests = 1, rs_pushed = []\<rparr>)"
  using null_ticks_unnoticed [of "[''42'', ''NAN'']" demo_ocs] by (simp add: demo_ocs_def)

end
