(* ===== verification/Fnv_Hash.thy ===== *)
theory Fnv_Hash
  imports Snapp_Prelude
begin

unbundle bit_operations_syntax

text \<open>
  The 32-bit Fowler/Noll/Vo hash of \<^verbatim>\<open>src/hash_32.c\<close> and \<^verbatim>\<open>src/fnv.h\<close>, which the RRD
  writer uses to choose the queue of a file. The build does not define
  \<^verbatim>\<open>NO_FNV_GCC_OPTIMIZATION\<close>, so the multiplication by the prime is the sum of shifts.
  Shown: the sum of shifts is that multiplication; the string and the buffer routine agree;
  the documented origin of the initial basis; and that a fixed text permutes the hash values,
  so two different bases never collide on the same text.
\<close>

section \<open>Definitions\<close>

definition FNV_32_PRIME :: "32 word" where
  "FNV_32_PRIME = 0x01000193"

definition FNV0_32_INIT :: "32 word" where
  "FNV0_32_INIT = 0"

definition FNV1_32_INIT :: "32 word" where
  "FNV1_32_INIT = 0x811c9dc5"

text \<open>\<^verbatim>\<open>enum fnv_type\<close>: the numbers its constants denote.\<close>

datatype fnv_type = FNV_NONE | FNV0_32 | FNV1_32 | FNV1a_32 | FNV0_64 | FNV1_64 | FNV1a_64

fun fnv_type_value :: "fnv_type \<Rightarrow> 32 word" where
  "fnv_type_value FNV_NONE = 0"
| "fnv_type_value FNV0_32 = 1"
| "fnv_type_value FNV1_32 = 2"
| "fnv_type_value FNV1a_32 = 3"
| "fnv_type_value FNV0_64 = 4"
| "fnv_type_value FNV1_64 = 5"
| "fnv_type_value FNV1a_64 = 6"

text \<open>One turn of the loop body, shared by both routines.\<close>

definition fnv_mix :: "32 word \<Rightarrow> 32 word" where
  "fnv_mix hval =
     hval + (push_bit 1 hval + push_bit 4 hval + push_bit 7 hval + push_bit 8 hval + push_bit 24 hval)"

definition fnv_octet :: "32 word \<Rightarrow> char \<Rightarrow> 32 word" where
  "fnv_octet hval c = fnv_mix hval XOR of_char c"

text \<open>
  \<^verbatim>\<open>fnv_32_buf(buf,len,hval)\<close> hashes the first \<open>len\<close> octets; reading past the buffer is
  undefined. \<^verbatim>\<open>fnv_32_str(str,hval)\<close> stops at the terminator, modelled by the end of the
  list or a NUL inside it.
\<close>

fun fnv_32_octets :: "char list \<Rightarrow> 32 word \<Rightarrow> 32 word" where
  "fnv_32_octets [] hval = hval"
| "fnv_32_octets (c # cs) hval = fnv_32_octets cs (fnv_octet hval c)"

definition fnv_32_buf :: "char list \<Rightarrow> nat \<Rightarrow> 32 word \<Rightarrow> 32 word result" where
  "fnv_32_buf buf len hval =
     (if len \<le> length buf then Inr (fnv_32_octets (take len buf) hval) else Inl Undefined)"

fun fnv_32_str :: "string \<Rightarrow> 32 word \<Rightarrow> 32 word" where
  "fnv_32_str [] hval = hval"
| "fnv_32_str (c # cs) hval = (if c = nul then hval else fnv_32_str cs (fnv_octet hval c))"

text \<open>The hash as the algorithm is published: multiply by the prime modulo 2^32, then xor.\<close>

definition fnv1_spec :: "char list \<Rightarrow> nat \<Rightarrow> nat" where
  "fnv1_spec cs h = foldl (\<lambda>h c. ((h * 16777619) mod 2 ^ 32) XOR of_char c) h cs"

section \<open>The optimised multiplication\<close>

lemma fnv_mix_prime: "fnv_mix h = h * FNV_32_PRIME"
  by (simp add: fnv_mix_def FNV_32_PRIME_def push_bit_eq_mult algebra_simps)

lemma unat_fnv_octet:
  "unat (fnv_octet h c) = ((unat h * 16777619) mod 2 ^ 32) XOR of_char c"
proof -
  have "unat (fnv_mix h) = (unat h * 16777619) mod 2 ^ 32"
    by (simp add: fnv_mix_prime FNV_32_PRIME_def unat_word_ariths)
  moreover have "unat (of_char c :: 32 word) = of_char c"
  proof -
    have "(of_char c :: nat) < 2 ^ LENGTH(32)"
      by (rule less_trans [OF nat_of_char_less_256]) simp
    then have "unat (of_nat (of_char c) :: 32 word) = of_char c"
      by (simp only: unat_of_nat mod_less)
    then show ?thesis by (simp add: of_nat_of_char)
  qed
  ultimately show ?thesis by (simp add: fnv_octet_def unsigned_xor_eq)
qed

lemma unat_fnv_32_octets: "unat (fnv_32_octets cs h) = fnv1_spec cs (unat h)"
  by (induction cs h rule: fnv_32_octets.induct) (simp_all add: fnv1_spec_def unat_fnv_octet)

lemma fnv_32_str_octets: "fnv_32_str s h = fnv_32_octets (c_str s) h"
  by (induction s h rule: fnv_32_str.induct) (auto simp: c_str_def)

section \<open>Permutation of the hash values\<close>

lemma FNV_32_PRIME_inverse: "FNV_32_PRIME * 899433627 = 1"
  by (simp add: FNV_32_PRIME_def)

lemma inj_fnv_octet: "fnv_octet g c = fnv_octet h c \<Longrightarrow> g = h"
proof -
  assume "fnv_octet g c = fnv_octet h c"
  then have "(fnv_mix g XOR of_char c) XOR of_char c = (fnv_mix h XOR of_char c) XOR of_char c"
    by (simp add: fnv_octet_def)
  then have "g * FNV_32_PRIME = h * FNV_32_PRIME"
    by (simp add: xor.assoc fnv_mix_prime)
  then have "g * (FNV_32_PRIME * 899433627) = h * (FNV_32_PRIME * 899433627)"
    by (metis mult.assoc)
  then show "g = h" by (simp only: FNV_32_PRIME_inverse mult_1_right)
qed

lemma inj_fnv_32_octets: "fnv_32_octets cs g = fnv_32_octets cs h \<Longrightarrow> g = h"
  by (induction cs g arbitrary: h rule: fnv_32_octets.induct) (auto dest: inj_fnv_octet)

lemma fnv_32_octets_append: "fnv_32_octets (xs @ ys) h = fnv_32_octets ys (fnv_32_octets xs h)"
  by (induction xs h rule: fnv_32_octets.induct) auto

text \<open>
  C35. The shift-and-add hash of a C string, read as a number, is the published FNV-1
  function (multiply by 16777619 modulo 2^32, xor the octet) of its characters.
\<close>

theorem fnv_32_str_is_fnv1: "unat (fnv_32_str s h) = fnv1_spec (c_str s) (unat h)"
  by (simp add: fnv_32_str_octets unat_fnv_32_octets)

text \<open>
  The initial basis of \<^verbatim>\<open>fnv.h\<close> is, as its comment says, the FNV-0 hash of the 32
  octets \<^verbatim>\<open>chongo <Landon Curt Noll> /\../\\<close>.
\<close>

theorem fnv1_basis_origin:
  "fnv_32_str (''chongo <Landon Curt Noll> /'' @ [CHR 0x5c] @ ''../'' @ [CHR 0x5c]) FNV0_32_INIT
     = FNV1_32_INIT"
  by code_simp

text \<open>
  For a fixed text the hash permutes the 32-bit values: starting it from another basis
  (the enumeration constant where the basis was meant, say) never merges two values.
\<close>

theorem fnv_32_str_bij: "bij (fnv_32_str s)"
proof -
  have "inj (fnv_32_octets (c_str s))"
    by (auto intro: injI inj_fnv_32_octets)
  then have "inj (fnv_32_str s)"
    by (simp add: inj_def fnv_32_str_octets)
  then show ?thesis
    by (simp add: bij_def finite_UNIV_inj_surj)
qed

end
