(* ===== verification/Long_Double.thy ===== *)
theory Long_Double
  imports Snapp_Prelude
begin

text \<open>
  The \<^verbatim>\<open>long double\<close> values of the RRD writer. The collector reads them with
  \<^verbatim>\<open>strtold\<close> and writes them back with \<^verbatim>\<open>(unsigned long long)\<close>. The format modelled is
  the x87 extended one of the platforms the program is packaged for: a sign, a 64-bit
  significand and a binary exponent, so that a finite value is \<open>\<plusminus> m * 2 ^ e\<close>. Everything
  is integer arithmetic, so conversions evaluate in the kernel. The central fact is that the
  decimal text of any 64-bit counter survives the conversion unchanged.
\<close>

datatype ldouble = LNaN | LInf bool | LFin bool nat int

section \<open>Rounding a fraction to 64 significant bits\<close>

text \<open>The number of binary digits of \<open>n\<close>.\<close>

fun bitlen_nat :: "nat \<Rightarrow> nat" where
  "bitlen_nat n = (if n = 0 then 0 else Suc (bitlen_nat (n div 2)))"

declare bitlen_nat.simps [simp del]

text \<open>Round \<open>n / d\<close> to the nearest integer, ties to even.\<close>

definition round_half_even :: "nat \<Rightarrow> nat \<Rightarrow> nat" where
  "round_half_even n d =
     (let f = n div d; r = n mod d
      in if 2 * r > d \<or> (2 * r = d \<and> odd f) then Suc f else f)"

text \<open>The fraction \<open>p / q\<close> divided by \<open>2 ^ e\<close>, as numerator and denominator.\<close>

definition scale_frac :: "nat \<Rightarrow> nat \<Rightarrow> int \<Rightarrow> nat \<times> nat" where
  "scale_frac p q e = (if 0 \<le> e then (p, q * 2 ^ nat e) else (p * 2 ^ nat (- e), q))"

definition round_exponent :: "nat \<Rightarrow> nat \<Rightarrow> int" where
  "round_exponent p q =
     (let e = int (bitlen_nat p) - int (bitlen_nat q) - 64; (n, d) = scale_frac p q e
      in max (- 16445) (if n < d * 2 ^ 64 then e else e + 1))"

definition ld_of_frac :: "bool \<Rightarrow> nat \<Rightarrow> nat \<Rightarrow> ldouble" where
  "ld_of_frac neg p q =
     (if p = 0 then LFin neg 0 0
      else let e = round_exponent p q; (n, d) = scale_frac p q e; m = round_half_even n d
           in if 16320 < e \<or> (e = 16320 \<and> m = 2 ^ 64) then LInf neg else LFin neg m e)"

section \<open>strtold\<close>

definition is_xdigit :: "char \<Rightarrow> bool" where
  "is_xdigit c \<longleftrightarrow> is_digit c \<or> to_lower c \<in> set ''abcdef''"

definition xdigit_val :: "char \<Rightarrow> nat" where
  "xdigit_val c = (if is_digit c then digit_val c else of_char (to_lower c) - 87)"

text \<open>Integer digits, fraction digits and the rest of a mantissa.\<close>

definition split_mantissa :: "(char \<Rightarrow> bool) \<Rightarrow> string \<Rightarrow> string \<times> string \<times> string" where
  "split_mantissa dig s =
     (let ip = takeWhile dig s; r = dropWhile dig s
      in if r \<noteq> [] \<and> hd r = CHR ''.'' then (ip, takeWhile dig (tl r), dropWhile dig (tl r))
         else (ip, [], r))"

text \<open>An exponent part introduced by \<open>mark\<close>; 0 when there is none.\<close>

definition exponent_part :: "char \<Rightarrow> string \<Rightarrow> int" where
  "exponent_part mark s =
     (if s \<noteq> [] \<and> to_lower (hd s) = mark then
        let t = tl s; neg = (t \<noteq> [] \<and> hd t = CHR ''-'');
            u = (if t \<noteq> [] \<and> hd t \<in> set ''+-'' then tl t else t);
            n = int (digits_val (takeWhile is_digit u))
        in if neg then - n else n
      else 0)"

definition radix_frac :: "bool \<Rightarrow> nat \<Rightarrow> nat \<Rightarrow> int \<Rightarrow> ldouble" where
  "radix_frac neg b m e =
     (if 0 \<le> e then ld_of_frac neg (m * b ^ nat e) 1 else ld_of_frac neg m (b ^ nat (- e)))"

definition strtold :: "string \<Rightarrow> ldouble" where
  "strtold s =
     (let t = dropWhile is_space s;
          neg = (t \<noteq> [] \<and> hd t = CHR ''-'');
          u = (if t \<noteq> [] \<and> hd t \<in> set ''+-'' then tl t else t)
      in if strcase_prefix ''nan'' u then LNaN
         else if strcase_prefix ''inf'' u then LInf neg
         else if strcase_prefix ''0x'' u \<and>
              (case split_mantissa is_xdigit (drop 2 u) of (ip, fp, r) \<Rightarrow> ip @ fp \<noteq> []) then
           (case split_mantissa is_xdigit (drop 2 u) of (ip, fp, r) \<Rightarrow>
              radix_frac neg 2 (foldl (\<lambda>a c. 16 * a + xdigit_val c) 0 (ip @ fp))
                (exponent_part CHR ''p'' r - 4 * int (length fp)))
         else
           (case split_mantissa is_digit u of (ip, fp, r) \<Rightarrow>
              if ip @ fp = [] then LFin False 0 0
              else radix_frac neg 10 (digits_val (ip @ fp))
                     (exponent_part CHR ''e'' r - int (length fp))))"

section \<open>Conversion to unsigned long long\<close>

definition ld_trunc :: "nat \<Rightarrow> int \<Rightarrow> nat" where
  "ld_trunc m e = (if 0 \<le> e then m * 2 ^ nat e else m div 2 ^ nat (- e))"

definition ld_to_ull :: "ldouble \<Rightarrow> nat result" where
  "ld_to_ull x =
     (case x of
        LFin neg m e \<Rightarrow>
          (if ld_trunc m e = 0 then Inr 0
           else if \<not> neg \<and> ld_trunc m e < 2 ^ 64 then Inr (ld_trunc m e)
           else Inl Undefined)
      | _ \<Rightarrow> Inl Undefined)"

definition ld_isnan :: "ldouble \<Rightarrow> bool" where
  "ld_isnan x \<longleftrightarrow> x = LNaN"

section \<open>Exactness on 64-bit counters\<close>

lemma bitlen_nat_bounds: "0 < n \<Longrightarrow> 2 ^ (bitlen_nat n - 1) \<le> n \<and> n < 2 ^ bitlen_nat n \<and> 0 < bitlen_nat n"
proof (induction n rule: bitlen_nat.induct)
  case (1 n)
  show ?case
  proof (cases "n div 2 = 0")
    case True
    with "1.prems" have "n = 1" by simp
    then show ?thesis by (simp add: bitlen_nat.simps)
  next
    case False
    with "1.IH" "1.prems" have IH: "2 ^ (bitlen_nat (n div 2) - 1) \<le> n div 2"
      "n div 2 < 2 ^ bitlen_nat (n div 2)" "0 < bitlen_nat (n div 2)" by auto
    have eq: "bitlen_nat n = Suc (bitlen_nat (n div 2))"
      using "1.prems" by (subst bitlen_nat.simps) simp
    have "2 * 2 ^ (bitlen_nat (n div 2) - 1) = (2::nat) ^ bitlen_nat (n div 2)"
      using IH(3) by (simp flip: power_Suc)
    then have "(2::nat) ^ bitlen_nat (n div 2) \<le> n \<and> n < 2 * 2 ^ bitlen_nat (n div 2)"
      using IH(1,2) by arith
    with eq show ?thesis by simp
  qed
qed

lemma round_half_even_exact: "0 < d \<Longrightarrow> round_half_even (m * d) d = m"
  by (simp add: round_half_even_def)

lemma bitlen_nat_1 [simp]: "bitlen_nat 1 = 1" "bitlen_nat (Suc 0) = 1"
  by (simp_all add: bitlen_nat.simps)

lemma bitlen_nat_le_64:
  assumes "0 < n" "n < 2 ^ 64"
  shows "bitlen_nat n \<le> 64"
proof (rule ccontr)
  assume "\<not> bitlen_nat n \<le> 64"
  then have "(2::nat) ^ 64 \<le> 2 ^ (bitlen_nat n - 1)" by (intro power_increasing) auto
  with bitlen_nat_bounds [OF assms(1)] assms(2) show False by linarith
qed

lemma round_exponent_nat:
  assumes "0 < n" "n < 2 ^ 64"
  shows "round_exponent n 1 = int (bitlen_nat n) - 64"
proof -
  let ?b = "bitlen_nat n"
  have b: "?b \<le> 64" "0 < ?b" using bitlen_nat_le_64 bitlen_nat_bounds assms by auto
  have "(2::nat) ^ 64 = 2 ^ (?b - 1) * 2 ^ (65 - ?b)"
    using b by (simp flip: power_add)
  also have "\<dots> \<le> n * 2 ^ (65 - ?b)"
    using bitlen_nat_bounds [OF assms(1)] by (intro mult_right_mono) auto
  finally have "\<not> n * 2 ^ (65 - ?b) < 2 ^ 64" by simp
  moreover have "nat (- (int ?b - 1 - 64)) = 65 - ?b" by simp
  ultimately show ?thesis using b by (simp add: round_exponent_def scale_frac_def Let_def)
qed

lemma ld_of_frac_nat:
  assumes "n < 2 ^ 64"
  shows "ld_to_ull (ld_of_frac False n 1) = Inr n \<and> \<not> ld_isnan (ld_of_frac False n 1)"
proof (cases "n = 0")
  case True
  then show ?thesis by (simp add: ld_of_frac_def ld_to_ull_def ld_trunc_def ld_isnan_def)
next
  case False
  let ?b = "bitlen_nat n"
  have b: "?b \<le> 64" using False bitlen_nat_le_64 assms by auto
  have e: "round_exponent n 1 = int ?b - 64" by (rule round_exponent_nat) (use False assms in auto)
  have sc: "scale_frac n 1 (int ?b - 64) = (n * 2 ^ (64 - ?b), 1)"
    using b by (cases "?b = 64") (auto simp: scale_frac_def nat_diff_distrib)
  have "ld_of_frac False n 1 = LFin False (n * 2 ^ (64 - ?b)) (int ?b - 64)"
    using False b round_half_even_exact [of 1]
    by (simp add: ld_of_frac_def e [unfolded One_nat_def] sc [unfolded One_nat_def])
  moreover have "ld_trunc (n * 2 ^ (64 - ?b)) (int ?b - 64) = n"
    using b by (cases "?b = 64") (auto simp: ld_trunc_def nat_diff_distrib)
  ultimately show ?thesis using assms False by (simp add: ld_to_ull_def ld_isnan_def)
qed

lemma strtold_digits:
  assumes "ds \<noteq> []" "\<forall>c \<in> set ds. is_digit c"
  shows "strtold ds = ld_of_frac False (digits_val ds) 1"
proof -
  obtain c cs where ds: "ds = c # cs" using assms(1) by (cases ds) auto
  have c: "is_digit c" and cs: "\<forall>c \<in> set cs. is_digit c" using assms ds by auto
  have lower: "to_lower x = x" if "is_digit x" for x
    using that by (auto simp: to_lower_def is_digit_def Let_def)
  have fst: "\<not> is_space c" "c \<noteq> CHR ''-''" "c \<noteq> CHR ''+''" "c \<noteq> CHR ''n''" "c \<noteq> CHR ''i''"
    using c not_space_digit by (auto simp: is_digit_def)
  have snd: "x \<noteq> CHR ''x''" if "x \<in> set cs" for x
    using that cs by (auto simp: is_digit_def)
  have nopre: "\<not> strcase_prefix ''nan'' ds" "\<not> strcase_prefix ''inf'' ds" "\<not> strcase_prefix ''0x'' ds"
    using fst c snd cs lower by (cases cs; auto simp: strcase_prefix_def ds to_lower_def)+
  have split: "split_mantissa is_digit ds = (ds, [], [])"
    using assms(2) by (simp add: split_mantissa_def takeWhile_eq_all_conv dropWhile_eq_Nil_conv)
  show ?thesis
    using nopre split fst assms(1)
    by (simp add: strtold_def Let_def ds exponent_part_def radix_frac_def)
qed

lemma strtold_show_nat:
  "n < 2 ^ 64 \<Longrightarrow> ld_to_ull (strtold (show_nat n)) = Inr n \<and> \<not> ld_isnan (strtold (show_nat n))"
  using ld_of_frac_nat [of n] strtold_digits [of "show_nat n"] show_nat_digits by simp

lemma strtold_NAN: "strtold ''NAN'' = LNaN"
  by code_simp

lemma strtold_U: "strtold ''U'' = LFin False 0 0"
  by code_simp

end
