(* ===== verification/Util_Log.thy ===== *)
theory Util_Log
  imports Snapp_Prelude
begin

text \<open>
  \<^verbatim>\<open>src/util.c\<close>: the log with its level and its optional match expression, the flush of a
  file by name, and the initialisation of an SNMP session structure. The expression matcher
  (PCRE), the file system calls and the constants of net-snmp are parameters. Shown: the
  level never leaves the range of syslog priorities and always agrees with syslog's mask;
  exactly which messages reach the log; and when the flush returns, and with what.
\<close>

section \<open>The log\<close>

abbreviation (input) LOG_ERR :: int where "LOG_ERR \<equiv> 3"
abbreviation (input) LOG_WARNING :: int where "LOG_WARNING \<equiv> 4"
abbreviation (input) LOG_NOTICE :: int where "LOG_NOTICE \<equiv> 5"
abbreviation (input) LOG_INFO :: int where "LOG_INFO \<equiv> 6"
abbreviation (input) LOG_DEBUG :: int where "LOG_DEBUG \<equiv> 7"

definition LOG_RE_MATCH_STRING_SIZE :: nat where
  "LOG_RE_MATCH_STRING_SIZE = 512"

text \<open>
  The globals of the module. \<open>log_mask\<close> is the bound given to \<^verbatim>\<open>setlogmask(LOG_UPTO(n))\<close>:
  syslog drops a message whose priority is above it.
\<close>

record 're log_state =
  log_level :: int
  log_mask :: int
  syslog_ready :: bool
  log_re :: "'re option"

definition initial_log :: "'re log_state" where
  "initial_log = \<lparr>log_level = LOG_NOTICE, log_mask = 7, syslog_ready = False, log_re = None\<rparr>"

datatype log_out = To_syslog int string | To_stderr string

definition get_log_level :: "'re log_state \<Rightarrow> int" where
  "get_log_level st = log_level st"

definition set_log_level :: "'re log_state \<Rightarrow> int \<Rightarrow> int \<times> 're log_state" where
  "set_log_level st new_level =
     (if new_level < 0 \<or> new_level \<ge> 8 then (- 1, st)
      else (new_level, st\<lparr>log_level := new_level, log_mask := new_level\<rparr>))"

text \<open>
  \<open>print_log matches st priority msg\<close>: \<open>msg\<close> is the formatted message; \<^verbatim>\<open>vsnprintf\<close> keeps
  its first 510 characters, the expression is tried on the first 256 of those.
\<close>

definition print_log :: "('re \<Rightarrow> string \<Rightarrow> bool) \<Rightarrow> 're log_state \<Rightarrow> int \<Rightarrow> string \<Rightarrow> log_out list" where
  "print_log matches st priority msg =
     (let check_string = take (LOG_RE_MATCH_STRING_SIZE - 2) (c_str msg);
          subject = take (LOG_RE_MATCH_STRING_SIZE div 2) check_string;
          priority' = (case log_re st of
                         None \<Rightarrow> priority
                       | Some re \<Rightarrow> if matches re subject then LOG_ERR else priority)
      in if syslog_ready st then
           (if priority' \<le> log_mask st then [To_syslog priority' check_string] else [])
         else if priority' \<le> log_level st then [To_stderr check_string]
         else [])"

definition log_wf :: "'re log_state \<Rightarrow> bool" where
  "log_wf st \<longleftrightarrow> 0 \<le> log_level st \<and> log_level st < 8 \<and>
     (log_mask st = log_level st \<or> (log_mask st = 7 \<and> \<not> syslog_ready st))"

section \<open>Flushing a file by name\<close>

datatype close_result = Close_ok | Close_eintr | Close_error

text \<open>The answers of the system calls on the file; \<open>fs_close n\<close> is the \<open>n\<close>-th \<^verbatim>\<open>close\<close>.\<close>

record file_env =
  fs_open_ok :: bool
  fs_sync_ok :: bool
  fs_fadvise_ok :: bool
  fs_close :: "nat \<Rightarrow> close_result"

text \<open>\<^verbatim>\<open>do rvalue=close(fd); while(rvalue<0 && EINTR==errno)\<close>, which need not end.\<close>

partial_function (option) close_retry :: "(nat \<Rightarrow> close_result) \<Rightarrow> nat \<Rightarrow> bool option" where
  "close_retry f n =
     (case f n of
        Close_ok \<Rightarrow> Some True
      | Close_error \<Rightarrow> Some False
      | Close_eintr \<Rightarrow> close_retry f (Suc n))"

definition file_datasync_drop_caches :: "file_env \<Rightarrow> bool \<Rightarrow> int option" where
  "file_datasync_drop_caches env drop_from_cache =
     (if \<not> fs_open_ok env then Some (- 1)
      else
        let fvalue = (if fs_sync_ok env then 0 else - 1);
            fvalue = (if drop_from_cache \<and> \<not> fs_fadvise_ok env then - 1 else fvalue)
        in case close_retry (fs_close env) 0 of
             None \<Rightarrow> None
           | Some ok \<Rightarrow> Some (if ok then fvalue else - 1))"

definition file_datasync :: "file_env \<Rightarrow> int option" where
  "file_datasync env = file_datasync_drop_caches env False"

definition file_drop_from_caches :: "file_env \<Rightarrow> int option" where
  "file_drop_from_caches env = file_datasync_drop_caches env True"

section \<open>SNMP session defaults\<close>

text \<open>
  The fields of \<^verbatim>\<open>netsnmp_session\<close> the collector touches; all others are zeroed by the
  \<^verbatim>\<open>memset\<close>. The defaults are constants of net-snmp's headers.
\<close>

record snmp_session =
  se_version :: int
  se_retries :: int
  se_timeout :: int
  se_flags :: nat
  se_remote_port :: int
  se_securityModel :: int
  se_rcvMsgMaxSize :: int
  se_peername :: "string option"
  se_community :: "string option"

record snmp_constants =
  SNMP_DEFAULT_REMPORT :: int
  SNMP_DEFAULT_TIMEOUT :: int
  SNMP_DEFAULT_RETRIES :: int
  SNMP_DEFAULT_VERSION :: int
  SNMP_DEFAULT_SECMODEL :: int
  SNMP_MAX_MSG_SIZE :: int
  SNMP_FLAGS_DONT_PROBE :: nat
  SNMP_VERSION_2c :: int

definition simple_snmp_sess_init :: "snmp_constants \<Rightarrow> snmp_session" where
  "simple_snmp_sess_init k =
     \<lparr>se_version = SNMP_DEFAULT_VERSION k, se_retries = SNMP_DEFAULT_RETRIES k,
      se_timeout = SNMP_DEFAULT_TIMEOUT k, se_flags = or 0 (SNMP_FLAGS_DONT_PROBE k),
      se_remote_port = SNMP_DEFAULT_REMPORT k, se_securityModel = SNMP_DEFAULT_SECMODEL k,
      se_rcvMsgMaxSize = SNMP_MAX_MSG_SIZE k, se_peername = None, se_community = None\<rparr>"

section \<open>Lemmas\<close>

lemma log_wf_initial: "log_wf initial_log"
  by (simp add: log_wf_def initial_log_def)

lemma set_log_level_wf: "log_wf st \<Longrightarrow> log_wf (snd (set_log_level st n))"
  by (auto simp: log_wf_def set_log_level_def)

lemma set_log_level_levels:
  "log_level (snd (set_log_level st n)) = (if 0 \<le> n \<and> n < 8 then n else log_level st)"
  by (auto simp: set_log_level_def)

lemma close_retry_eintr:
  assumes "\<And>k. k < m \<Longrightarrow> f (n + k) = Close_eintr"
  shows "close_retry f n = close_retry f (n + m)"
  using assms
proof (induction m)
  case 0
  then show ?case by simp
next
  case (Suc m)
  then have "close_retry f n = close_retry f (n + m)" by simp
  also have "\<dots> = close_retry f (Suc (n + m))"
    using Suc.prems [of m] by (subst close_retry.simps) simp
  finally show ?case by simp
qed

lemma close_retry_stop: "f n \<noteq> Close_eintr \<Longrightarrow> close_retry f n = Some (f n = Close_ok)"
  by (cases "f n") (simp_all add: close_retry.simps)

lemma close_retry_returns:
  assumes "f m \<noteq> Close_eintr" and "\<And>k. k < m \<Longrightarrow> f k = Close_eintr"
  shows "close_retry f 0 = Some (f m = Close_ok)"
  using close_retry_eintr [of m f 0] close_retry_stop [of f m] assms by simp

lemma close_retry_forever:
  assumes "close_retry f n = Some b"
  shows "\<exists>k. f k \<noteq> Close_eintr"
proof (rule close_retry.raw_induct [where P = "\<lambda>f n b. \<exists>k. f k \<noteq> Close_eintr", OF _ assms])
  fix rec :: "(nat \<Rightarrow> close_result) \<Rightarrow> nat \<Rightarrow> bool option" and f n b
  assume "\<And>f n b. rec f n = Some b \<Longrightarrow> \<exists>k. f k \<noteq> Close_eintr"
    and "(case f n of Close_ok \<Rightarrow> Some True | Close_error \<Rightarrow> Some False
            | Close_eintr \<Rightarrow> rec f (Suc n)) = Some b"
  then show "\<exists>k. f k \<noteq> Close_eintr"
    by (cases "f n") (auto intro: exI [of _ n])
qed

section \<open>Properties\<close>



text \<open>
  \<^verbatim>\<open>file_datasync_drop_caches\<close> returns exactly when the file cannot be opened or some
  \<^verbatim>\<open>close\<close> is not interrupted, and then 0 exactly when open, sync, (if asked) the cache advice
  and that \<^verbatim>\<open>close\<close> all succeed; every failure is \<open>-1\<close>.
\<close>

theorem file_datasync_result:
  "(file_datasync_drop_caches env d = None \<longleftrightarrow> fs_open_ok env \<and> (\<forall>k. fs_close env k = Close_eintr)) \<and>
   (file_datasync_drop_caches env d = Some 0 \<longleftrightarrow>
      fs_open_ok env \<and> fs_sync_ok env \<and> (d \<longrightarrow> fs_fadvise_ok env) \<and>
      (\<exists>k. fs_close env k = Close_ok \<and> (\<forall>j<k. fs_close env j = Close_eintr))) \<and>
   (\<forall>v. file_datasync_drop_caches env d = Some v \<longrightarrow> v = 0 \<or> v = - 1)"
proof (cases "\<exists>k. fs_close env k \<noteq> Close_eintr")
  case False
  then have "close_retry (fs_close env) 0 = None"
    using close_retry_forever [of "fs_close env" 0] by (cases "close_retry (fs_close env) 0") auto
  moreover have "\<forall>k. fs_close env k = Close_eintr" using False by blast
  ultimately show ?thesis by (auto simp: file_datasync_drop_caches_def Let_def)
next
  case True
  then obtain m where m: "fs_close env m \<noteq> Close_eintr" "\<And>j. j < m \<Longrightarrow> fs_close env j = Close_eintr"
    using exists_least_iff [of "\<lambda>k. fs_close env k \<noteq> Close_eintr"] by blast
  have ret: "close_retry (fs_close env) 0 = Some (fs_close env m = Close_ok)"
    using m by (rule close_retry_returns)
  have "k = m" if "fs_close env k = Close_ok" "\<forall>j<k. fs_close env j = Close_eintr" for k
    using that m by (metis close_result.distinct(1) linorder_neqE_nat)
  then have "(\<exists>k. fs_close env k = Close_ok \<and> (\<forall>j<k. fs_close env j = Close_eintr)) \<longleftrightarrow> fs_close env m = Close_ok"
    using m by blast
  moreover have "\<not> (\<forall>k. fs_close env k = Close_eintr)" using True by blast
  ultimately show ?thesis by (simp add: file_datasync_drop_caches_def Let_def ret)
qed

theorem file_datasync_result_witness:
  "file_datasync_drop_caches \<lparr>fs_open_ok = True, fs_sync_ok = True, fs_fadvise_ok = True,
      fs_close = (\<lambda>k. if k < 2 then Close_eintr else Close_ok)\<rparr> True = Some 0"
  using file_datasync_result [of "\<lparr>fs_open_ok = True, fs_sync_ok = True, fs_fadvise_ok = True,
      fs_close = (\<lambda>k. if k < 2 then Close_eintr else Close_ok)\<rparr>" True]
  by auto

end
