(* ===== verification/Rrd_Writer.thy ===== *)
theory Rrd_Writer
  imports Fnv_Hash Long_Double Index_Table Util_Log
begin

text \<open>
  \<^verbatim>\<open>src/rrd_writer.{h,hpp,cpp}\<close>: the operations of the RRD writer as functions on its state.
  \<^verbatim>\<open>RRD_Writer\<close> is the record \<open>rrd_writer\<close>, a worker's thread is \<open>rrd_worker\<close> (its id
  and the stack variables that outlive one turn of its loop); every call of the RRD library is
  an argument (\<open>write_env\<close>) and is recorded as an effect. Uninitialised storage that the
  code reads (the first token pointer, the tail of a stack buffer) is an explicit argument.
  How the operations interleave is the subject of \<open>Rrd_Pipeline\<close>.
\<close>

section \<open>Data\<close>

definition MAX_DS_PER_FILE :: nat where "MAX_DS_PER_FILE = 20"

definition CONST_STRING_SIZE :: nat where "CONST_STRING_SIZE = 1024"

record writer_config =
  wc_version :: "32 word"
  wc_num_writers :: "32 word"
  wc_flush_seconds :: "32 word"

record writer_status =
  num_writers :: "32 word"
  avg_queue_len_5min :: "64 word"
  avg_queue_len_1min :: "64 word"
  failed_updates_count :: "64 word"
  failed_files_count_1min :: "64 word"
  failed_files_count_5min :: "64 word"
  num_files_counted :: "32 word"

text \<open>
  \<open>rd_time\<close> is the \<^verbatim>\<open>double time\<close>, which the collector fills with a sum of two 32-bit
  integers, hence a whole number; \<open>rd_ds\<close> are the elements of \<^verbatim>\<open>ds[]\<close> that were written.
\<close>

record rrd_datum =
  rd_time :: int
  filename_id :: "32 word"
  template_id :: "32 word"
  num_ds :: "32 word"
  rd_ds :: "ldouble list"

record rrd_file_info =
  fi_filename :: string
  last_flushed :: int
  last_update :: int

record rrd_queue =
  datum_queue :: "rrd_datum list"
  q_semaphore :: nat

record rrd_worker =
  wk_id :: nat
  wk_filename :: "char list"
  wk_template_str :: "char list"
  to_be_flushed :: string

record rrd_writer =
  num_threads :: int
  flush_seconds :: int
  filename_id_map :: "string \<rightharpoonup> 32 word"
  template_id_map :: "string \<rightharpoonup> 32 word"
  rrd_template :: "string list"
  worker :: "rrd_worker list"
  file_info :: "rrd_file_info list"
  data_queue :: "rrd_queue list"
  local_status :: writer_status

text \<open>
  \<^verbatim>\<open>Compare_RRD_datum\<close>, an order for a priority queue that the code does not use (its queues are
  plain ones). With the test of the other direction of the ids commented out it is no order.
\<close>

definition Compare_RRD_datum :: "rrd_datum \<Rightarrow> rrd_datum \<Rightarrow> bool" where
  "Compare_RRD_datum left right =
     (if filename_id left < filename_id right then True else rd_time left > rd_time right)"

lemma Compare_RRD_datum_both_ways:
  "filename_id d < filename_id e \<Longrightarrow> rd_time d < rd_time e \<Longrightarrow> Compare_RRD_datum d e \<and> Compare_RRD_datum e d"
  by (simp add: Compare_RRD_datum_def)

section \<open>Converting the value string\<close>

text \<open>The body of the \<^verbatim>\<open>for\<close> loop, with \<open>k\<close> turns left before \<^verbatim>\<open>i<MAX_DS_PER_FILE\<close> fails.\<close>

fun ds_loop :: "nat \<Rightarrow> string \<Rightarrow> ldouble list \<Rightarrow> ldouble list" where
  "ds_loop 0 s vals = vals"
| "ds_loop (Suc k) s vals =
     (case strtok_r s {CHR '':''} of
        None \<Rightarrow> vals
      | Some (token, rest) \<Rightarrow> ds_loop k rest (vals @ [strtold token]))"

text \<open>
  The loop starts with \<^verbatim>\<open>str1 = token\<close>, a pointer never assigned before: \<open>token0\<close> is what
  it happens to hold. A null pointer makes \<^verbatim>\<open>strtok_r\<close> continue at \<^verbatim>\<open>saveptr1\<close>, which is the
  argument; any other pointer makes it cut up the text found there.
\<close>

definition string_to_long_doubles :: "string option \<Rightarrow> string \<Rightarrow> int \<times> ldouble list" where
  "string_to_long_doubles token0 in_string =
     (let vals = ds_loop MAX_DS_PER_FILE (case token0 of None \<Rightarrow> in_string | Some p \<Rightarrow> p) [];
          i = length vals
      in if i \<ge> MAX_DS_PER_FILE then (- 1, vals) else (int i, vals))"

section \<open>push\_data\<close>

text \<open>\<^verbatim>\<open>m[k]\<close> on a \<^verbatim>\<open>map<string,uint32_t>\<close>, for a key that is present.\<close>

definition map_at :: "(string \<rightharpoonup> 32 word) \<Rightarrow> string \<Rightarrow> 32 word" where
  "map_at m k = (case m k of None \<Rightarrow> 0 | Some v \<Rightarrow> v)"

definition intern_filename :: "rrd_writer \<Rightarrow> string \<Rightarrow> rrd_writer" where
  "intern_filename w filename =
     (case filename_id_map w filename of
        None \<Rightarrow> w\<lparr>filename_id_map := (filename_id_map w)(filename \<mapsto> of_nat (length (file_info w))),
                 file_info := file_info w @
                   [\<lparr>fi_filename = filename, last_flushed = 0, last_update = 0\<rparr>]\<rparr>
      | Some _ \<Rightarrow> w)"

definition intern_template :: "rrd_writer \<Rightarrow> string \<Rightarrow> rrd_writer" where
  "intern_template w tmpl =
     (case template_id_map w tmpl of
        None \<Rightarrow> w\<lparr>template_id_map := (template_id_map w)(tmpl \<mapsto> of_nat (length (rrd_template w))),
                 rrd_template := rrd_template w @ [tmpl]\<rparr>
      | Some _ \<Rightarrow> w)"

text \<open>
  \<^verbatim>\<open>fnv_32_str(filename, FNV1_32) % data_queue.size()\<close>: the second argument is the
  enumeration constant, used as the initial value of the hash.
\<close>

definition queue_of :: "nat \<Rightarrow> string \<Rightarrow> nat" where
  "queue_of n filename = unat (fnv_32_str filename (fnv_type_value FNV1_32)) mod n"

text \<open>Push and post, under the queue's lock.\<close>

definition enqueue_datum :: "rrd_writer \<Rightarrow> nat \<Rightarrow> rrd_datum \<Rightarrow> rrd_writer" where
  "enqueue_datum w i d =
     w\<lparr>data_queue := (data_queue w)[i := (data_queue w ! i)
        \<lparr>datum_queue := datum_queue (data_queue w ! i) @ [d],
         q_semaphore := Suc (q_semaphore (data_queue w ! i))\<rparr>]\<rparr>"

definition push_data ::
  "string option \<Rightarrow> char list \<Rightarrow> rrd_writer \<Rightarrow> int \<Rightarrow> string \<Rightarrow> string \<Rightarrow> string \<Rightarrow> (int \<times> rrd_writer) result" where
  "push_data token0 junk w in_time filename in_rrd_template values =
     (let local_values = strncpy junk values (CONST_STRING_SIZE - 1) in
      if data_queue w = [] then Inl Arithmetic_trap
      else
        let queue_index = queue_of (length (data_queue w)) filename;
            w1 = intern_filename w filename;
            w2 = intern_template w1 in_rrd_template
        in bind_result (read_buf local_values) (\<lambda>in_string.
             let (n, vals) = string_to_long_doubles token0 in_string;
                 d = \<lparr>rd_time = in_time, filename_id = map_at (filename_id_map w1) filename,
                      template_id = map_at (template_id_map w2) in_rrd_template,
                      num_ds = word_of_int n, rd_ds = vals\<rparr>
             in bind_result (assert_that (num_ds d > 0)) (\<lambda>_.
                  Inr (0, enqueue_datum w2 queue_index d))))"

section \<open>initialize\<close>

definition zero_status :: writer_status where
  "zero_status = \<lparr>num_writers = 0, avg_queue_len_5min = 0, avg_queue_len_1min = 0,
     failed_updates_count = 0, failed_files_count_1min = 0, failed_files_count_5min = 0,
     num_files_counted = 0\<rparr>"

definition default_config :: writer_config where
  "default_config = \<lparr>wc_version = 0, wc_num_writers = 12, wc_flush_seconds = 7200\<rparr>"

definition clamp_flush_seconds :: "32 word \<Rightarrow> int" where
  "clamp_flush_seconds v = (if sint v \<le> 0 \<or> sint v > 1000000 then 1000000 else sint v)"

definition clamp_num_threads :: "32 word \<Rightarrow> int" where
  "clamp_num_threads v = (if sint v \<le> 0 \<or> sint v > 400 then 400 else sint v)"

definition vector_resize :: "nat \<Rightarrow> 'a \<Rightarrow> 'a list \<Rightarrow> 'a list" where
  "vector_resize n x xs = take n xs @ replicate (n - length xs) x"

text \<open>\<open>stack i\<close> is what the buffers of worker \<open>i\<close> happen to hold when its thread starts.\<close>

definition initialize :: "(nat \<Rightarrow> char list) \<Rightarrow> writer_config option \<Rightarrow> rrd_writer \<Rightarrow> int \<times> rrd_writer" where
  "initialize stack cfg w =
     (let c = (case cfg of None \<Rightarrow> default_config | Some c \<Rightarrow> c);
          n = nat (clamp_num_threads (wc_num_writers c));
          queues = vector_resize n \<lparr>datum_queue = [], q_semaphore = 0\<rparr> (data_queue w)
      in (0, w\<lparr>flush_seconds := clamp_flush_seconds (wc_flush_seconds c),
              num_threads := clamp_num_threads (wc_num_writers c),
              worker := map (\<lambda>i. \<lparr>wk_id = i, wk_filename = stack i, wk_template_str = stack i,
                                 to_be_flushed = []\<rparr>) [0..<n],
              data_queue := map (\<lambda>q. q\<lparr>q_semaphore := 0\<rparr>) queues,
              local_status := zero_status\<rparr>))"

definition fresh_writer :: rrd_writer where
  "fresh_writer = \<lparr>num_threads = 0, flush_seconds = 0, filename_id_map = Map.empty,
     template_id_map = Map.empty, rrd_template = [], worker = [], file_info = [],
     data_queue = [], local_status = zero_status\<rparr>"

section \<open>The worker's loop\<close>

text \<open>What \<^verbatim>\<open>sem_timedwait\<close> returned and what \<^verbatim>\<open>errno\<close> holds afterwards.\<close>

datatype errno = ETIMEDOUT | EINTR | Errno_other

datatype wait_decision = Flush_and_continue | Retry_wait | Take_datum | Abort_thread

text \<open>
  The branch after the wait. \<^verbatim>\<open>errno\<close> is consulted even when the wait succeeded, when it
  holds the value some earlier call left in it.
\<close>

definition wait_branch :: "int \<Rightarrow> errno \<Rightarrow> wait_decision" where
  "wait_branch rvalue err =
     (if rvalue \<noteq> 0 \<and> err = ETIMEDOUT then Flush_and_continue
      else if err = EINTR then Retry_wait
      else if rvalue = 0 then Take_datum
      else Abort_thread)"

datatype rrd_effect = Rrd_update string string string | Datasync string

text \<open>The answers of the RRD library and the clock during one turn.\<close>

record write_env =
  we_rrd_last :: "string \<Rightarrow> int"
  we_now :: int
  we_rand :: nat
  we_rrd_update :: "string \<Rightarrow> string \<Rightarrow> string \<Rightarrow> int"

definition worker_timeout :: "rrd_worker \<Rightarrow> rrd_worker \<times> rrd_effect list" where
  "worker_timeout k =
     (k\<lparr>to_be_flushed := []\<rparr>,
      if to_be_flushed k \<noteq> [] then [Datasync (to_be_flushed k)] else [])"

text \<open>\<^verbatim>\<open>front()\<close> and \<^verbatim>\<open>pop()\<close> under the queue's lock.\<close>

definition worker_take :: "rrd_writer \<Rightarrow> nat \<Rightarrow> (rrd_datum \<times> rrd_writer) result" where
  "worker_take w i =
     (if i < length (data_queue w) then
        (case datum_queue (data_queue w ! i) of
           [] \<Rightarrow> Inl Undefined
         | d # rest \<Rightarrow>
             Inr (d, w\<lparr>data_queue := (data_queue w)[i := (data_queue w ! i)\<lparr>datum_queue := rest\<rparr>]\<rparr>))
      else Inl Undefined)"

definition format_value :: "ldouble \<Rightarrow> string result" where
  "format_value x =
     (if ld_isnan x then Inr '':U''
      else bind_result (ld_to_ull x) (\<lambda>n. Inr (CHR '':'' # show_nat n)))"

text \<open>
  The loop over the data sources: \<open>n\<close> turns over the elements of \<^verbatim>\<open>ds[]\<close>. Reading an
  element that was never written, or past the array, is undefined.
\<close>

fun format_ds :: "nat \<Rightarrow> ldouble list \<Rightarrow> string \<Rightarrow> string result" where
  "format_ds 0 ds value_str = Inr value_str"
| "format_ds (Suc n) [] value_str = Inl Undefined"
| "format_ds (Suc n) (x # ds) value_str =
     bind_result (format_value x) (\<lambda>temp_str.
       bind_result (strncat CONST_STRING_SIZE value_str temp_str (CONST_STRING_SIZE - length value_str))
         (format_ds n ds))"

definition format_time :: "int \<Rightarrow> string result" where
  "format_time t = (if 0 \<le> t \<and> t < 2 ^ 64 then Inr (show_nat (nat t)) else Inl Undefined)"

definition format_datum :: "rrd_datum \<Rightarrow> string result" where
  "format_datum d =
     bind_result (format_time (rd_time d)) (format_ds (unat (num_ds d)) (rd_ds d))"

text \<open>
  \<^verbatim>\<open>last_file_update+7200<time(NULL) && 0!=last_file_update\<close>, or one draw in 7200:
  \<^verbatim>\<open>rand_r(&seed)/(RAND_MAX+1.0) < 1/7200\<close> over the integers, \<^verbatim>\<open>RAND_MAX\<close> being 2^31-1.
\<close>

definition needs_flush :: "write_env \<Rightarrow> string \<Rightarrow> bool" where
  "needs_flush env filename \<longleftrightarrow>
     (we_rrd_last env filename + 7200 < we_now env \<and> we_rrd_last env filename \<noteq> 0) \<or>
     we_rand env * 7200 < 2 ^ 31"

text \<open>From the lookup of the file and the template to the end of the turn.\<close>

definition worker_write ::
  "write_env \<Rightarrow> rrd_writer \<Rightarrow> rrd_worker \<Rightarrow> rrd_datum \<Rightarrow> (rrd_worker \<times> rrd_effect list) result" where
  "worker_write env w k d =
     bind_result (vector_at (file_info w) (unat (filename_id d))) (\<lambda>fi.
     bind_result (vector_at (rrd_template w) (unat (template_id d))) (\<lambda>tmpl.
     bind_result (read_buf (wk_filename k)) (\<lambda>stale_filename.
     let require_flush = needs_flush env stale_filename;
         k' = k\<lparr>wk_template_str := strncpy (wk_template_str k) tmpl (CONST_STRING_SIZE - 1),
               wk_filename := strncpy (wk_filename k) (fi_filename fi) (CONST_STRING_SIZE - 1)\<rparr>
     in bind_result (format_datum d) (\<lambda>value_str.
        bind_result (read_buf (wk_filename k')) (\<lambda>filename.
        bind_result (read_buf (wk_template_str k')) (\<lambda>template_str.
          Inr (if we_rrd_update env filename template_str value_str = 0 \<and> require_flush
               then k'\<lparr>to_be_flushed := filename\<rparr> else k',
               [Rrd_update filename template_str value_str])))))))"

section \<open>Statistics\<close>

definition FSHIFT :: nat where "FSHIFT = 11"
definition FIXED_1 :: "64 word" where "FIXED_1 = 2048"
definition EXP_1 :: "64 word" where "EXP_1 = 1884"
definition EXP_5 :: "64 word" where "EXP_5 = 2014"

definition CALC_LOAD :: "64 word \<Rightarrow> 64 word \<Rightarrow> 64 word \<Rightarrow> 64 word" where
  "CALC_LOAD load ex n = drop_bit FSHIFT (load * ex + n * (FIXED_1 - ex))"

definition total_queued :: "rrd_writer \<Rightarrow> 64 word" where
  "total_queued w =
     sum_list (map (\<lambda>i. of_nat (length (datum_queue (data_queue w ! i)))) [0..<length (worker w)])"

definition calculate_new_stats :: "rrd_writer \<Rightarrow> rrd_writer" where
  "calculate_new_stats w =
     (let avg_queue_len = total_queued w; st = local_status w
      in w\<lparr>local_status := st
            \<lparr>avg_queue_len_1min := CALC_LOAD (avg_queue_len_1min st) EXP_1 avg_queue_len,
             avg_queue_len_5min := CALC_LOAD (avg_queue_len_5min st) EXP_5 avg_queue_len\<rparr>\<rparr>)"

definition get_writer_status :: "rrd_writer \<Rightarrow> int \<times> writer_status" where
  "get_writer_status w = (0, local_status w)"

section \<open>The two tables of names\<close>

definition filename_table_ok :: "rrd_writer \<Rightarrow> bool" where
  "filename_table_ok w \<longleftrightarrow> length (file_info w) \<le> 2 ^ 32 \<and>
     (\<forall>f i. map_option unat (filename_id_map w f) = Some i \<longleftrightarrow>
        i < length (file_info w) \<and> fi_filename (file_info w ! i) = f)"

definition template_table_ok :: "rrd_writer \<Rightarrow> bool" where
  "template_table_ok w \<longleftrightarrow> length (rrd_template w) \<le> 2 ^ 32 \<and>
     (\<forall>f i. map_option unat (template_id_map w f) = Some i \<longleftrightarrow>
        i < length (rrd_template w) \<and> rrd_template w ! i = f)"

interpretation ft: index_table "\<lambda>w. map fi_filename (file_info w)"
  "\<lambda>w f. map_option unat (filename_id_map w f)" "\<lambda>f. f" intern_filename filename_table_ok "2 ^ 32"
proof unfold_locales
  fix w f i
  assume "filename_table_ok w"
  then show "(map_option unat (filename_id_map w f) = Some i) =
      (i < length (map fi_filename (file_info w)) \<and> map fi_filename (file_info w) ! i = f)"
    by (auto simp: filename_table_ok_def)
next
  fix w :: rrd_writer and f i
  assume "map_option unat (filename_id_map w f) = Some i"
  then show "intern_filename w f = w" by (auto simp: intern_filename_def)
next
  fix w :: rrd_writer and f
  assume "map_option unat (filename_id_map w f) = None"
  then show "map fi_filename (file_info (intern_filename w f)) = map fi_filename (file_info w) @ [f]"
    by (simp add: intern_filename_def)
next
  fix w f
  assume ok: "filename_table_ok w" and len: "length (map fi_filename (file_info w)) < 2 ^ 32"
  show "filename_table_ok (intern_filename w f)"
  proof (cases "filename_id_map w f")
    case None
    with ok have fresh: "\<not> (i < length (file_info w) \<and> fi_filename (file_info w ! i) = f)" for i
      unfolding filename_table_ok_def by (metis None option.map_disc_iff option.distinct(1))
    with None ok len show ?thesis
      by (auto simp: filename_table_ok_def intern_filename_def unat_of_nat_size32 nth_append less_Suc_eq)
  next
    case (Some i)
    with ok show ?thesis by (simp add: intern_filename_def)
  qed
qed

interpretation tt: index_table rrd_template
  "\<lambda>w f. map_option unat (template_id_map w f)" "\<lambda>f. f" intern_template template_table_ok "2 ^ 32"
proof unfold_locales
  fix w f i
  assume "template_table_ok w"
  then show "(map_option unat (template_id_map w f) = Some i) =
      (i < length (rrd_template w) \<and> rrd_template w ! i = f)"
    by (auto simp: template_table_ok_def)
next
  fix w :: rrd_writer and f i
  assume "map_option unat (template_id_map w f) = Some i"
  then show "intern_template w f = w" by (auto simp: intern_template_def)
next
  fix w :: rrd_writer and f
  assume "map_option unat (template_id_map w f) = None"
  then show "rrd_template (intern_template w f) = rrd_template w @ [f]"
    by (simp add: intern_template_def)
next
  fix w f
  assume ok: "template_table_ok w" and len: "length (rrd_template w) < 2 ^ 32"
  show "template_table_ok (intern_template w f)"
  proof (cases "template_id_map w f")
    case None
    with ok have fresh: "\<not> (i < length (rrd_template w) \<and> rrd_template w ! i = f)" for i
      unfolding template_table_ok_def by (metis None option.map_disc_iff option.distinct(1))
    with None ok len show ?thesis
      by (auto simp: template_table_ok_def intern_template_def unat_of_nat_size32 nth_append less_Suc_eq)
  next
    case (Some i)
    with ok show ?thesis by (simp add: intern_template_def)
  qed
qed

text \<open>What interning leaves alone.\<close>

lemma intern_filename_frame [simp]:
  "template_id_map (intern_filename w f) = template_id_map w"
  "rrd_template (intern_filename w f) = rrd_template w"
  "data_queue (intern_filename w f) = data_queue w"
  "worker (intern_filename w f) = worker w"
  by (auto simp: intern_filename_def split: option.split)

lemma intern_template_frame [simp]:
  "filename_id_map (intern_template w f) = filename_id_map w"
  "file_info (intern_template w f) = file_info w"
  "data_queue (intern_template w f) = data_queue w"
  "worker (intern_template w f) = worker w"
  by (auto simp: intern_template_def split: option.split)

lemma enqueue_datum_frame [simp]:
  "filename_id_map (enqueue_datum w i d) = filename_id_map w"
  "template_id_map (enqueue_datum w i d) = template_id_map w"
  "rrd_template (enqueue_datum w i d) = rrd_template w"
  "file_info (enqueue_datum w i d) = file_info w"
  "worker (enqueue_datum w i d) = worker w"
  "length (data_queue (enqueue_datum w i d)) = length (data_queue w)"
  by (simp_all add: enqueue_datum_def)

lemma interned_filename:
  assumes "filename_table_ok w" "length (file_info w) < 2 ^ 32"
  shows "filename_table_ok (intern_filename w f)"
    and "unat (map_at (filename_id_map (intern_filename w f)) f) < length (file_info (intern_filename w f))"
    and "fi_filename (file_info (intern_filename w f) ! unat (map_at (filename_id_map (intern_filename w f)) f)) = f"
proof -
  show ok: "filename_table_ok (intern_filename w f)"
    using assms by (intro ft.invar_insert) auto
  obtain i where i: "map_option unat (filename_id_map (intern_filename w f) f) = Some i"
    using ft.position_inserted [OF assms(1), of f] assms(2) by auto
  then have "unat (map_at (filename_id_map (intern_filename w f)) f) = i"
    by (auto simp: map_at_def)
  moreover from ok i have "i < length (file_info (intern_filename w f))"
    "fi_filename (file_info (intern_filename w f) ! i) = f"
    by (auto simp: filename_table_ok_def)
  ultimately show "unat (map_at (filename_id_map (intern_filename w f)) f) < length (file_info (intern_filename w f))"
    "fi_filename (file_info (intern_filename w f) ! unat (map_at (filename_id_map (intern_filename w f)) f)) = f"
    by auto
qed

lemma interned_template:
  assumes "template_table_ok w" "length (rrd_template w) < 2 ^ 32"
  shows "template_table_ok (intern_template w f)"
    and "unat (map_at (template_id_map (intern_template w f)) f) < length (rrd_template (intern_template w f))"
    and "rrd_template (intern_template w f) ! unat (map_at (template_id_map (intern_template w f)) f) = f"
proof -
  show ok: "template_table_ok (intern_template w f)"
    using assms by (intro tt.invar_insert)
  obtain i where i: "map_option unat (template_id_map (intern_template w f) f) = Some i"
    using tt.position_inserted [OF assms, of f] by auto
  then have "unat (map_at (template_id_map (intern_template w f)) f) = i"
    by (auto simp: map_at_def)
  moreover from ok i have "i < length (rrd_template (intern_template w f))"
    "rrd_template (intern_template w f) ! i = f"
    by (auto simp: template_table_ok_def)
  ultimately show "unat (map_at (template_id_map (intern_template w f)) f) < length (rrd_template (intern_template w f))"
    "rrd_template (intern_template w f) ! unat (map_at (template_id_map (intern_template w f)) f) = f"
    by auto
qed

lemma file_info_prefix: "prefix (file_info w) (file_info (intern_filename w f))"
  by (auto simp: intern_filename_def split: option.split)

lemma template_prefix: "prefix (rrd_template w) (rrd_template (intern_template w f))"
  by (auto simp: intern_template_def split: option.split)

section \<open>Values through the writer\<close>

text \<open>
  What the collector sends for one data source: a 64-bit counter, \<^verbatim>\<open>NAN\<close> for a missing instance,
  or \<^verbatim>\<open>U\<close> for a value it could not read as a number.
\<close>

datatype sample = Counter nat | Unknown | Unreadable

fun sample_text :: "sample \<Rightarrow> string" where
  "sample_text (Counter n) = show_nat n"
| "sample_text Unknown = ''NAN''"
| "sample_text Unreadable = ''U''"

text \<open>What RRD is told: the counter, or \<^verbatim>\<open>U\<close> for \<^verbatim>\<open>NAN\<close>; but \<^verbatim>\<open>strtold\<close> reads \<^verbatim>\<open>U\<close> as zero.\<close>

fun sample_rrd :: "sample \<Rightarrow> string" where
  "sample_rrd (Counter n) = show_nat n"
| "sample_rrd Unknown = ''U''"
| "sample_rrd Unreadable = ''0''"

fun sample_ok :: "sample \<Rightarrow> bool" where
  "sample_ok (Counter n) \<longleftrightarrow> n < 2 ^ 64"
| "sample_ok _ \<longleftrightarrow> True"

lemma ds_loop_join:
  assumes "\<forall>t \<in> set toks. t \<noteq> [] \<and> CHR '':'' \<notin> set t"
  shows "ds_loop k (join_with CHR '':'' toks) vals = vals @ map strtold (take k toks)"
  using assms
proof (induction k "join_with CHR '':'' toks" vals arbitrary: toks rule: ds_loop.induct)
  case (1 vals)
  then show ?case by simp
next
  case (2 k vals)
  show ?case
  proof (cases toks)
    case Nil
    then show ?thesis by simp
  next
    case (Cons t ts)
    with "2.prems" have t: "t \<noteq> []" "set t \<inter> {CHR '':''} = {}" by auto
    have tok: "strtok_r (join_with CHR '':'' toks) {CHR '':''} = Some (t, join_with CHR '':'' ts)"
    proof (cases ts)
      case Nil
      with t Cons show ?thesis using strtok_r_last by simp
    next
      case (Cons u us)
      with t \<open>toks = t # ts\<close> show ?thesis using strtok_r_sep by simp
    qed
    show ?thesis
      using "2.hyps" [OF tok refl] "2.prems" Cons by (simp add: tok [unfolded Cons])
  qed
qed

lemma sample_text_token: "sample_text s \<noteq> [] \<and> CHR '':'' \<notin> set (sample_text s)"
proof (cases s)
  case (Counter n)
  have "\<not> is_digit CHR '':''" by (simp add: is_digit_def)
  with Counter show ?thesis using show_nat_digits [of n] by auto
qed simp_all

lemma format_sample: "sample_ok s \<Longrightarrow> format_value (strtold (sample_text s)) = Inr (CHR '':'' # sample_rrd s)"
proof (cases s)
  case Unreadable
  have "format_value (strtold ''U'') = Inr '':0''" by code_simp
  with Unreadable show ?thesis by simp
qed (use strtold_show_nat in \<open>auto simp: format_value_def strtold_NAN ld_isnan_def\<close>)

lemma length_sample_rrd: "sample_ok s \<Longrightarrow> length (sample_rrd s) \<le> 20"
  by (cases s) (auto intro!: length_show_nat)

text \<open>While the text so far leaves room, the bounded \<^verbatim>\<open>strncat\<close> is plain concatenation.\<close>

lemma format_ds_concat:
  assumes "list_all2 (\<lambda>x t. format_value x = Inr t \<and> length t \<le> 21) ds ts"
    and "length value_str + 21 * length ds < CONST_STRING_SIZE"
  shows "format_ds (length ds) ds value_str = Inr (value_str @ concat ts)"
  using assms
proof (induction arbitrary: value_str rule: list_all2_induct)
  case Nil
  then show ?case by simp
next
  case (Cons x ds t ts)
  then have "strncat CONST_STRING_SIZE value_str t (CONST_STRING_SIZE - length value_str) = Inr (value_str @ t)"
    by (auto simp: strncat_def)
  with Cons.IH [of "value_str @ t"] Cons.hyps Cons.prems show ?case by simp
qed

lemma format_samples:
  assumes "\<forall>s \<in> set ss. sample_ok s" and "length ss \<le> 19" and "0 \<le> t" "t < 2 ^ 64"
    and "rd_ds d = map (strtold \<circ> sample_text) ss" "num_ds d = of_nat (length ss)" "rd_time d = t"
  shows "format_datum d = Inr (join_with CHR '':'' (show_nat (nat t) # map sample_rrd ss))"
proof -
  have "list_all2 (\<lambda>x u. format_value x = Inr u \<and> length u \<le> 21)
      (map (strtold \<circ> sample_text) ss) (map (\<lambda>s. CHR '':'' # sample_rrd s) ss)"
    using assms(1) format_sample length_sample_rrd
    by (auto simp: list_all2_map1 list_all2_map2 intro!: list.rel_refl_strong)
  moreover have "length (show_nat (nat t)) \<le> 20"
    using assms(4) by (intro length_show_nat) auto
  ultimately have "format_ds (length ss) (map (strtold \<circ> sample_text) ss) (show_nat (nat t)) =
      Inr (show_nat (nat t) @ concat (map (\<lambda>s. CHR '':'' # sample_rrd s) ss))"
    using format_ds_concat [of "map (strtold \<circ> sample_text) ss" _ "show_nat (nat t)"] assms(2)
    by (simp add: CONST_STRING_SIZE_def)
  moreover have "unat (num_ds d) = length ss"
    using assms(2,6) by (simp add: unat_of_nat_size32)
  ultimately show ?thesis
    using assms by (simp add: format_datum_def format_time_def join_with_Cons o_def)
qed

lemma length_join_with:
  "\<forall>t \<in> set toks. length t \<le> b \<Longrightarrow> length (join_with c toks) \<le> length toks * Suc b"
  by (induction c toks rule: join_with.induct) auto

lemma no_nul_join_with: "c \<noteq> nul \<Longrightarrow> \<forall>t \<in> set toks. no_nul t \<Longrightarrow> no_nul (join_with c toks)"
  by (induction c toks rule: join_with.induct) auto

lemma no_nul_sample_text: "no_nul (sample_text s)"
proof (cases s)
  case (Counter n)
  have "\<not> is_digit nul" by (simp add: is_digit_def)
  with Counter show ?thesis using show_nat_digits [of n] by (auto simp: no_nul_def)
qed simp_all

lemma length_sample_text: "sample_ok s \<Longrightarrow> length (sample_text s) \<le> 20"
  by (cases s) (auto intro!: length_show_nat)

text \<open>A datum as \<^verbatim>\<open>push_data\<close> builds it from the tokens of its value string.\<close>

definition datum_of :: "rrd_writer \<Rightarrow> int \<Rightarrow> string \<Rightarrow> string \<Rightarrow> string list \<Rightarrow> rrd_datum" where
  "datum_of w t f tmpl toks =
     \<lparr>rd_time = t, filename_id = map_at (filename_id_map (intern_filename w f)) f,
      template_id = map_at (template_id_map (intern_template (intern_filename w f) tmpl)) tmpl,
      num_ds = (if length toks < MAX_DS_PER_FILE then of_nat (length toks) else - 1),
      rd_ds = map strtold (take MAX_DS_PER_FILE toks)\<rparr>"

lemma push_data_tokens:
  assumes "data_queue w \<noteq> []" and "toks \<noteq> []"
    and "\<forall>t \<in> set toks. t \<noteq> [] \<and> CHR '':'' \<notin> set t \<and> no_nul t"
    and "length (join_with CHR '':'' toks) < CONST_STRING_SIZE - 1"
  shows "push_data None junk w t f tmpl (join_with CHR '':'' toks) =
    Inr (0, enqueue_datum (intern_template (intern_filename w f) tmpl)
             (queue_of (length (data_queue w)) f) (datum_of w t f tmpl toks))"
proof -
  have read: "read_buf (strncpy junk (join_with CHR '':'' toks) (CONST_STRING_SIZE - 1)) =
      Inr (join_with CHR '':'' toks)"
    using assms by (intro strncpy_fits no_nul_join_with) auto
  have conv: "string_to_long_doubles None (join_with CHR '':'' toks) =
      (if length toks < MAX_DS_PER_FILE then int (length toks) else - 1,
       map strtold (take MAX_DS_PER_FILE toks))"
    using assms(3) by (auto simp: string_to_long_doubles_def ds_loop_join Let_def)
  have "num_ds (datum_of w t f tmpl toks) > 0"
  proof (cases "length toks < MAX_DS_PER_FILE")
    case True
    have "unat (of_nat (length toks) :: 32 word) = length toks"
      using True by (intro unat_of_nat_size32) (simp add: MAX_DS_PER_FILE_def)
    with True assms(2) show ?thesis
      by (simp add: datum_of_def word_greater_zero_iff unat_eq_zero [symmetric] del: unat_eq_zero)
  qed (simp add: datum_of_def word_greater_zero_iff)
  moreover have "datum_of w t f tmpl toks =
     \<lparr>rd_time = t, filename_id = map_at (filename_id_map (intern_filename w f)) f,
      template_id = map_at (template_id_map (intern_template (intern_filename w f) tmpl)) tmpl,
      num_ds = word_of_int (if length toks < MAX_DS_PER_FILE then int (length toks) else - 1),
      rd_ds = map strtold (take MAX_DS_PER_FILE toks)\<rparr>"
    by (simp add: datum_of_def)
  ultimately show ?thesis
    using assms(1) read conv by (simp add: push_data_def Let_def)
qed

lemma format_ds_short: "length ds < n \<Longrightarrow> format_ds n ds v = Inl Undefined"
proof (induction n ds v rule: format_ds.induct)
  case (3 n x ds v)
  then show ?case
    by (auto simp: bind_result_def format_value_def ld_to_ull_def strncat_def split: sum.split ldouble.split)
qed auto

lemma format_datum_short: "length (rd_ds d) < unat (num_ds d) \<Longrightarrow> format_datum d = Inl Undefined"
  by (simp add: format_datum_def format_time_def format_ds_short)

lemma queue_of_less: "0 < n \<Longrightarrow> queue_of n f < n"
  by (simp add: queue_of_def)

lemma datum_queue_enqueue:
  "i < length (data_queue w) \<Longrightarrow>
   datum_queue (data_queue (enqueue_datum w i d) ! j) =
     datum_queue (data_queue w ! j) @ (if j = i then [d] else [])"
  by (simp add: enqueue_datum_def nth_list_update)

text \<open>The turn of a worker on a datum whose ids are in the tables.\<close>

lemma worker_write_ok:
  assumes "unat (filename_id d) < length (file_info w)" "fi_filename (file_info w ! unat (filename_id d)) = f"
    and "unat (template_id d) < length (rrd_template w)" "rrd_template w ! unat (template_id d) = tmpl"
    and "nul \<in> set (wk_filename k)" "format_datum d = Inr v"
    and "no_nul f" "length f < CONST_STRING_SIZE - 1" "no_nul tmpl" "length tmpl < CONST_STRING_SIZE - 1"
  shows "\<exists>k'. worker_write env w k d = Inr (k', [Rrd_update f tmpl v]) \<and> nul \<in> set (wk_filename k')"
proof -
  have f: "read_buf (strncpy (wk_filename k) f (CONST_STRING_SIZE - 1)) = Inr f"
    and t: "read_buf (strncpy (wk_template_str k) tmpl (CONST_STRING_SIZE - 1)) = Inr tmpl"
    using assms by (auto intro: strncpy_fits)
  have "nul \<in> set (strncpy (wk_filename k) f (CONST_STRING_SIZE - 1))"
    using f by (auto simp: read_buf_def split: if_splits)
  with f t assms show ?thesis
    by (auto simp: worker_write_def vector_at_def Let_def read_buf_def [of "wk_filename k"])
qed

section \<open>Statistics, as numbers\<close>

lemma CALC_LOAD_nat:
  assumes "unat load < 2 ^ 52" "unat n < 2 ^ 52" "ex \<le> 2048"
  shows "unat (CALC_LOAD load ex n) = (unat load * unat ex + unat n * (2048 - unat ex)) div 2048"
proof -
  have ex: "unat ex \<le> 2048" using assms(3) by (simp add: word_le_nat_alt)
  have sub: "unat (FIXED_1 - ex) = 2048 - unat ex"
    using assms(3) by (simp add: FIXED_1_def unat_sub)
  have b1: "unat load * unat ex \<le> (2 ^ 52 - 1) * 2048" "unat n * (2048 - unat ex) \<le> (2 ^ 52 - 1) * 2048"
    by (rule mult_le_mono; use assms(1,2) ex in simp)+
  have m1: "unat (load * ex) = unat load * unat ex"
    using b1 by (subst unat_mult_lem [symmetric]) simp
  have m2: "unat (n * (FIXED_1 - ex)) = unat n * (2048 - unat ex)"
    using b1 by (simp add: unat_mult_lem [THEN iffD1] sub)
  have "unat (load * ex + n * (FIXED_1 - ex)) = unat load * unat ex + unat n * (2048 - unat ex)"
    using b1 by (simp add: unat_add_lem [THEN iffD1] m1 m2)
  then show ?thesis
    by (simp add: CALC_LOAD_def FSHIFT_def drop_bit_eq_div unat_div_distrib)
qed

lemma weighted_average_bounds:
  fixes a b p :: nat
  assumes "p \<le> 2048"
  shows "min a b \<le> (a * p + b * (2048 - p)) div 2048 \<and> (a * p + b * (2048 - p)) div 2048 \<le> max a b"
proof
  have "min a b * 2048 = min a b * p + min a b * (2048 - p)"
    using assms by (simp flip: add_mult_distrib2)
  also have "\<dots> \<le> a * p + b * (2048 - p)" by (intro add_mono mult_right_mono) auto
  finally show "min a b \<le> (a * p + b * (2048 - p)) div 2048"
    by (simp add: less_eq_div_iff_mult_less_eq)
  have "a * p + b * (2048 - p) \<le> max a b * p + max a b * (2048 - p)"
    by (intro add_mono mult_right_mono) auto
  also have "\<dots> = max a b * 2048" using assms by (simp flip: add_mult_distrib2)
  finally have "(a * p + b * (2048 - p)) div 2048 \<le> max a b * 2048 div 2048" by (rule div_le_mono)
  then show "(a * p + b * (2048 - p)) div 2048 \<le> max a b" by simp
qed

lemma total_queued_stats [simp]: "total_queued (calculate_new_stats w) = total_queued w"
  by (simp add: calculate_new_stats_def total_queued_def Let_def)

lemma stats_averages [simp]:
  "avg_queue_len_1min (local_status (calculate_new_stats w)) =
     CALC_LOAD (avg_queue_len_1min (local_status w)) EXP_1 (total_queued w)"
  "avg_queue_len_5min (local_status (calculate_new_stats w)) =
     CALC_LOAD (avg_queue_len_5min (local_status w)) EXP_5 (total_queued w)"
  by (simp_all add: calculate_new_stats_def Let_def)

lemma total_queued_stats_pow: "total_queued ((calculate_new_stats ^^ k) w) = total_queued w"
  by (induction k) simp_all

text \<open>The whole way of a value string through \<^verbatim>\<open>push_data\<close> and one turn of a worker.\<close>

lemma samples_written:
  assumes "filename_table_ok w" "template_table_ok w" "data_queue w \<noteq> []"
    and "length (file_info w) < 2 ^ 32" "length (rrd_template w) < 2 ^ 32"
    and "ss \<noteq> []" "length ss \<le> 19" "\<forall>s \<in> set ss. sample_ok s" "0 \<le> t" "t < 2 ^ 64"
    and "no_nul f" "length f < 1023" "no_nul tmpl" "length tmpl < 1023" "nul \<in> set (wk_filename k)"
  shows "\<exists>w' d k'.
    push_data None junk w t f tmpl (join_with CHR '':'' (map sample_text ss)) = Inr (0, w') \<and>
    datum_queue (data_queue w' ! queue_of (length (data_queue w)) f) =
      datum_queue (data_queue w ! queue_of (length (data_queue w)) f) @ [d] \<and>
    worker_write env w' k d =
      Inr (k', [Rrd_update f tmpl (join_with CHR '':'' (show_nat (nat t) # map sample_rrd ss))])"
proof -
  let ?toks = "map sample_text ss"
  let ?d = "datum_of w t f tmpl ?toks"
  let ?w1 = "intern_filename w f" and ?q = "queue_of (length (data_queue w)) f"
  let ?w' = "enqueue_datum (intern_template ?w1 tmpl) ?q ?d"
  have "length (join_with CHR '':'' ?toks) \<le> length ss * Suc 20"
    using length_join_with [of ?toks 20] length_sample_text assms(8) by simp
  then have push: "push_data None junk w t f tmpl (join_with CHR '':'' ?toks) = Inr (0, ?w')"
    using assms sample_text_token no_nul_sample_text
    by (intro push_data_tokens) (auto simp: CONST_STRING_SIZE_def)
  have q: "datum_queue (data_queue ?w' ! ?q) = datum_queue (data_queue w ! ?q) @ [?d]"
    using assms(3) by (subst datum_queue_enqueue) (auto simp: queue_of_less)
  have fmt: "format_datum ?d = Inr (join_with CHR '':'' (show_nat (nat t) # map sample_rrd ss))"
    using assms by (intro format_samples) (auto simp: datum_of_def MAX_DS_PER_FILE_def o_def)
  have tt: "template_table_ok ?w1" using assms(2) by (simp add: template_table_ok_def)
  have "\<exists>k'. worker_write env ?w' k ?d =
      Inr (k', [Rrd_update f tmpl (join_with CHR '':'' (show_nat (nat t) # map sample_rrd ss))]) \<and>
      nul \<in> set (wk_filename k')"
    using assms interned_filename [OF assms(1,4), of f] interned_template [OF tt, of tmpl] fmt
    by (intro worker_write_ok) (auto simp: datum_of_def CONST_STRING_SIZE_def)
  with push q show ?thesis by blast
qed

section \<open>Properties\<close>

text \<open>
  C20. What is sent is what is written: up to 19 samples (64-bit counters, \<^verbatim>\<open>NAN\<close> or
  \<^verbatim>\<open>U\<close>) pushed as one colon-separated value string are queued as one datum, and a worker's turn
  on that datum hands RRD the same file, the same template, the time and exactly those counters in
  order, with \<^verbatim>\<open>U\<close> for \<^verbatim>\<open>NAN\<close> and a zero for \<^verbatim>\<open>U\<close>; neither buffer truncates anything. The
  uninitialised token pointer is taken to be null.
\<close>

theorem written_as_sent:
  assumes "filename_table_ok w" "template_table_ok w" "data_queue w \<noteq> []"
    and "length (file_info w) < 2 ^ 32" "length (rrd_template w) < 2 ^ 32"
    and "ss \<noteq> []" "length ss \<le> 19" "\<forall>s \<in> set ss. sample_ok s" "0 \<le> t" "t < 2 ^ 64"
    and "no_nul f" "length f < 1023" "no_nul tmpl" "length tmpl < 1023" "nul \<in> set (wk_filename k)"
  shows "\<exists>w' d k'.
    push_data None junk w t f tmpl (join_with CHR '':'' (map sample_text ss)) = Inr (0, w') \<and>
    datum_queue (data_queue w' ! queue_of (length (data_queue w)) f) =
      datum_queue (data_queue w ! queue_of (length (data_queue w)) f) @ [d] \<and>
    worker_write env w' k d =
      Inr (k', [Rrd_update f tmpl (join_with CHR '':'' (show_nat (nat t) # map sample_rrd ss))])"
  using assms by (rule samples_written)

definition two_queue_writer :: rrd_writer where
  "two_queue_writer = snd (initialize (\<lambda>_. [nul])
     (Some \<lparr>wc_version = 0, wc_num_writers = 2, wc_flush_seconds = 60\<rparr>) fresh_writer)"

lemma two_queue_writer_ok:
  "filename_table_ok two_queue_writer" "template_table_ok two_queue_writer"
  "length (data_queue two_queue_writer) = 2" "data_queue two_queue_writer \<noteq> []" "file_info two_queue_writer = []" "rrd_template two_queue_writer = []"
  by (simp_all add: two_queue_writer_def initialize_def Let_def clamp_num_threads_def
      filename_table_ok_def template_table_ok_def fresh_writer_def vector_resize_def)

theorem written_as_sent_witness:
  "\<exists>w' d k'.
    push_data None [] two_queue_writer 1000 ''a.rrd'' ''in:out''
      (join_with CHR '':'' (map sample_text [Counter 7, Unknown])) = Inr (0, w') \<and>
    datum_queue (data_queue w' ! queue_of 2 ''a.rrd'') =
      datum_queue (data_queue two_queue_writer ! queue_of 2 ''a.rrd'') @ [d] \<and>
    worker_write \<lparr>we_rrd_last = (\<lambda>_. 0), we_now = 0, we_rand = 0, we_rrd_update = (\<lambda>_ _ _. 0)\<rparr> w'
      \<lparr>wk_id = 0, wk_filename = [nul], wk_template_str = [], to_be_flushed = []\<rparr> d =
      Inr (k', [Rrd_update ''a.rrd'' ''in:out'' (join_with CHR '':'' [''1000'', ''7'', ''U''])])"
proof -
  have "show_nat 1000 = ''1000''" "show_nat 7 = ''7''" by code_simp+
  then show ?thesis
    using written_as_sent [of two_queue_writer "[Counter 7, Unknown]" 1000 "''a.rrd''" "''in:out''"
        "\<lparr>wk_id = 0, wk_filename = [nul], wk_template_str = [], to_be_flushed = []\<rparr>" "[]"
        "\<lparr>we_rrd_last = (\<lambda>_. 0), we_now = 0, we_rand = 0, we_rrd_update = (\<lambda>_ _ _. 0)\<rparr>"]
      two_queue_writer_ok by (auto simp: no_nul_def)
qed

text \<open>
  C36. Twenty or more values: \<^verbatim>\<open>push_data\<close> still succeeds and queues a datum whose count is
  4294967295 (the conversion's \<open>-1\<close> in an unsigned field, which the assertion lets pass),
  and formatting that datum reads past the array.
\<close>

theorem too_many_values_accepted:
  assumes "data_queue w \<noteq> []" and "20 \<le> length toks"
    and "\<forall>v \<in> set toks. v \<noteq> [] \<and> CHR '':'' \<notin> set v \<and> no_nul v"
    and "length (join_with CHR '':'' toks) < 1023"
  shows "\<exists>w' d. push_data None junk w t f tmpl (join_with CHR '':'' toks) = Inr (0, w') \<and>
    datum_queue (data_queue w' ! queue_of (length (data_queue w)) f) =
      datum_queue (data_queue w ! queue_of (length (data_queue w)) f) @ [d] \<and>
    num_ds d = 4294967295 \<and> format_datum d = Inl Undefined"
proof -
  let ?d = "datum_of w t f tmpl toks" and ?q = "queue_of (length (data_queue w)) f"
  let ?w' = "enqueue_datum (intern_template (intern_filename w f) tmpl) ?q ?d"
  have "push_data None junk w t f tmpl (join_with CHR '':'' toks) = Inr (0, ?w')"
    using assms by (intro push_data_tokens) (auto simp: CONST_STRING_SIZE_def)
  moreover have "datum_queue (data_queue ?w' ! ?q) = datum_queue (data_queue w ! ?q) @ [?d]"
    using assms(1) by (subst datum_queue_enqueue) (auto simp: queue_of_less)
  moreover have n: "num_ds ?d = 4294967295" using assms(2) by (simp add: datum_of_def MAX_DS_PER_FILE_def)
  moreover have "format_datum ?d = Inl Undefined"
    using n by (intro format_datum_short) (simp add: datum_of_def MAX_DS_PER_FILE_def)
  ultimately show ?thesis by blast
qed

theorem too_many_values_accepted_witness:
  "\<exists>w' d. push_data None [] two_queue_writer 1 ''a'' ''t'' (join_with CHR '':'' (replicate 20 ''1'')) = Inr (0, w') \<and>
    datum_queue (data_queue w' ! queue_of 2 ''a'') =
      datum_queue (data_queue two_queue_writer ! queue_of 2 ''a'') @ [d] \<and>
    num_ds d = 4294967295 \<and> format_datum d = Inl Undefined"
  using too_many_values_accepted [of two_queue_writer "replicate 20 ''1''" "[]" 1 "''a''" "''t''"]
    two_queue_writer_ok(3,4) length_join_with [of "replicate 20 ''1''" 1 "CHR '':''"] by (auto simp: no_nul_def)

text \<open>
  The queue-length averages: as long as the numbers stay below 2^52, one update moves each
  average to a value between its old value and the present total, so a peak or a lull is
  never overshot and nothing wraps.
\<close>

theorem stats_between:
  assumes "unat (avg_queue_len_1min (local_status w)) < 2 ^ 52" "unat (avg_queue_len_5min (local_status w)) < 2 ^ 52"
    and "unat (total_queued w) < 2 ^ 52"
  shows "let st = local_status w; st' = local_status (calculate_new_stats w); n = unat (total_queued w) in
    min (unat (avg_queue_len_1min st)) n \<le> unat (avg_queue_len_1min st') \<and>
    unat (avg_queue_len_1min st') \<le> max (unat (avg_queue_len_1min st)) n \<and>
    min (unat (avg_queue_len_5min st)) n \<le> unat (avg_queue_len_5min st') \<and>
    unat (avg_queue_len_5min st') \<le> max (unat (avg_queue_len_5min st)) n"
proof -
  have "unat (CALC_LOAD l EXP_1 (total_queued w)) = (unat l * 1884 + unat (total_queued w) * (2048 - 1884)) div 2048"
    if "unat l < 2 ^ 52" for l
    using CALC_LOAD_nat [OF that assms(3), of EXP_1] by (simp add: EXP_1_def)
  moreover have "unat (CALC_LOAD l EXP_5 (total_queued w)) = (unat l * 2014 + unat (total_queued w) * (2048 - 2014)) div 2048"
    if "unat l < 2 ^ 52" for l
    using CALC_LOAD_nat [OF that assms(3), of EXP_5] by (simp add: EXP_5_def)
  ultimately show ?thesis
    using assms weighted_average_bounds [of 1884] weighted_average_bounds [of 2014]
    by (simp add: Let_def)
qed

theorem stats_between_witness:
  "let w = two_queue_writer; st' = local_status (calculate_new_stats w) in
    unat (avg_queue_len_5min st') \<le> max (unat (avg_queue_len_5min (local_status w))) (unat (total_queued w))"
proof -
  have "total_queued two_queue_writer = 0" "avg_queue_len_1min (local_status two_queue_writer) = 0"
    "avg_queue_len_5min (local_status two_queue_writer) = 0"
    by (simp_all add: two_queue_writer_def initialize_def Let_def clamp_num_threads_def total_queued_def
        fresh_writer_def vector_resize_def zero_status_def upt_rec)
  then show ?thesis using stats_between [of two_queue_writer] by (simp add: Let_def)
qed

text \<open>
  The averages are kept without the fixed-point scaling the constants are made for: with
  a constant total of at most 60 queued updates the five-minute average, started at zero,
  stays zero however often it is recomputed, and at most 12 keep the one-minute average at zero.
\<close>

theorem stats_stuck_at_zero:
  assumes "avg_queue_len_5min (local_status w) = 0" "avg_queue_len_1min (local_status w) = 0"
  shows "(total_queued w \<le> 60 \<longrightarrow> avg_queue_len_5min (local_status ((calculate_new_stats ^^ k) w)) = 0) \<and>
    (total_queued w \<le> 12 \<longrightarrow> avg_queue_len_1min (local_status ((calculate_new_stats ^^ k) w)) = 0)"
proof (induction k)
  case 0
  then show ?case using assms by simp
next
  case (Suc k)
  have "CALC_LOAD 0 EXP_5 n = 0" if "n \<le> 60" for n
  proof -
    have "unat n \<le> 60" using that by (simp add: word_le_nat_alt)
    then have "unat (CALC_LOAD 0 EXP_5 n) = 0"
      by (subst CALC_LOAD_nat) (auto simp: EXP_5_def)
    then show ?thesis by (simp only: unat_eq_zero)
  qed
  moreover have "CALC_LOAD 0 EXP_1 n = 0" if "n \<le> 12" for n
  proof -
    have "unat n \<le> 12" using that by (simp add: word_le_nat_alt)
    then have "unat (CALC_LOAD 0 EXP_1 n) = 0"
      by (subst CALC_LOAD_nat) (auto simp: EXP_1_def)
    then show ?thesis by (simp only: unat_eq_zero)
  qed
  ultimately show ?case
    using Suc total_queued_stats_pow [of k w] by simp
qed

theorem stats_stuck_at_zero_witness:
  "avg_queue_len_5min (local_status ((calculate_new_stats ^^ 7)
     (enqueue_datum two_queue_writer 0 (datum_of two_queue_writer 0 ''a'' ''b'' [''1'']))) ) = 0"
proof -
  let ?w = "enqueue_datum two_queue_writer 0 (datum_of two_queue_writer 0 ''a'' ''b'' [''1''])"
  have "local_status ?w = zero_status" "total_queued ?w = 1"
    by (simp_all add: two_queue_writer_def initialize_def Let_def clamp_num_threads_def total_queued_def
        fresh_writer_def vector_resize_def enqueue_datum_def upt_rec numeral_2_eq_2)
  then show ?thesis using stats_stuck_at_zero [of ?w 7] by (simp add: zero_status_def)
qed

end
