(* ===== verification/Rrd_Pipeline.thy ===== *)
theory Rrd_Pipeline
  imports Rrd_Writer Sem_Queue
begin

text \<open>
  The RRD writer at work: producers calling \<^verbatim>\<open>push_data\<close>, one thread per queue running
  \<^verbatim>\<open>RRD_Writer_worker::thread_start\<close>, and the statistics thread, interleaved at the
  granularity of the critical sections. A worker is waiting, past its wait, or holding a
  datum; the step relation has one rule per branch of the code. Shown, for every
  interleaving: a worker past its wait finds its queue non-empty; each file's updates are
  performed in the order they were pushed, by one worker; and the exact account between
  semaphore and queue, including the wake-up that a stale \<^verbatim>\<open>errno\<close> throws away.
\<close>

section \<open>The system and its steps\<close>

datatype worker_pc = At_wait | Claimed | Holding rrd_datum

record rrd_system =
  rs_writer :: rrd_writer
  rs_pc :: "nat \<Rightarrow> worker_pc"

datatype rlabel =
    L_push nat string rrd_datum
  | L_claim nat
  | L_forfeit nat
  | L_timeout nat "rrd_effect list"
  | L_take nat rrd_datum
  | L_write nat string rrd_datum "rrd_effect list"
  | L_stats

abbreviation queue_at :: "rrd_system \<Rightarrow> nat \<Rightarrow> rrd_queue" where
  "queue_at s i \<equiv> data_queue (rs_writer s) ! i"

abbreviation has_queue :: "rrd_system \<Rightarrow> nat \<Rightarrow> bool" where
  "has_queue s i \<equiv> i < length (data_queue (rs_writer s))"

text \<open>A successful \<^verbatim>\<open>sem_timedwait\<close> takes one from the semaphore.\<close>

definition sem_down :: "rrd_writer \<Rightarrow> nat \<Rightarrow> rrd_writer" where
  "sem_down w i =
     w\<lparr>data_queue := (data_queue w)[i := (data_queue w ! i)
        \<lparr>q_semaphore := q_semaphore (data_queue w ! i) - 1\<rparr>]\<rparr>"

definition file_of :: "rrd_writer \<Rightarrow> rrd_datum \<Rightarrow> string" where
  "file_of w d = fi_filename (file_info w ! unat (filename_id d))"

inductive rstep :: "rrd_system \<Rightarrow> rlabel \<Rightarrow> rrd_system \<Rightarrow> bool" where
  r_push: "push_data token0 junk (rs_writer s) t f tmpl values = Inr (r, w') \<Longrightarrow>
     i = queue_of (length (data_queue (rs_writer s))) f \<Longrightarrow>
     d = last (datum_queue (data_queue w' ! i)) \<Longrightarrow>
     rstep s (L_push i f d) (s\<lparr>rs_writer := w'\<rparr>)"
| r_claim: "has_queue s i \<Longrightarrow> rs_pc s i = At_wait \<Longrightarrow> 0 < q_semaphore (queue_at s i) \<Longrightarrow>
     wait_branch 0 err = Take_datum \<Longrightarrow>
     rstep s (L_claim i) (s\<lparr>rs_writer := sem_down (rs_writer s) i, rs_pc := (rs_pc s)(i := Claimed)\<rparr>)"
| r_forfeit: "has_queue s i \<Longrightarrow> rs_pc s i = At_wait \<Longrightarrow> 0 < q_semaphore (queue_at s i) \<Longrightarrow>
     wait_branch 0 err = Retry_wait \<Longrightarrow>
     rstep s (L_forfeit i) (s\<lparr>rs_writer := sem_down (rs_writer s) i\<rparr>)"
| r_timeout: "has_queue s i \<Longrightarrow> rs_pc s i = At_wait \<Longrightarrow> wait_branch (- 1) err = Flush_and_continue \<Longrightarrow>
     worker_timeout (worker (rs_writer s) ! i) = (k', eff) \<Longrightarrow>
     rstep s (L_timeout i eff)
       (s\<lparr>rs_writer := (rs_writer s)\<lparr>worker := (worker (rs_writer s))[i := k']\<rparr>\<rparr>)"
| r_take: "rs_pc s i = Claimed \<Longrightarrow> worker_take (rs_writer s) i = Inr (d, w') \<Longrightarrow>
     rstep s (L_take i d) (s\<lparr>rs_writer := w', rs_pc := (rs_pc s)(i := Holding d)\<rparr>)"
| r_write: "has_queue s i \<Longrightarrow> rs_pc s i = Holding d \<Longrightarrow>
     worker_write env (rs_writer s) (worker (rs_writer s) ! i) d = Inr (k', eff) \<Longrightarrow>
     rstep s (L_write i (file_of (rs_writer s) d) d eff)
       (s\<lparr>rs_writer := (rs_writer s)\<lparr>worker := (worker (rs_writer s))[i := k']\<rparr>,
          rs_pc := (rs_pc s)(i := At_wait)\<rparr>)"
| r_stats: "rstep s L_stats (s\<lparr>rs_writer := calculate_new_stats (rs_writer s)\<rparr>)"

inductive_cases rstep_pushE: "rstep s (L_push i f d) t"
inductive_cases rstep_claimE: "rstep s (L_claim i) t"
inductive_cases rstep_forfeitE: "rstep s (L_forfeit i) t"
inductive_cases rstep_timeoutE: "rstep s (L_timeout i eff) t"
inductive_cases rstep_takeE: "rstep s (L_take i d) t"
inductive_cases rstep_writeE: "rstep s (L_write i f d eff) t"
inductive_cases rstep_statsE: "rstep s L_stats t"

lemmas rstep_elims = rstep_pushE rstep_claimE rstep_forfeitE rstep_timeoutE rstep_takeE
  rstep_writeE rstep_statsE

text \<open>The system right after \<^verbatim>\<open>RRD_Writer::initialize\<close> on the static writer object.\<close>

definition init_system :: "(nat \<Rightarrow> char list) \<Rightarrow> writer_config option \<Rightarrow> rrd_system" where
  "init_system stack cfg =
     \<lparr>rs_writer = snd (initialize stack cfg fresh_writer), rs_pc = (\<lambda>_. At_wait)\<rparr>"

definition queue_view :: "nat \<Rightarrow> rlabel \<Rightarrow> rrd_datum qop" where
  "queue_view i l =
     (case l of
        L_push j f d \<Rightarrow> (if j = i then Enqueue d else Other)
      | L_take j d \<Rightarrow> (if j = i then Dequeue d else Other)
      | _ \<Rightarrow> Other)"

definition claims_at :: "nat \<Rightarrow> rrd_system \<Rightarrow> nat" where
  "claims_at i s = (if rs_pc s i = Claimed then 1 else 0)"

definition credit_at :: "nat \<Rightarrow> rrd_system \<Rightarrow> nat" where
  "credit_at i s = q_semaphore (queue_at s i) + claims_at i s"

section \<open>What a push does\<close>

lemma push_data_shape:
  assumes "push_data token0 junk w t f tmpl values = Inr (r, w')"
  shows "data_queue w \<noteq> [] \<and> r = 0 \<and>
    (\<exists>d. w' = enqueue_datum (intern_template (intern_filename w f) tmpl) (queue_of (length (data_queue w)) f) d \<and>
       filename_id d = map_at (filename_id_map (intern_filename w f)) f \<and>
       template_id d = map_at (template_id_map (intern_template (intern_filename w f) tmpl)) tmpl \<and> rd_time d = t)"
  using assms
  by (auto simp: push_data_def Let_def bind_result_eq_Inr case_prod_beta split: if_splits)

lemma push_effect:
  assumes "rstep s (L_push i f d) s'"
  shows "has_queue s i" "i = queue_of (length (data_queue (rs_writer s))) f" "rs_pc s' = rs_pc s"
    "\<exists>tmpl. rs_writer s' = enqueue_datum (intern_template (intern_filename (rs_writer s) f) tmpl) i d"
    "filename_id d = map_at (filename_id_map (intern_filename (rs_writer s) f)) f"
proof -
  obtain token0 junk t tmpl vals r w' where p: "push_data token0 junk (rs_writer s) t f tmpl vals = Inr (r, w')"
    and i: "i = queue_of (length (data_queue (rs_writer s))) f"
    and d: "d = last (datum_queue (data_queue w' ! i))" and s': "s' = s\<lparr>rs_writer := w'\<rparr>"
    using assms by (elim rstep_pushE) auto
  from push_data_shape [OF p] i obtain d' where ne: "data_queue (rs_writer s) \<noteq> []"
    and w': "w' = enqueue_datum (intern_template (intern_filename (rs_writer s) f) tmpl) i d'"
    and fid: "filename_id d' = map_at (filename_id_map (intern_filename (rs_writer s) f)) f"
    by auto
  show hq: "has_queue s i" using i ne by (simp add: queue_of_less)
  have "d = d'" using d w' hq by (simp add: datum_queue_enqueue)
  with w' fid s' i show "i = queue_of (length (data_queue (rs_writer s))) f" "rs_pc s' = rs_pc s"
    "\<exists>tmpl. rs_writer s' = enqueue_datum (intern_template (intern_filename (rs_writer s) f) tmpl) i d"
    "filename_id d = map_at (filename_id_map (intern_filename (rs_writer s) f)) f"
    by auto
qed

lemma worker_take_shape:
  "worker_take w i = Inr (d, w') \<longleftrightarrow>
     i < length (data_queue w) \<and> (\<exists>rest. datum_queue (data_queue w ! i) = d # rest \<and>
       w' = w\<lparr>data_queue := (data_queue w)[i := (data_queue w ! i)\<lparr>datum_queue := rest\<rparr>]\<rparr>)"
  by (auto simp: worker_take_def split: list.splits)

lemma calculate_new_stats_frame [simp]:
  "data_queue (calculate_new_stats w) = data_queue w" "file_info (calculate_new_stats w) = file_info w"
  "worker (calculate_new_stats w) = worker w" "filename_id_map (calculate_new_stats w) = filename_id_map w"
  "rrd_template (calculate_new_stats w) = rrd_template w"
  by (simp_all add: calculate_new_stats_def Let_def)

lemma sem_down_frame [simp]:
  "file_info (sem_down w i) = file_info w" "worker (sem_down w i) = worker w"
  "filename_id_map (sem_down w i) = filename_id_map w" "rrd_template (sem_down w i) = rrd_template w"
  "length (data_queue (sem_down w i)) = length (data_queue w)"
  by (simp_all add: sem_down_def)

lemma sem_down_queue:
  "i < length (data_queue w) \<Longrightarrow> data_queue (sem_down w i) ! j =
     (if j = i then (data_queue w ! i)\<lparr>q_semaphore := q_semaphore (data_queue w ! i) - 1\<rparr> else data_queue w ! j)"
  by (simp add: sem_down_def)

lemma enqueue_queue:
  "i < length (data_queue w) \<Longrightarrow> data_queue (enqueue_datum w i d) ! j =
     (if j = i then \<lparr>datum_queue = datum_queue (data_queue w ! i) @ [d],
        q_semaphore = Suc (q_semaphore (data_queue w ! i))\<rparr> else data_queue w ! j)"
  by (cases "data_queue w ! i") (simp add: enqueue_datum_def)

section \<open>Each queue keeps the interface of a semaphore queue\<close>

lemma rstep_queues: "rstep s l t \<Longrightarrow> length (data_queue (rs_writer t)) = length (data_queue (rs_writer s))"
proof (cases l)
  case (L_push i f d)
  then show "rstep s l t \<Longrightarrow> ?thesis" using push_effect(4) [of s i f d t] by auto
qed (auto elim!: rstep_elims simp: worker_take_shape)

text \<open>One step, seen from queue \<open>i\<close>: its items, its semaphore and its worker's place.\<close>

lemma rstep_queue_effect:
  assumes "rstep s l t" "has_queue s i"
  shows "case l of
      L_push j f d \<Rightarrow> rs_pc t i = rs_pc s i \<and>
        datum_queue (queue_at t i) = datum_queue (queue_at s i) @ (if j = i then [d] else []) \<and>
        q_semaphore (queue_at t i) = q_semaphore (queue_at s i) + (if j = i then 1 else 0)
    | L_claim j \<Rightarrow> datum_queue (queue_at t i) = datum_queue (queue_at s i) \<and>
        (if j = i then rs_pc s i = At_wait \<and> rs_pc t i = Claimed \<and>
           q_semaphore (queue_at s i) = Suc (q_semaphore (queue_at t i))
         else rs_pc t i = rs_pc s i \<and> q_semaphore (queue_at t i) = q_semaphore (queue_at s i))
    | L_forfeit j \<Rightarrow> datum_queue (queue_at t i) = datum_queue (queue_at s i) \<and> rs_pc t i = rs_pc s i \<and>
        q_semaphore (queue_at s i) = q_semaphore (queue_at t i) + (if j = i then 1 else 0)
    | L_take j d \<Rightarrow> q_semaphore (queue_at t i) = q_semaphore (queue_at s i) \<and>
        datum_queue (queue_at s i) = (if j = i then [d] else []) @ datum_queue (queue_at t i) \<and>
        (if j = i then rs_pc s i = Claimed \<and> rs_pc t i = Holding d else rs_pc t i = rs_pc s i)
    | L_write j f d eff \<Rightarrow> queue_at t i = queue_at s i \<and> f = file_of (rs_writer s) d \<and>
        (if j = i then rs_pc s i = Holding d \<and> rs_pc t i = At_wait else rs_pc t i = rs_pc s i)
    | _ \<Rightarrow> queue_at t i = queue_at s i \<and> rs_pc t i = rs_pc s i"
proof (cases l)
  case (L_push j f d)
  with assms have st: "rstep s (L_push j f d) t" by simp
  from push_effect [OF st] L_push show ?thesis by (auto simp: enqueue_queue)
next
  case (L_take j d)
  with assms show ?thesis by (auto elim!: rstep_takeE simp: worker_take_shape nth_list_update)
qed (use assms in \<open>auto elim!: rstep_elims simp: sem_down_queue\<close>)

interpretation rq: sem_queue "\<lambda>s. datum_queue (queue_at s i)" "credit_at i" "claims_at i" rstep
  "queue_view i" "\<lambda>s. has_queue s i" for i
proof unfold_locales
  fix s l t
  assume "has_queue s i" "rstep s l t"
  then show "has_queue t i" by (simp add: rstep_queues)
next
  fix s l t x
  assume "has_queue s i" "rstep s l t" "queue_view i l = Enqueue x"
  then show "datum_queue (queue_at t i) = datum_queue (queue_at s i) @ [x] \<and> credit_at i t \<le> Suc (credit_at i s)"
    using rstep_queue_effect [of s l t i]
    by (auto simp: queue_view_def credit_at_def claims_at_def split: rlabel.splits if_splits)
next
  fix s l t x
  assume "has_queue s i" "rstep s l t" "queue_view i l = Dequeue x"
  then show "datum_queue (queue_at s i) = x # datum_queue (queue_at t i) \<and> Suc (credit_at i t) \<le> credit_at i s"
    using rstep_queue_effect [of s l t i]
    by (auto simp: queue_view_def credit_at_def claims_at_def split: rlabel.splits if_splits)
next
  fix s l t
  assume "has_queue s i" "rstep s l t" "queue_view i l = Other"
  then show "datum_queue (queue_at t i) = datum_queue (queue_at s i) \<and> credit_at i t \<le> credit_at i s"
    using rstep_queue_effect [of s l t i]
    by (auto simp: queue_view_def credit_at_def claims_at_def split: rlabel.splits if_splits)
next
  fix s
  show "claims_at i s \<le> credit_at i s" by (simp add: credit_at_def)
qed

section \<open>The order of one file's updates\<close>

text \<open>The updates worker \<open>i\<close> still has to perform, in order.\<close>

definition in_flight :: "rrd_system \<Rightarrow> nat \<Rightarrow> rrd_datum list" where
  "in_flight s i = (case rs_pc s i of Holding d \<Rightarrow> [d] | _ \<Rightarrow> []) @ datum_queue (queue_at s i)"

definition placed :: "rrd_writer \<Rightarrow> nat \<Rightarrow> rrd_datum \<Rightarrow> bool" where
  "placed w i d \<longleftrightarrow> unat (filename_id d) < length (file_info w) \<and>
     queue_of (length (data_queue w)) (file_of w d) = i"

definition pipeline_ok :: "rrd_system \<Rightarrow> bool" where
  "pipeline_ok s \<longleftrightarrow> data_queue (rs_writer s) \<noteq> [] \<and> filename_table_ok (rs_writer s) \<and>
     (\<forall>i. has_queue s i \<longrightarrow> (\<forall>d \<in> set (in_flight s i). placed (rs_writer s) i d))"

definition flight_of :: "string \<Rightarrow> rrd_system \<Rightarrow> rrd_datum list" where
  "flight_of f s =
     filter (\<lambda>d. file_of (rs_writer s) d = f) (in_flight s (queue_of (length (data_queue (rs_writer s))) f))"

fun pushes_of :: "string \<Rightarrow> rlabel list \<Rightarrow> rrd_datum list" where
  "pushes_of f [] = []"
| "pushes_of f (L_push i g d # tr) = (if g = f then d # pushes_of f tr else pushes_of f tr)"
| "pushes_of f (_ # tr) = pushes_of f tr"

fun writes_of :: "string \<Rightarrow> rlabel list \<Rightarrow> rrd_datum list" where
  "writes_of f [] = []"
| "writes_of f (L_write i g d eff # tr) = (if g = f then d # writes_of f tr else writes_of f tr)"
| "writes_of f (_ # tr) = writes_of f tr"

fun forfeits :: "nat \<Rightarrow> rlabel list \<Rightarrow> nat" where
  "forfeits i [] = 0"
| "forfeits i (L_forfeit j # tr) = (if j = i then 1 else 0) + forfeits i tr"
| "forfeits i (_ # tr) = forfeits i tr"

lemma pushes_of_append [simp]: "pushes_of f (tr @ tr') = pushes_of f tr @ pushes_of f tr'"
  by (induction f tr rule: pushes_of.induct) auto

lemma writes_of_append [simp]: "writes_of f (tr @ tr') = writes_of f tr @ writes_of f tr'"
  by (induction f tr rule: writes_of.induct) auto

lemma forfeits_append [simp]: "forfeits i (tr @ tr') = forfeits i tr + forfeits i tr'"
  by (induction i tr rule: forfeits.induct) auto

lemma rstep_other_frame:
  assumes "rstep s l t" "\<And>i f d. l \<noteq> L_push i f d"
  shows "file_info (rs_writer t) = file_info (rs_writer s) \<and>
    filename_id_map (rs_writer t) = filename_id_map (rs_writer s)"
  using assms by (cases l) (auto elim!: rstep_elims simp: worker_take_shape)

lemma rstep_files_prefix: "rstep s l t \<Longrightarrow> prefix (file_info (rs_writer s)) (file_info (rs_writer t))"
proof (cases "\<exists>i f d. l = L_push i f d")
  case True
  then obtain i f d where l: "l = L_push i f d" by blast
  then show "rstep s l t \<Longrightarrow> ?thesis"
    using push_effect(4) [of s i f d t] file_info_prefix by fastforce
qed (use rstep_other_frame in fastforce)

lemma file_of_prefix:
  "prefix (file_info w) (file_info w') \<Longrightarrow> unat (filename_id d) < length (file_info w) \<Longrightarrow>
   file_of w' d = file_of w d"
  by (auto simp: file_of_def prefix_def nth_append)

lemma placed_prefix:
  assumes "prefix (file_info w) (file_info w')" "length (data_queue w') = length (data_queue w)" "placed w i d"
  shows "placed w' i d \<and> file_of w' d = file_of w d"
proof -
  have "length (file_info w) \<le> length (file_info w')"
    using assms(1) by (rule prefix_length_le)
  with assms file_of_prefix show ?thesis by (fastforce simp: placed_def)
qed

lemma push_placed:
  assumes "rstep s (L_push i f d) t" "pipeline_ok s" "length (file_info (rs_writer s)) < 2 ^ 32"
  shows "placed (rs_writer t) i d" "file_of (rs_writer t) d = f" "filename_table_ok (rs_writer t)"
proof -
  have ok: "filename_table_ok (rs_writer s)" using assms(2) by (simp add: pipeline_ok_def)
  obtain tmpl where t: "rs_writer t = enqueue_datum (intern_template (intern_filename (rs_writer s) f) tmpl) i d"
    using push_effect(4) [OF assms(1)] by blast
  have d: "filename_id d = map_at (filename_id_map (intern_filename (rs_writer s) f)) f"
    by (rule push_effect(5) [OF assms(1)])
  show f: "file_of (rs_writer t) d = f"
    using interned_filename(3) [OF ok assms(3), of f] t d by (simp add: file_of_def)
  show "placed (rs_writer t) i d"
    using interned_filename(2) [OF ok assms(3), of f] t d f push_effect(2) [OF assms(1)]
    by (simp add: placed_def)
  show "filename_table_ok (rs_writer t)"
    using interned_filename(1) [OF ok assms(3), of f] t by (simp add: filename_table_ok_def)
qed

text \<open>What one step does to the list of outstanding updates of worker \<open>i\<close>.\<close>

lemma in_flight_step:
  assumes "rstep s l t" "has_queue s i"
  shows "in_flight s i @ (case l of L_push j f d \<Rightarrow> if j = i then [d] else [] | _ \<Rightarrow> []) =
    (case l of L_write j f d eff \<Rightarrow> if j = i then [d] else [] | _ \<Rightarrow> []) @ in_flight t i"
  using rstep_queue_effect [OF assms]
  by (cases l) (auto simp: in_flight_def split: worker_pc.splits if_splits)

lemma pipeline_ok_step:
  assumes "rstep s l t" "pipeline_ok s" "length (file_info (rs_writer s)) < 2 ^ 32"
  shows "pipeline_ok t"
proof -
  have n: "length (data_queue (rs_writer t)) = length (data_queue (rs_writer s))"
    using assms(1) by (rule rstep_queues)
  have tab: "filename_table_ok (rs_writer t)"
  proof (cases "\<exists>i f d. l = L_push i f d")
    case True
    with push_placed(3) assms show ?thesis by blast
  next
    case False
    with rstep_other_frame [OF assms(1)] assms(2) show ?thesis
      by (simp add: pipeline_ok_def filename_table_ok_def)
  qed
  have "placed (rs_writer t) i d" if i: "has_queue t i" and d: "d \<in> set (in_flight t i)" for i d
  proof (cases "d \<in> set (in_flight s i)")
    case True
    with i n assms(2) have "placed (rs_writer s) i d" by (simp add: pipeline_ok_def)
    then show ?thesis using placed_prefix [OF rstep_files_prefix [OF assms(1)] n] by blast
  next
    case False
    have "set (in_flight t i) \<subseteq> set (in_flight s i @ (case l of L_push j f d \<Rightarrow> if j = i then [d] else [] | _ \<Rightarrow> []))"
      using in_flight_step [OF assms(1), of i] i n by auto
    with d False obtain f where "l = L_push i f d" by (auto split: rlabel.splits if_splits)
    with push_placed(1) assms show ?thesis by blast
  qed
  with n tab assms(2) show ?thesis by (auto simp: pipeline_ok_def)
qed

lemma flight_step:
  assumes "rstep s l t" "pipeline_ok s" "length (file_info (rs_writer s)) < 2 ^ 32"
  shows "flight_of f s @ pushes_of f [l] = writes_of f [l] @ flight_of f t"
proof -
  let ?i = "queue_of (length (data_queue (rs_writer s))) f"
  have n: "length (data_queue (rs_writer t)) = length (data_queue (rs_writer s))"
    using assms(1) by (rule rstep_queues)
  have hq: "has_queue s ?i" using assms(2) by (simp add: pipeline_ok_def queue_of_less)
  have okt: "pipeline_ok t" using assms by (rule pipeline_ok_step)
  let ?F = "filter (\<lambda>d. file_of (rs_writer t) d = f)"
  have stable: "file_of (rs_writer t) d = file_of (rs_writer s) d" if "d \<in> set (in_flight s ?i)" for d
    using that assms(2) hq placed_prefix [OF rstep_files_prefix [OF assms(1)] n]
    by (auto simp: pipeline_ok_def)
  have fl: "flight_of f s = ?F (in_flight s ?i)" "flight_of f t = ?F (in_flight t ?i)"
    by (simp_all add: flight_of_def n stable cong: filter_cong)
  have pl: "?F (case l of L_push j g d \<Rightarrow> if j = ?i then [d] else [] | _ \<Rightarrow> []) = pushes_of f [l]"
  proof (cases "\<exists>j g d. l = L_push j g d")
    case True
    then obtain j g d where l: "l = L_push j g d" by blast
    with assms have "file_of (rs_writer t) d = g" "j = queue_of (length (data_queue (rs_writer s))) g"
      using push_placed(2) push_effect(2) by blast+
    with l show ?thesis by auto
  qed (auto split: rlabel.split)
  have wr: "?F (case l of L_write j g d eff \<Rightarrow> if j = ?i then [d] else [] | _ \<Rightarrow> []) = writes_of f [l]"
  proof (cases "\<exists>j g d eff. l = L_write j g d eff")
    case True
    then obtain j g d eff where l: "l = L_write j g d eff" by blast
    with assms(1) have j: "has_queue s j" "rs_pc s j = Holding d" "g = file_of (rs_writer s) d"
      by (auto elim!: rstep_writeE)
    then have "d \<in> set (in_flight s j)" by (simp add: in_flight_def)
    with j assms(2) have pd: "placed (rs_writer s) j d" by (simp add: pipeline_ok_def)
    then have "file_of (rs_writer t) d = g"
      using placed_prefix [OF rstep_files_prefix [OF assms(1)] n] j(3) by blast
    moreover have "j = queue_of (length (data_queue (rs_writer s))) g"
      using pd j(3) by (simp add: placed_def)
    ultimately show ?thesis using l by auto
  qed (auto split: rlabel.split)
  have "?F (in_flight s ?i @ (case l of L_push j g d \<Rightarrow> if j = ?i then [d] else [] | _ \<Rightarrow> [])) =
      ?F ((case l of L_write j g d eff \<Rightarrow> if j = ?i then [d] else [] | _ \<Rightarrow> []) @ in_flight t ?i)"
    using in_flight_step [OF assms(1) hq] by (rule arg_cong)
  then show ?thesis by (simp only: filter_append fl pl wr)
qed

lemma run_order:
  "lrun rstep s tr t \<Longrightarrow> pipeline_ok s \<Longrightarrow> length (file_info (rs_writer t)) < 2 ^ 32 \<Longrightarrow>
   pipeline_ok t \<and> flight_of f s @ pushes_of f tr = writes_of f tr @ flight_of f t"
proof (induction rule: lrun.induct)
  case (lrun_nil s)
  then show ?case by simp
next
  case (lrun_snoc s tr t l u)
  have "length (file_info (rs_writer t)) < 2 ^ 32"
    using lrun_snoc.prems(2) rstep_files_prefix [OF lrun_snoc.hyps(2)] prefix_length_le by fastforce
  with lrun_snoc have ok: "pipeline_ok t" and eq: "flight_of f s @ pushes_of f tr = writes_of f tr @ flight_of f t"
    and lt: "length (file_info (rs_writer t)) < 2 ^ 32" by auto
  from pipeline_ok_step [OF lrun_snoc.hyps(2) ok lt] flight_step [OF lrun_snoc.hyps(2) ok lt, of f] eq
  show ?case by simp (metis append.assoc)
qed

section \<open>The initial system\<close>

lemma init_system_queues:
  "has_queue (init_system stack cfg) i \<Longrightarrow> queue_at (init_system stack cfg) i = \<lparr>datum_queue = [], q_semaphore = 0\<rparr>"
  by (auto simp: init_system_def initialize_def Let_def fresh_writer_def vector_resize_def)

lemma clamp_num_threads_bounds: "1 \<le> clamp_num_threads v \<and> clamp_num_threads v \<le> 400"
  by (auto simp: clamp_num_threads_def)

lemma init_system_size:
  "length (data_queue (rs_writer (init_system stack cfg))) =
     nat (clamp_num_threads (wc_num_writers (case cfg of None \<Rightarrow> default_config | Some c \<Rightarrow> c)))"
  by (simp add: init_system_def initialize_def Let_def fresh_writer_def vector_resize_def)

lemma init_system_nonempty: "data_queue (rs_writer (init_system stack cfg)) \<noteq> []"
  using clamp_num_threads_bounds init_system_size [of stack cfg] by (metis length_0_conv nat_0_iff not_one_le_zero order_trans)

lemma init_system_ok: "pipeline_ok (init_system stack cfg)"
proof -
  have "filename_table_ok (rs_writer (init_system stack cfg))"
    by (simp add: init_system_def initialize_def Let_def fresh_writer_def filename_table_ok_def)
  moreover have "in_flight (init_system stack cfg) i = []" if "has_queue (init_system stack cfg) i" for i
    using init_system_queues [OF that] by (simp add: in_flight_def init_system_def)
  ultimately show ?thesis by (simp add: pipeline_ok_def init_system_nonempty)
qed

lemma init_flight: "flight_of f (init_system stack cfg) = []"
proof -
  have "has_queue (init_system stack cfg) (queue_of (length (data_queue (rs_writer (init_system stack cfg)))) f)"
    using init_system_nonempty by (simp add: queue_of_less)
  then show ?thesis
    using init_system_queues by (simp add: flight_of_def in_flight_def init_system_def)
qed

lemma credit_account:
  "lrun rstep s tr t \<Longrightarrow> has_queue s i \<Longrightarrow> length (datum_queue (queue_at s i)) = credit_at i s \<Longrightarrow>
   has_queue t i \<and> length (datum_queue (queue_at t i)) = credit_at i t + forfeits i tr"
proof (induction rule: lrun.induct)
  case (lrun_nil s)
  then show ?case by simp
next
  case (lrun_snoc s tr t l u)
  then have hq: "has_queue t i" and eq: "length (datum_queue (queue_at t i)) = credit_at i t + forfeits i tr" by auto
  from rstep_queue_effect [OF lrun_snoc.hyps(2) hq] eq rstep_queues [OF lrun_snoc.hyps(2)] hq
  show ?case by (cases l) (auto simp: credit_at_def claims_at_def split: if_splits)
qed

section \<open>Properties\<close>

text \<open>
  C14. No interleaving makes a worker call \<^verbatim>\<open>front()\<close> on an empty queue: in every state
  reachable from initialisation, a worker that passed its semaphore gets a datum.
\<close>

theorem worker_always_finds_datum:
  assumes "lrun rstep (init_system stack cfg) tr s" "has_queue (init_system stack cfg) i" "rs_pc s i = Claimed"
  shows "\<exists>d w'. worker_take (rs_writer s) i = Inr (d, w')"
proof -
  have "datum_queue (queue_at s i) \<noteq> []"
    using rq.no_underflow [OF assms(1,2)] assms(2,3) init_system_queues [OF assms(2)]
    by (simp add: credit_at_def claims_at_def init_system_def)
  moreover have "has_queue s i" using rq.run_good [OF assms(1,2)] .
  ultimately show ?thesis
    by (cases "datum_queue (queue_at s i)") (auto simp: worker_take_shape)
qed

text \<open>
  C2. Each file's updates are performed in the order they were pushed: in every reachable
  state the datums pushed for a file are those written for it, in the same order, followed by
  the one its worker holds and those still queued; none is duplicated, skipped or overtaken.
\<close>

theorem file_updates_in_order:
  assumes "lrun rstep (init_system stack cfg) tr s" "length (file_info (rs_writer s)) < 2 ^ 32"
  shows "pushes_of f tr = writes_of f tr @ flight_of f s"
  using run_order [OF assms(1) init_system_ok assms(2), of f] init_flight by simp

text \<open>
  C28. The account of wake-ups: a queue holds exactly as many datums as its semaphore and its
  worker still answer for, plus one for every wait that succeeded while \<^verbatim>\<open>errno\<close> still held
  \<^verbatim>\<open>EINTR\<close>. Without such waits no datum is ever stranded; each of them strands one for good.
\<close>

theorem queue_account:
  assumes "lrun rstep (init_system stack cfg) tr s" "has_queue (init_system stack cfg) i"
  shows "length (datum_queue (queue_at s i)) =
    q_semaphore (queue_at s i) + (if rs_pc s i = Claimed then 1 else 0) + forfeits i tr"
proof -
  have "length (datum_queue (queue_at (init_system stack cfg) i)) = credit_at i (init_system stack cfg)"
    using init_system_queues [OF assms(2)] by (simp add: credit_at_def claims_at_def init_system_def)
  with credit_account [OF assms] show ?thesis by (simp add: credit_at_def claims_at_def)
qed

text \<open>A concrete run: one push, then its wake-up taken with a stale \<^verbatim>\<open>errno\<close>.\<close>

definition demo_init :: rrd_system where
  "demo_init = init_system (\<lambda>_. [nul]) (Some \<lparr>wc_version = 0, wc_num_writers = 1, wc_flush_seconds = 60\<rparr>)"

definition demo_datum :: rrd_datum where
  "demo_datum = datum_of (rs_writer demo_init) 5 ''a'' ''t'' [''1'']"

definition demo_pushed :: rrd_system where
  "demo_pushed = demo_init\<lparr>rs_writer :=
     enqueue_datum (intern_template (intern_filename (rs_writer demo_init) ''a'') ''t'') 0 demo_datum\<rparr>"

definition demo_claimed :: rrd_system where
  "demo_claimed = demo_pushed\<lparr>rs_writer := sem_down (rs_writer demo_pushed) 0,
     rs_pc := (rs_pc demo_pushed)(0 := Claimed)\<rparr>"

lemma demo_size: "length (data_queue (rs_writer demo_init)) = 1" "length (data_queue (rs_writer demo_pushed)) = 1"
  by (simp_all add: demo_init_def init_system_size clamp_num_threads_def demo_pushed_def)

lemma demo_has_queue: "has_queue (init_system (\<lambda>_. [nul])
    (Some \<lparr>wc_version = 0, wc_num_writers = 1, wc_flush_seconds = 60\<rparr>)) 0"
  using demo_size(1) by (simp add: demo_init_def)

lemma demo_push_data:
  "push_data None [] (rs_writer demo_init) 5 ''a'' ''t'' (join_with CHR '':'' [''1'']) = Inr (0, rs_writer demo_pushed)"
proof -
  have "push_data None [] (rs_writer demo_init) 5 ''a'' ''t'' (join_with CHR '':'' [''1'']) =
      Inr (0, enqueue_datum (intern_template (intern_filename (rs_writer demo_init) ''a'') ''t'')
        (queue_of (length (data_queue (rs_writer demo_init))) ''a'') (datum_of (rs_writer demo_init) 5 ''a'' ''t'' [''1'']))"
    using demo_size by (intro push_data_tokens) (auto simp: no_nul_def CONST_STRING_SIZE_def)
  then show ?thesis
    by (simp add: demo_size queue_of_def demo_datum_def demo_pushed_def)
qed

lemma demo_push_step: "rstep demo_init (L_push 0 ''a'' demo_datum) demo_pushed"
proof -
  have "rstep demo_init (L_push 0 ''a'' demo_datum) (demo_init\<lparr>rs_writer := rs_writer demo_pushed\<rparr>)"
    by (rule rstep.r_push [OF demo_push_data]) (simp_all add: demo_size queue_of_def demo_pushed_def datum_queue_enqueue)
  then show ?thesis by (simp add: demo_pushed_def)
qed

lemma demo_pushed_queue: "queue_at demo_pushed 0 = \<lparr>datum_queue = [demo_datum], q_semaphore = 1\<rparr>"
  using init_system_queues [OF demo_has_queue] demo_size(1)
  by (simp add: demo_pushed_def enqueue_queue demo_init_def)

lemma demo_claim_step: "rstep demo_pushed (L_claim 0) demo_claimed"
  unfolding demo_claimed_def
  by (rule rstep.r_claim [where err = Errno_other])
    (auto simp: demo_size demo_pushed_queue wait_branch_def, simp add: demo_pushed_def demo_init_def init_system_def)

lemma demo_claimed_run:
  "lrun rstep (init_system (\<lambda>_. [nul]) (Some \<lparr>wc_version = 0, wc_num_writers = 1, wc_flush_seconds = 60\<rparr>))
     [L_push 0 ''a'' demo_datum, L_claim 0] demo_claimed"
  using lrun_Cons [where step = rstep, OF demo_push_step lrun_one [where step = rstep, OF demo_claim_step]] by (simp add: demo_init_def)

theorem worker_always_finds_datum_witness:
  "rs_pc demo_claimed 0 = Claimed \<and> (\<exists>d w'. worker_take (rs_writer demo_claimed) 0 = Inr (d, w'))"
  using worker_always_finds_datum [OF demo_claimed_run demo_has_queue] by (simp add: demo_claimed_def)

theorem file_updates_in_order_witness:
  "pushes_of ''a'' [L_push 0 ''a'' demo_datum, L_claim 0] = [demo_datum] \<and>
   flight_of ''a'' demo_claimed = [demo_datum]"
proof -
  have "length (file_info (rs_writer demo_claimed)) < 2 ^ 32"
    by (simp add: demo_claimed_def demo_pushed_def demo_init_def init_system_def initialize_def Let_def
        fresh_writer_def intern_filename_def)
  from file_updates_in_order [OF demo_claimed_run this, of "''a''"] show ?thesis by simp
qed

theorem queue_account_witness:
  "length (datum_queue (queue_at demo_claimed 0)) = q_semaphore (queue_at demo_claimed 0) + 1"
  using queue_account [OF demo_claimed_run demo_has_queue] by (simp add: demo_claimed_def)

text \<open>The stranded datum is reachable: after one push and one successful wait that finds the
  old \<^verbatim>\<open>EINTR\<close> in \<^verbatim>\<open>errno\<close>, every worker waits at a zero semaphore while the datum is queued.
\<close>

theorem stranded_datum_reachable:
  "\<exists>s. lrun rstep demo_init [L_push 0 ''a'' demo_datum, L_forfeit 0] s \<and>
     datum_queue (queue_at s 0) = [demo_datum] \<and> q_semaphore (queue_at s 0) = 0 \<and>
     (\<forall>i. rs_pc s i = At_wait)"
proof -
  let ?s = "demo_pushed\<lparr>rs_writer := sem_down (rs_writer demo_pushed) 0\<rparr>"
  have "rs_pc demo_pushed i = At_wait" for i
    by (simp add: demo_pushed_def demo_init_def init_system_def)
  then have "rstep demo_pushed (L_forfeit 0) ?s"
    by (intro rstep.r_forfeit [where err = EINTR]) (auto simp: demo_size demo_pushed_queue wait_branch_def)
  with demo_push_step have "lrun rstep demo_init [L_push 0 ''a'' demo_datum, L_forfeit 0] ?s"
    using lrun_Cons [where step = rstep] lrun_one [where step = rstep] by blast
  moreover have "datum_queue (queue_at ?s 0) = [demo_datum] \<and> q_semaphore (queue_at ?s 0) = 0"
    by (simp add: sem_down_queue demo_size demo_pushed_queue)
  ultimately show ?thesis using \<open>\<And>i. rs_pc demo_pushed i = At_wait\<close> by (intro exI [of _ ?s]) simp
qed

end
