(* ===== verification/Rrd_Drain.thy ===== *)
theory Rrd_Drain
  imports Rrd_Pipeline
begin

text \<open>
  That the RRD writer gets its work done (\<^verbatim>\<open>RRD_Writer_worker::thread_start\<close> of
  \<^verbatim>\<open>src/rrd_writer.cpp\<close>): a queue whose wake-ups were all used can always be emptied by its worker
  alone, whatever the other threads have done, so that every update pushed so far is performed.
\<close>

section \<open>What a turn needs\<close>

text \<open>A datum that names a known file and template, both short enough for the worker's buffers,
  and whose values can be printed.\<close>

definition writable :: "rrd_writer \<Rightarrow> rrd_datum \<Rightarrow> bool" where
  "writable w d \<longleftrightarrow> unat (filename_id d) < length (file_info w) \<and> unat (template_id d) < length (rrd_template w) \<and>
     no_nul (file_of w d) \<and> length (file_of w d) < CONST_STRING_SIZE - 1 \<and>
     no_nul (rrd_template w ! unat (template_id d)) \<and>
     length (rrd_template w ! unat (template_id d)) < CONST_STRING_SIZE - 1 \<and>
     (\<exists>v. format_datum d = Inr v)"

definition worker_ready :: "nat \<Rightarrow> rrd_system \<Rightarrow> bool" where
  "worker_ready i s \<longleftrightarrow> i < length (worker (rs_writer s)) \<and> nul \<in> set (wk_filename (worker (rs_writer s) ! i))"

lemma worker_write_nul: "worker_write env w k d = Inr (k', eff) \<Longrightarrow> nul \<in> set (wk_filename k')"
  by (auto simp: worker_write_def Let_def bind_result_eq_Inr read_buf_def split: if_splits)

lemma worker_ready_step: "rstep s l t \<Longrightarrow> worker_ready i s \<Longrightarrow> worker_ready i t"
proof (cases l)
  case (L_push j f d)
  then show "rstep s l t \<Longrightarrow> worker_ready i s \<Longrightarrow> ?thesis"
    using push_effect(4) [of s j f d t] by (auto simp: worker_ready_def)
next
  case (L_timeout j eff)
  then show "rstep s l t \<Longrightarrow> worker_ready i s \<Longrightarrow> ?thesis"
    by (cases "j = i") (auto elim!: rstep_timeoutE simp: worker_ready_def worker_timeout_def)
next
  case (L_write j f d eff)
  then show "rstep s l t \<Longrightarrow> worker_ready i s \<Longrightarrow> ?thesis"
    using worker_write_nul by (cases "j = i") (auto elim!: rstep_writeE simp: worker_ready_def)
qed (auto elim!: rstep_elims simp: worker_ready_def worker_take_shape)

lemma worker_ready_run: "lrun rstep s tr t \<Longrightarrow> worker_ready i s \<Longrightarrow> worker_ready i t"
  by (induction rule: lrun.induct) (auto intro: worker_ready_step)

lemma worker_ready_init:
  assumes "has_queue (init_system stack cfg) i" "nul \<in> set (stack i)"
  shows "worker_ready i (init_system stack cfg)"
  using assms by (auto simp: worker_ready_def init_system_def initialize_def Let_def fresh_writer_def vector_resize_def)

section \<open>Emptying a queue\<close>

definition drainable :: "nat \<Rightarrow> rrd_system \<Rightarrow> bool" where
  "drainable i s \<longleftrightarrow> has_queue s i \<and> length (datum_queue (queue_at s i)) = credit_at i s \<and> worker_ready i s \<and>
     (\<forall>d \<in> set (in_flight s i). writable (rs_writer s) d)"

text \<open>Three turns of the loop's parts per datum: wait, take, write.\<close>

definition work_left :: "nat \<Rightarrow> rrd_system \<Rightarrow> nat" where
  "work_left i s = 3 * length (datum_queue (queue_at s i)) +
     (case rs_pc s i of At_wait \<Rightarrow> 1 | Claimed \<Rightarrow> 0 | Holding d \<Rightarrow> 2)"

fun own_work :: "nat \<Rightarrow> rlabel \<Rightarrow> bool" where
  "own_work i (L_claim j) \<longleftrightarrow> j = i"
| "own_work i (L_take j d) \<longleftrightarrow> j = i"
| "own_work i (L_write j f d eff) \<longleftrightarrow> j = i"
| "own_work i _ \<longleftrightarrow> False"

lemma own_work_names:
  "rstep s l t \<Longrightarrow> own_work i l \<Longrightarrow>
   file_info (rs_writer t) = file_info (rs_writer s) \<and> rrd_template (rs_writer t) = rrd_template (rs_writer s)"
  by (cases l) (auto elim!: rstep_elims simp: worker_take_shape)

lemma own_work_keeps:
  assumes "rstep s l t" "own_work i l" "drainable i s"
  shows "drainable i t \<and> work_left i t < work_left i s"
proof -
  have hq: "has_queue s i" using assms(3) by (simp add: drainable_def)
  have fr: "file_info (rs_writer t) = file_info (rs_writer s)" "rrd_template (rs_writer t) = rrd_template (rs_writer s)"
    using own_work_names [OF assms(1,2)] by simp_all
  have "set (in_flight t i) \<subseteq> set (in_flight s i)"
    using in_flight_step [OF assms(1) hq] assms(2) by (cases l) auto
  with assms(3) fr have "\<forall>d \<in> set (in_flight t i). writable (rs_writer t) d"
    by (auto simp: drainable_def writable_def file_of_def)
  moreover have "length (datum_queue (queue_at t i)) = credit_at i t \<and> work_left i t < work_left i s"
    using rstep_queue_effect [OF assms(1) hq] assms(2,3)
    by (cases l) (auto simp: drainable_def credit_at_def claims_at_def work_left_def)
  ultimately show ?thesis
    using assms rstep_queues [OF assms(1)] worker_ready_step [OF assms(1), of i] by (simp add: drainable_def)
qed

lemma own_work_possible:
  assumes "drainable i s" "in_flight s i \<noteq> []"
  shows "\<exists>l t. rstep s l t \<and> own_work i l"
proof (cases "rs_pc s i")
  case At_wait
  with assms have "0 < q_semaphore (queue_at s i)"
    by (auto simp: drainable_def in_flight_def credit_at_def claims_at_def simp flip: length_greater_0_conv)
  with At_wait assms have "rstep s (L_claim i)
      (s\<lparr>rs_writer := sem_down (rs_writer s) i, rs_pc := (rs_pc s)(i := Claimed)\<rparr>)"
    by (intro rstep.r_claim [where err = Errno_other]) (auto simp: drainable_def wait_branch_def)
  then show ?thesis by (intro exI conjI) auto
next
  case Claimed
  with assms have "datum_queue (queue_at s i) \<noteq> []"
    by (auto simp: drainable_def credit_at_def claims_at_def)
  then obtain d rest where "datum_queue (queue_at s i) = d # rest" by (cases "datum_queue (queue_at s i)") auto
  with assms obtain w' where "worker_take (rs_writer s) i = Inr (d, w')"
    by (auto simp: worker_take_shape drainable_def)
  from rstep.r_take [OF Claimed this] show ?thesis by (intro exI conjI) auto
next
  case (Holding d)
  then have d: "writable (rs_writer s) d" using assms(1) by (simp add: drainable_def in_flight_def)
  then obtain v where v: "format_datum d = Inr v" by (auto simp: writable_def)
  obtain k' where "worker_write \<lparr>we_rrd_last = (\<lambda>_. 0), we_now = 0, we_rand = 0, we_rrd_update = (\<lambda>_ _ _. 0)\<rparr>
      (rs_writer s) (worker (rs_writer s) ! i) d =
      Inr (k', [Rrd_update (file_of (rs_writer s) d) (rrd_template (rs_writer s) ! unat (template_id d)) v])"
    using worker_write_ok [OF _ refl _ refl _ v] d assms(1)
    by (fastforce simp: writable_def drainable_def worker_ready_def file_of_def)
  from rstep.r_write [OF _ Holding this] assms(1) show ?thesis by (intro exI conjI) (auto simp: drainable_def)
qed

lemma drains:
  "drainable i s \<Longrightarrow>
   \<exists>tr t. lrun rstep s tr t \<and> list_all (own_work i) tr \<and> in_flight t i = [] \<and> drainable i t"
proof (induction "work_left i s" arbitrary: s rule: less_induct)
  case less
  show ?case
  proof (cases "in_flight s i = []")
    case True
    with less.prems show ?thesis by (intro exI [of _ "[]"] exI [of _ s]) (simp add: lrun.lrun_nil)
  next
    case False
    with own_work_possible less.prems obtain l u where u: "rstep s l u" "own_work i l" by blast
    from own_work_keeps [OF u less.prems] have ok: "drainable i u" "work_left i u < work_left i s" by auto
    from less.hyps [OF ok(2,1)] obtain tr t where
      t: "lrun rstep u tr t" "list_all (own_work i) tr" "in_flight t i = []" "drainable i t" by blast
    from lrun_Cons [where step = rstep, OF u(1) t(1)] t u show ?thesis
      by (intro exI [of _ "l # tr"] exI [of _ t]) simp
  qed
qed

lemma own_work_run:
  "lrun rstep s tr t \<Longrightarrow> list_all (own_work i) tr \<Longrightarrow> file_info (rs_writer t) = file_info (rs_writer s) \<and>
    rrd_template (rs_writer t) = rrd_template (rs_writer s) \<and>
    length (data_queue (rs_writer t)) = length (data_queue (rs_writer s))"
proof (induction rule: lrun.induct)
  case (lrun_snoc s tr t l u)
  with own_work_names [OF lrun_snoc.hyps(2)] rstep_queues [OF lrun_snoc.hyps(2)] show ?case by auto
qed simp

lemma own_work_pushes: "list_all (own_work i) tr \<Longrightarrow> pushes_of f tr = []"
  by (induction f tr rule: pushes_of.induct) auto

section \<open>What the collectors push can be written\<close>

text \<open>
  The steps of the system in which a push carries what the collectors send: up to 19 samples, a time
  that fits 64 bits, and a file name and template that fit the worker's buffers.
\<close>

definition pushes_samples :: "rrd_system \<Rightarrow> rlabel \<Rightarrow> rrd_system \<Rightarrow> bool" where
  "pushes_samples s l t \<longleftrightarrow> (case l of
     L_push i f d \<Rightarrow> \<exists>junk time tmpl ss.
       push_data None junk (rs_writer s) time f tmpl (join_with CHR '':'' (map sample_text ss)) = Inr (0, rs_writer t) \<and>
       ss \<noteq> [] \<and> length ss \<le> 19 \<and> list_all sample_ok ss \<and> 0 \<le> time \<and> time < 2 ^ 64 \<and>
       no_nul f \<and> length f < CONST_STRING_SIZE - 1 \<and> no_nul tmpl \<and> length tmpl < CONST_STRING_SIZE - 1
   | _ \<Rightarrow> True)"

definition sample_step :: "rrd_system \<Rightarrow> rlabel \<Rightarrow> rrd_system \<Rightarrow> bool" where
  "sample_step s l t \<longleftrightarrow> rstep s l t \<and> pushes_samples s l t"

lemma sample_run: "lrun sample_step s tr t \<Longrightarrow> lrun rstep s tr t"
  by (induction rule: lrun.induct) (auto simp: sample_step_def intro: lrun.intros)

definition all_writable :: "rrd_system \<Rightarrow> bool" where
  "all_writable s \<longleftrightarrow> pipeline_ok s \<and> template_table_ok (rs_writer s) \<and>
     (\<forall>i. has_queue s i \<longrightarrow> (\<forall>d \<in> set (in_flight s i). writable (rs_writer s) d))"

definition names_fit :: "rrd_system \<Rightarrow> bool" where
  "names_fit s \<longleftrightarrow> length (file_info (rs_writer s)) < 2 ^ 32 \<and> length (rrd_template (rs_writer s)) < 2 ^ 32"

lemma rstep_templates_prefix: "rstep s l t \<Longrightarrow> prefix (rrd_template (rs_writer s)) (rrd_template (rs_writer t))"
proof (cases "\<exists>i f d. l = L_push i f d")
  case True
  then obtain i f d where l: "l = L_push i f d" by blast
  show "rstep s l t \<Longrightarrow> ?thesis"
    using push_effect(4) [of s i f d t] l template_prefix [of "intern_filename (rs_writer s) f"] by fastforce
next
  case False
  then show "rstep s l t \<Longrightarrow> ?thesis" by (cases l) (auto elim!: rstep_elims simp: worker_take_shape)
qed

lemma names_fit_back: "rstep s l t \<Longrightarrow> names_fit t \<Longrightarrow> names_fit s"
  using prefix_length_le [OF rstep_files_prefix] prefix_length_le [OF rstep_templates_prefix]
  unfolding names_fit_def by (meson le_less_trans)

lemma writable_prefix:
  assumes "prefix (file_info w) (file_info w')" "prefix (rrd_template w) (rrd_template w')" "writable w d"
  shows "writable w' d"
proof -
  have ids: "unat (filename_id d) < length (file_info w)" "unat (template_id d) < length (rrd_template w)"
    using assms(3) by (simp_all add: writable_def)
  have "file_of w' d = file_of w d" using assms(1) ids(1) by (rule file_of_prefix)
  moreover have "rrd_template w' ! unat (template_id d) = rrd_template w ! unat (template_id d)"
    using assms(2) ids(2) by (auto simp: prefix_def nth_append)
  ultimately show ?thesis
    using assms(3) ids prefix_length_le [OF assms(1)] prefix_length_le [OF assms(2)] by (simp add: writable_def)
qed

lemma sample_push_writable:
  assumes "sample_step s (L_push i f d) t" "all_writable s" "names_fit s"
  shows "writable (rs_writer t) d \<and> template_table_ok (rs_writer t)"
proof -
  let ?w = "rs_writer s"
  from assms(1) obtain junk time tmpl ss where
    p: "push_data None junk ?w time f tmpl (join_with CHR '':'' (map sample_text ss)) = Inr (0, rs_writer t)"
    and ss: "ss \<noteq> []" "length ss \<le> 19" "\<forall>x \<in> set ss. sample_ok x" "0 \<le> time" "time < 2 ^ 64"
    and nm: "no_nul f" "length f < CONST_STRING_SIZE - 1" "no_nul tmpl" "length tmpl < CONST_STRING_SIZE - 1"
    by (auto simp: sample_step_def pushes_samples_def list_all_iff)
  from assms(1) have st: "rstep s (L_push i f d) t" by (simp add: sample_step_def)
  have ok: "filename_table_ok ?w" "template_table_ok (intern_filename ?w f)" "data_queue ?w \<noteq> []"
    using assms(2) by (auto simp: all_writable_def pipeline_ok_def template_table_ok_def)
  let ?d = "datum_of ?w time f tmpl (map sample_text ss)"
  have "length (join_with CHR '':'' (map sample_text ss)) \<le> length ss * Suc 20"
    using length_join_with [of "map sample_text ss" 20] length_sample_text ss(3) by simp
  then have t: "rs_writer t = enqueue_datum (intern_template (intern_filename ?w f) tmpl)
      (queue_of (length (data_queue ?w)) f) ?d"
    using p push_data_tokens [of ?w "map sample_text ss" junk time f tmpl] ss ok(3) sample_text_token no_nul_sample_text
    by (auto simp: CONST_STRING_SIZE_def)
  have "d = ?d"
    using st t ok(3) by (auto elim!: rstep_pushE simp: datum_queue_enqueue queue_of_less)
  moreover have "format_datum ?d = Inr (join_with CHR '':'' (show_nat (nat time) # map sample_rrd ss))"
    using ss by (intro format_samples) (auto simp: datum_of_def MAX_DS_PER_FILE_def o_def)
  ultimately show ?thesis
    using t nm interned_filename [OF ok(1), of f] interned_template [OF ok(2), of tmpl] assms(3)
    by (auto simp: writable_def file_of_def datum_of_def names_fit_def template_table_ok_def)
qed

lemma all_writable_step:
  assumes "sample_step s l t" "all_writable s" "names_fit s"
  shows "all_writable t"
proof -
  have st: "rstep s l t" using assms(1) by (simp add: sample_step_def)
  have "pipeline_ok t" using pipeline_ok_step [OF st] assms(2,3) by (simp add: all_writable_def names_fit_def)
  moreover have "template_table_ok (rs_writer t)"
  proof (cases "\<exists>i f d. l = L_push i f d")
    case True
    with sample_push_writable assms show ?thesis by blast
  next
    case False
    have "rrd_template (rs_writer t) = rrd_template (rs_writer s) \<and> template_id_map (rs_writer t) = template_id_map (rs_writer s)"
      using st False by (cases l) (auto elim!: rstep_elims simp: worker_take_shape calculate_new_stats_def Let_def sem_down_def)
    with assms(2) show ?thesis by (simp add: all_writable_def template_table_ok_def)
  qed
  moreover have "writable (rs_writer t) d" if i: "has_queue t i" and d: "d \<in> set (in_flight t i)" for i d
  proof (cases "d \<in> set (in_flight s i)")
    case True
    with i assms(2) rstep_queues [OF st] have "writable (rs_writer s) d" by (simp add: all_writable_def)
    then show ?thesis by (rule writable_prefix [OF rstep_files_prefix [OF st] rstep_templates_prefix [OF st]])
  next
    case False
    have "set (in_flight t i) \<subseteq> set (in_flight s i @ (case l of L_push j f d \<Rightarrow> if j = i then [d] else [] | _ \<Rightarrow> []))"
      using in_flight_step [OF st, of i] i rstep_queues [OF st] by auto
    with d False obtain f where "l = L_push i f d" by (auto split: rlabel.splits if_splits)
    with sample_push_writable assms show ?thesis by blast
  qed
  ultimately show ?thesis by (simp add: all_writable_def)
qed

lemma own_work_samples: "lrun rstep s tr t \<Longrightarrow> list_all (own_work i) tr \<Longrightarrow> lrun sample_step s tr t"
proof (induction rule: lrun.induct)
  case (lrun_snoc s tr t l u)
  then have "pushes_samples t l u" by (cases l) (simp_all add: pushes_samples_def)
  with lrun_snoc show ?case by (auto simp: sample_step_def intro: lrun.lrun_snoc)
qed (rule lrun.lrun_nil)

lemma all_writable_run: "lrun sample_step s tr t \<Longrightarrow> all_writable s \<Longrightarrow> names_fit t \<Longrightarrow> all_writable t"
proof (induction rule: lrun.induct)
  case (lrun_snoc s tr t l u)
  then have "names_fit t" using names_fit_back [of t l u] by (simp add: sample_step_def)
  with lrun_snoc all_writable_step show ?case by blast
qed simp

lemma all_writable_init: "all_writable (init_system stack cfg)"
proof -
  have "in_flight (init_system stack cfg) i = []" if "has_queue (init_system stack cfg) i" for i
    using init_system_queues [OF that] by (simp add: in_flight_def init_system_def)
  moreover have "template_table_ok (rs_writer (init_system stack cfg))"
    by (simp add: init_system_def initialize_def Let_def fresh_writer_def template_table_ok_def)
  ultimately show ?thesis by (simp add: all_writable_def init_system_ok)
qed

lemma init_queue_credit:
  "has_queue (init_system stack cfg) i \<Longrightarrow>
   length (datum_queue (queue_at (init_system stack cfg) i)) = credit_at i (init_system stack cfg)"
  using init_system_queues [where stack = stack and cfg = cfg and i = i] by (simp add: credit_at_def claims_at_def init_system_def)

lemma reached_drainable:
  assumes "lrun sample_step (init_system stack cfg) tr s" "names_fit s"
    and "has_queue (init_system stack cfg) i" "forfeits i tr = 0" "nul \<in> set (stack i)"
  shows "drainable i s \<and> all_writable s"
proof -
  have run: "lrun rstep (init_system stack cfg) tr s" using assms(1) by (rule sample_run)
  have aw: "all_writable s" using all_writable_run [OF assms(1) all_writable_init assms(2)] .
  from credit_account [OF run assms(3) init_queue_credit [OF assms(3)]] assms(4)
  have cr: "has_queue s i" "length (datum_queue (queue_at s i)) = credit_at i s" by simp_all
  with aw have "\<forall>d \<in> set (in_flight s i). writable (rs_writer s) d" unfolding all_writable_def by blast
  with cr aw worker_ready_run [OF run worker_ready_init [OF assms(3,5)]] show ?thesis
    unfolding drainable_def by blast
qed

section \<open>Properties\<close>

text \<open>Everything the collectors push can be written: in every state that initialisation, producers of
  samples and workers reach, in any interleaving, as long as no wake-up of the queue of a file was
  thrown away, the worker of that queue alone, without help from any other thread, can go on until
  exactly the updates pushed for the file have been performed, in order, and nothing of its queue is
  left.
\<close>

theorem queue_can_drain:
  assumes "lrun sample_step (init_system stack cfg) tr s" "names_fit s"
    and "i = queue_of (length (data_queue (rs_writer s))) f" "forfeits i tr = 0" "nul \<in> set (stack i)"
  shows "\<exists>tr' t. lrun rstep s tr' t \<and> list_all (own_work i) tr' \<and> in_flight t i = [] \<and>
    writes_of f (tr @ tr') = pushes_of f tr"
proof -
  let ?init = "init_system stack cfg"
  have run: "lrun rstep ?init tr s" using assms(1) by (rule sample_run)
  have files: "length (file_info (rs_writer s)) < 2 ^ 32" using assms(2) by (simp add: names_fit_def)
  have n: "length (data_queue (rs_writer s)) = length (data_queue (rs_writer ?init))"
    using run by (induction rule: lrun.induct) (auto simp: rstep_queues)
  have hq: "has_queue ?init i" using assms(3) n init_system_nonempty by (simp add: queue_of_less)
  from reached_drainable [OF assms(1,2) hq assms(4,5)] have dr: "drainable i s" and aw: "all_writable s" by auto
  from drains [OF dr] obtain tr' t where t: "lrun rstep s tr' t" "list_all (own_work i) tr'" "in_flight t i = []"
    by blast
  from own_work_run [OF t(1,2)] assms(3) t(3) files
  have "length (file_info (rs_writer t)) < 2 ^ 32" "flight_of f t = []" by (simp_all add: flight_of_def)
  with run_order [OF t(1) _, of f] own_work_pushes [OF t(2), of f] run_order [OF run init_system_ok files, of f]
    init_flight aw
  have "writes_of f (tr @ tr') = pushes_of f tr" by (simp add: all_writable_def)
  with t show ?thesis by blast
qed

lemma demo_push_samples: "sample_step demo_init (L_push 0 ''a'' demo_datum) demo_pushed"
proof -
  have "show_nat 1 = ''1''" by code_simp
  then have "push_data None [] (rs_writer demo_init) 5 ''a'' ''t'' (join_with CHR '':'' (map sample_text [Counter 1])) =
      Inr (0, rs_writer demo_pushed)"
    using demo_push_data by simp
  then have "pushes_samples demo_init (L_push 0 ''a'' demo_datum) demo_pushed"
    unfolding pushes_samples_def rlabel.case
    by (intro exI [of _ "[]"] exI [of _ 5] exI [of _ "''t''"] exI [of _ "[Counter 1]"] conjI)
      (simp_all add: no_nul_def CONST_STRING_SIZE_def)
  with demo_push_step show ?thesis by (simp add: sample_step_def)
qed

lemma demo_claimed_samples:
  "lrun sample_step (init_system (\<lambda>_. [nul]) (Some \<lparr>wc_version = 0, wc_num_writers = 1, wc_flush_seconds = 60\<rparr>))
     [L_push 0 ''a'' demo_datum, L_claim 0] demo_claimed"
proof -
  have "sample_step demo_pushed (L_claim 0) demo_claimed"
    using demo_claim_step by (simp add: sample_step_def pushes_samples_def)
  from lrun_Cons [where step = sample_step, OF demo_push_samples lrun_one [where step = sample_step, OF this]]
  show ?thesis by (simp add: demo_init_def)
qed

theorem queue_can_drain_witness:
  "\<exists>tr' t. lrun rstep demo_claimed tr' t \<and> list_all (own_work 0) tr' \<and> in_flight t 0 = [] \<and>
    writes_of ''a'' ([L_push 0 ''a'' demo_datum, L_claim 0] @ tr') = [demo_datum]"
proof -
  have "names_fit demo_claimed" "length (data_queue (rs_writer demo_claimed)) = 1"
    using demo_size(2)
    by (simp_all add: names_fit_def demo_claimed_def demo_pushed_def demo_init_def init_system_def initialize_def Let_def
        fresh_writer_def intern_filename_def intern_template_def)
  then show ?thesis
    using queue_can_drain [OF demo_claimed_samples, of 0 "''a''"] by (simp add: queue_of_def)
qed

end
