(* ===== verification/Round_Writes.thy ===== *)
theory Round_Writes
  imports Collection_Class Rrd_Drain
begin

text \<open>
  What one round of a host (\<^verbatim>\<open>get_collect\<close> of \<^verbatim>\<open>collection_class.cpp\<close>) does to the RRD writer
  (\<^verbatim>\<open>rrd_writer.cpp\<close>): its updates carry times the writer can print, each push is a step of the
  writer, and a worker that takes the datum tells RRD what was pushed.
\<close>

section \<open>The times of a round\<close>

lemma final_time_range:
  assumes "0 \<le> sint now" "0 \<le> sint (mytime h)"
  shows "0 \<le> final_time tt (advance_clock now tt h) \<and> final_time tt (advance_clock now tt h) < 2 ^ 64"
proof -
  have m: "sint m < 2147483648" for m :: "32 word" using sint_lt [of m] by simp
  have d: "0 \<le> uint d \<and> uint d < 4294967296" for d :: "32 word"
    using uint_lt2p [of d] by simp
  show ?thesis
    using assms m [of now] m [of "mytime h"] d [of "(tt - timeticks h) div 100"]
    by (simp add: advance_clock_def final_time_def)
qed

definition printable_time :: "push \<Rightarrow> bool" where
  "printable_time p \<longleftrightarrow> 0 \<le> p_time p \<and> p_time p < 2 ^ 64"

definition clock_ok :: "round_state \<Rightarrow> bool" where
  "clock_ok st \<longleftrightarrow> 0 \<le> sint (mytime (rs_host st)) \<and> list_all printable_time (rs_pushed st)"

lemma handle_values_clock:
  assumes "handle_values ocs rrd_dir now c vals st = Inr (ctl, st')" "clock_ok st" "\<And>j. 0 \<le> sint (now j)"
  shows "clock_ok st'"
proof -
  have "0 \<le> sint (mytime (advance_clock (now j) tt (rs_host st)))" for j tt
    using assms(2,3) by (simp add: clock_ok_def advance_clock_def)
  with assms final_time_range show ?thesis
    by (auto simp: handle_values_def Let_def clock_ok_def printable_time_def split: if_splits)
qed

lemma collect_one_clock:
  assumes "collect_one lib now ocs rrd_dir c st = Inr (ctl, st')" "clock_ok st" "\<And>j. 0 \<le> sint (now j)"
  shows "clock_ok st'"
proof (cases "\<exists>vals. handle_values ocs rrd_dir now c vals (st\<lparr>rs_requests := rs_requests st + 1\<rparr>) = Inr (ctl, st')")
  case True
  moreover have "clock_ok (st\<lparr>rs_requests := rs_requests st + 1\<rparr>)" using assms(2) by (simp add: clock_ok_def)
  ultimately show ?thesis using handle_values_clock assms(3) by blast
next
  case False
  with assms(1,2) show ?thesis
    by (auto simp: collect_one_def Let_def bind_result_eq_Inr clock_ok_def
        split: if_splits option.splits snmp_reply.splits)
qed

lemma collect_all_clock:
  assumes "\<And>j. 0 \<le> sint (now j)"
  shows "collect_all lib now ocs rrd_dir cs st = Inr st' \<Longrightarrow> clock_ok st \<Longrightarrow> clock_ok st'"
proof (induction cs arbitrary: st)
  case (Cons c cs)
  then obtain ctl st1 where one: "collect_one lib now ocs rrd_dir c st = Inr (ctl, st1)"
    and rest: "(case ctl of Goto_done \<Rightarrow> Inr st1 | Next_collection \<Rightarrow> collect_all lib now ocs rrd_dir cs st1) = Inr st'"
    by (auto simp: bind_result_eq_Inr)
  from collect_one_clock [OF one Cons.prems(2) assms] rest Cons.IH show ?case
    by (auto split: after_collection.splits)
qed simp

lemma get_collect_times:
  assumes "get_collect snmp hosts now ocs rrd_dir h = Inr (fvalue, h', ps)"
    and "\<And>j. 0 \<le> sint (now j)" "0 \<le> sint (mytime h)"
  shows "list_all printable_time ps"
proof (cases "ps = []")
  case False
  with assms(1) obtain lib st where
    "collect_all lib now ocs rrd_dir (collection h)
       \<lparr>rs_host = h, rs_fvalue = 0, rs_requests = 0, rs_pushed = []\<rparr> = Inr st" "rs_pushed st = ps"
    by (auto simp: get_collect_def Let_def bind_result_eq_Inr split: option.splits if_splits)
  with collect_all_clock [OF assms(2) this(1)] assms(3) show ?thesis by (simp add: clock_ok_def)
qed simp

section \<open>Pushing a round\<close>

text \<open>The datum of an update: any worker that holds it and has a file name in its buffer tells RRD this.\<close>

definition told_rrd :: "push \<Rightarrow> sample list \<Rightarrow> rrd_effect" where
  "told_rrd p ss = Rrd_update (p_filename p) (p_template p)
     (join_with CHR '':'' (show_nat (nat (p_time p)) # map sample_rrd ss))"

definition tells :: "rrd_writer \<Rightarrow> push \<Rightarrow> sample list \<Rightarrow> rrd_datum \<Rightarrow> bool" where
  "tells w p ss d \<longleftrightarrow> writable w d \<and> file_of w d = p_filename p \<and>
     rrd_template w ! unat (template_id d) = p_template p \<and>
     format_datum d = Inr (join_with CHR '':'' (show_nat (nat (p_time p)) # map sample_rrd ss))"

lemma tells_written:
  assumes "tells w p ss d" "nul \<in> set (wk_filename k)"
  shows "\<exists>k'. worker_write env w k d = Inr (k', [told_rrd p ss])"
  using assms worker_write_ok [of d w "p_filename p" "p_template p" k _ env]
  by (fastforce simp: tells_def writable_def file_of_def told_rrd_def)

lemma tells_prefix:
  assumes "prefix (file_info w) (file_info w')" "prefix (rrd_template w) (rrd_template w')" "tells w p ss d"
  shows "tells w' p ss d"
proof -
  have w: "writable w d" using assms(3) by (simp add: tells_def)
  then have "file_of w' d = file_of w d" using assms(1) by (auto simp: writable_def file_of_prefix)
  moreover have "rrd_template w' ! unat (template_id d) = rrd_template w ! unat (template_id d)"
    using assms(2) w by (auto simp: writable_def prefix_def nth_append)
  ultimately show ?thesis using assms(3) writable_prefix [OF assms(1,2) w] by (simp add: tells_def)
qed

text \<open>An update of the collectors, with the samples in it.\<close>

definition pushable :: "push \<times> sample list \<Rightarrow> bool" where
  "pushable = (\<lambda>(p, ss). p_values p = join_with CHR '':'' (map sample_text ss) \<and> ss \<noteq> [] \<and> length ss \<le> 19 \<and>
     list_all sample_ok ss \<and> printable_time p \<and> no_nul (p_filename p) \<and> length (p_filename p) < 1023 \<and>
     no_nul (p_template p) \<and> length (p_template p) < 1023)"

lemma names_grow: "length (file_info (intern_filename w f)) \<le> Suc (length (file_info w))"
  "length (rrd_template (intern_template w tmpl)) \<le> Suc (length (rrd_template w))"
  by (auto simp: intern_filename_def intern_template_def split: option.split)

lemma push_one:
  assumes "pushable (p, ss)" "all_writable s" "names_fit s"
  shows "\<exists>d t. sample_step s (L_push (queue_of (length (data_queue (rs_writer s))) (p_filename p)) (p_filename p) d) t \<and>
    tells (rs_writer t) p ss d \<and> length (file_info (rs_writer t)) \<le> Suc (length (file_info (rs_writer s))) \<and>
    length (rrd_template (rs_writer t)) \<le> Suc (length (rrd_template (rs_writer s)))"
proof -
  let ?w = "rs_writer s" and ?f = "p_filename p" and ?tm = "p_template p" and ?toks = "map sample_text ss"
  let ?q = "queue_of (length (data_queue ?w)) ?f" and ?d = "datum_of ?w (p_time p) ?f ?tm ?toks"
  let ?w' = "enqueue_datum (intern_template (intern_filename ?w ?f) ?tm) ?q ?d" and ?l = "L_push ?q ?f ?d"
  have ok: "filename_table_ok ?w" "template_table_ok (intern_filename ?w ?f)" "data_queue ?w \<noteq> []"
    using assms(2) by (auto simp: all_writable_def pipeline_ok_def template_table_ok_def)
  have ss: "ss \<noteq> []" "length ss \<le> 19" "\<forall>x \<in> set ss. sample_ok x" "0 \<le> p_time p" "p_time p < 2 ^ 64"
    and nm: "no_nul ?f" "length ?f < CONST_STRING_SIZE - 1" "no_nul ?tm" "length ?tm < CONST_STRING_SIZE - 1"
    and vals: "p_values p = join_with CHR '':'' ?toks"
    using assms(1) by (auto simp: pushable_def printable_time_def list_all_iff CONST_STRING_SIZE_def)
  have "length (join_with CHR '':'' ?toks) \<le> length ss * Suc 20"
    using length_join_with [of ?toks 20] length_sample_text ss(3) by simp
  then have push: "push_data None [] ?w (p_time p) ?f ?tm (join_with CHR '':'' ?toks) = Inr (0, ?w')"
    using ss ok(3) sample_text_token no_nul_sample_text
    by (intro push_data_tokens) (auto simp: CONST_STRING_SIZE_def)
  have "rstep s ?l (s\<lparr>rs_writer := ?w'\<rparr>)"
    by (rule rstep.r_push [OF push]) (use ok(3) in \<open>simp_all add: datum_queue_enqueue queue_of_less\<close>)
  moreover have "pushes_samples s ?l (s\<lparr>rs_writer := ?w'\<rparr>)"
    unfolding pushes_samples_def rlabel.case
    using push ss nm by (intro exI [of _ "[]"] exI [of _ "p_time p"] exI [of _ ?tm] exI [of _ ss]) (simp add: list_all_iff)
  ultimately have st: "sample_step s ?l (s\<lparr>rs_writer := ?w'\<rparr>)" by (simp add: sample_step_def)
  have "format_datum ?d = Inr (join_with CHR '':'' (show_nat (nat (p_time p)) # map sample_rrd ss))"
    using ss by (intro format_samples) (auto simp: datum_of_def MAX_DS_PER_FILE_def o_def)
  then have "tells ?w' p ss ?d"
    using sample_push_writable [OF st assms(2,3)] interned_filename [OF ok(1), of ?f] interned_template [OF ok(2), of ?tm] assms(3)
    by (simp add: tells_def file_of_def datum_of_def names_fit_def)
  with st names_grow [of ?w ?f] names_grow(2) [of "intern_filename ?w ?f" ?tm] show ?thesis
    by (intro exI [of _ ?d] exI [of _ "s\<lparr>rs_writer := ?w'\<rparr>"]) simp
qed

lemma run_names_prefix:
  "lrun rstep s tr t \<Longrightarrow>
   prefix (file_info (rs_writer s)) (file_info (rs_writer t)) \<and> prefix (rrd_template (rs_writer s)) (rrd_template (rs_writer t))"
proof (induction rule: lrun.induct)
  case (lrun_snoc s tr t l u)
  from prefix_order.trans [OF conjunct1 [OF lrun_snoc.IH] rstep_files_prefix [OF lrun_snoc.hyps(2)]]
    prefix_order.trans [OF conjunct2 [OF lrun_snoc.IH] rstep_templates_prefix [OF lrun_snoc.hyps(2)]]
  show ?case by (rule conjI)
qed simp

lemma push_all:
  assumes "list_all pushable us" "all_writable s" "length (file_info (rs_writer s)) + length us < 2 ^ 32"
    and "length (rrd_template (rs_writer s)) + length us < 2 ^ 32"
  shows "\<exists>tr t. lrun sample_step s tr t \<and> all_writable t \<and>
    list_all2 (\<lambda>(p, ss) l. \<exists>d. l = L_push (queue_of (length (data_queue (rs_writer s))) (p_filename p)) (p_filename p) d \<and>
      tells (rs_writer t) p ss d) us tr"
  using assms
proof (induction us arbitrary: s)
  case Nil
  then show ?case by (intro exI [of _ "[]"] exI [of _ s]) (simp add: lrun.lrun_nil)
next
  case (Cons u us)
  obtain p ss where u: "u = (p, ss)" by (cases u)
  let ?q = "queue_of (length (data_queue (rs_writer s))) (p_filename p)"
  from Cons.prems u have fit: "names_fit s" by (simp add: names_fit_def)
  have "pushable (p, ss)" and us: "list_all pushable us" using Cons.prems(1) u by simp_all
  from push_one [OF this(1) Cons.prems(2) fit] obtain d s1 where one: "sample_step s (L_push ?q (p_filename p) d) s1"
    "tells (rs_writer s1) p ss d" "length (file_info (rs_writer s1)) \<le> Suc (length (file_info (rs_writer s)))"
    "length (rrd_template (rs_writer s1)) \<le> Suc (length (rrd_template (rs_writer s)))" by blast
  have r1: "rstep s (L_push ?q (p_filename p) d) s1" using one(1) by (simp add: sample_step_def)
  have "all_writable s1" using all_writable_step [OF one(1) Cons.prems(2) fit] .
  moreover have "length (file_info (rs_writer s1)) + length us < 2 ^ 32"
    "length (rrd_template (rs_writer s1)) + length us < 2 ^ 32"
    using Cons.prems(3,4) one(3,4) by simp_all
  ultimately obtain tr t where rest: "lrun sample_step s1 tr t" "all_writable t"
    "list_all2 (\<lambda>(p, ss) l. \<exists>d. l = L_push (queue_of (length (data_queue (rs_writer s1))) (p_filename p)) (p_filename p) d \<and>
      tells (rs_writer t) p ss d) us tr" using Cons.IH [OF us] by blast
  note pre = run_names_prefix [OF sample_run [OF rest(1)]]
  have "tells (rs_writer t) p ss d" using tells_prefix [OF conjunct1 [OF pre] conjunct2 [OF pre] one(2)] .
  with lrun_Cons [where step = sample_step, OF one(1) rest(1)] rest(2,3) rstep_queues [OF r1] u show ?case
    by (intro exI [of _ "L_push ?q (p_filename p) d # tr"] exI [of _ t]) simp
qed

end
