(* ===== verification/Fair_Runs.thy ===== *)
theory Fair_Runs
  imports Sem_Queue
begin

text \<open>
  Infinite runs and weak fairness: what is needed to say that a queue is served, not only that it
  could be. The locale states what a served queue promises of its steps, and draws the consequence
  once: in a fair run everything that is pending at some moment is served, in order.
\<close>

section \<open>Infinite runs\<close>

definition inf_run :: "('s \<Rightarrow> 'l \<Rightarrow> 's \<Rightarrow> bool) \<Rightarrow> (nat \<Rightarrow> 's) \<Rightarrow> (nat \<Rightarrow> 'l) \<Rightarrow> bool" where
  "inf_run step run ls \<longleftrightarrow> (\<forall>n. step (run n) (ls n) (run (Suc n)))"

text \<open>The labels between two moments of a run.\<close>

definition segment :: "(nat \<Rightarrow> 'l) \<Rightarrow> nat \<Rightarrow> nat \<Rightarrow> 'l list" where
  "segment ls n m = map ls [n..<m]"

text \<open>An action that can be taken from some moment on for ever is taken.\<close>

definition weakly_fair ::
  "('s \<Rightarrow> 'l \<Rightarrow> 's \<Rightarrow> bool) \<Rightarrow> ('s \<Rightarrow> 'l \<Rightarrow> 's \<Rightarrow> bool) \<Rightarrow> (nat \<Rightarrow> 's) \<Rightarrow> (nat \<Rightarrow> 'l) \<Rightarrow> bool" where
  "weakly_fair step action run ls \<longleftrightarrow>
     (\<forall>n. (\<forall>m\<ge>n. \<exists>l t. step (run m) l t \<and> action (run m) l t) \<longrightarrow>
        (\<exists>m\<ge>n. action (run m) (ls m) (run (Suc m))))"

text \<open>An action that can be taken again and again is taken again and again.\<close>

definition strongly_fair ::
  "('s \<Rightarrow> 'l \<Rightarrow> 's \<Rightarrow> bool) \<Rightarrow> ('s \<Rightarrow> 'l \<Rightarrow> 's \<Rightarrow> bool) \<Rightarrow> (nat \<Rightarrow> 's) \<Rightarrow> (nat \<Rightarrow> 'l) \<Rightarrow> bool" where
  "strongly_fair step action run ls \<longleftrightarrow>
     ((\<forall>n. \<exists>m\<ge>n. \<exists>l t. step (run m) l t \<and> action (run m) l t) \<longrightarrow>
      (\<forall>n. \<exists>m\<ge>n. action (run m) (ls m) (run (Suc m))))"

lemma first_time:
  fixes n :: nat
  assumes "m \<ge> n" "P m"
  shows "\<exists>k\<ge>n. P k \<and> (\<forall>j. n \<le> j \<and> j < k \<longrightarrow> \<not> P j)"
  using exists_least_iff [of "\<lambda>k. n \<le> k \<and> P k"] assms by blast

lemma inf_run_step: "inf_run step run ls \<Longrightarrow> step (run n) (ls n) (run (Suc n))"
  by (simp add: inf_run_def)

lemma segment_empty [simp]: "segment ls n n = []"
  by (simp add: segment_def)

lemma segment_Suc: "n \<le> m \<Longrightarrow> segment ls n (Suc m) = segment ls n m @ [ls m]"
  by (simp add: segment_def)

lemma nth_segment: "k < m \<Longrightarrow> segment ls 0 m ! k = ls k"
  by (simp add: segment_def)

lemma segment_append: "n \<le> m \<Longrightarrow> m \<le> k \<Longrightarrow> segment ls n m @ segment ls m k = segment ls n k"
  using upt_add_eq_append [of n m "k - m"] by (simp add: segment_def flip: map_append)

lemma dequeued_segment:
  "m \<le> k \<Longrightarrow> dequeued view (segment ls 0 k) = dequeued view (segment ls 0 m) @ dequeued view (segment ls m k)"
  using segment_append [of 0 m k ls] dequeued_append [of view "segment ls 0 m" "segment ls m k"] by simp

lemma inf_run_lrun:
  assumes "inf_run step run ls"
  shows "n \<le> m \<Longrightarrow> lrun step (run n) (segment ls n m) (run m)"
proof (induction rule: dec_induct)
  case base
  then show ?case by (simp add: lrun.lrun_nil)
next
  case (step m)
  from lrun.lrun_snoc [OF step.IH inf_run_step [OF assms]] step.hyps show ?case
    by (simp add: segment_Suc)
qed

lemma inf_run_invariant:
  assumes "inf_run step run ls" "I (run 0)" "\<And>s l t. I s \<Longrightarrow> step s l t \<Longrightarrow> I t"
  shows "I (run n)"
  by (induction n) (use assms in \<open>auto simp: inf_run_def\<close>)

text \<open>A finite run and an infinite one from where it ends make an infinite one.\<close>

lemma inf_run_Cons:
  assumes "step s l (run 0)" "inf_run step run ls"
  shows "inf_run step (case_nat s run) (case_nat l ls)"
  using assms by (auto simp: inf_run_def split: nat.split)

lemma lrun_then_inf_run:
  "lrun step s tr t \<Longrightarrow> inf_run step run ls \<Longrightarrow> run 0 = t \<Longrightarrow>
   \<exists>run' ls'. inf_run step run' ls' \<and> run' 0 = s \<and> segment ls' 0 (length tr) = tr \<and>
     (\<forall>k. run' (length tr + k) = run k \<and> ls' (length tr + k) = ls k)"
proof (induction arbitrary: run ls rule: lrun.induct)
  case (lrun_nil s)
  then show ?case by (intro exI [of _ run] exI [of _ ls]) simp
next
  case (lrun_snoc s tr t l u)
  from lrun_snoc.hyps(2) lrun_snoc.prems have "inf_run step (case_nat t run) (case_nat l ls)"
    by (intro inf_run_Cons) auto
  from lrun_snoc.IH [OF this] obtain run' ls' where
    r: "inf_run step run' ls'" "run' 0 = s" "segment ls' 0 (length tr) = tr"
      "\<And>k. run' (length tr + k) = case_nat t run k \<and> ls' (length tr + k) = case_nat l ls k" by auto
  have "run' (Suc (length tr) + k) = run k \<and> ls' (Suc (length tr) + k) = ls k" for k
    using r(4) [of "Suc k"] by simp
  moreover have "segment ls' 0 (Suc (length tr)) = tr @ [l]"
    using r(3) r(4) [of 0] by (simp add: segment_Suc)
  ultimately show ?case using r(1,2) by (intro exI [of _ run'] exI [of _ ls']) simp
qed

text \<open>A cycle of steps, repeated.\<close>

definition cycle :: "'a list \<Rightarrow> nat \<Rightarrow> 'a" where
  "cycle xs n = xs ! (n mod length xs)"

lemma cycle_run:
  assumes "xs \<noteq> []" "length ks = length xs"
    and "\<And>i. i < length xs \<Longrightarrow> step (xs ! i) (ks ! i) (xs ! (Suc i mod length xs))"
  shows "inf_run step (cycle xs) (cycle ks)"
  unfolding inf_run_def
proof
  fix n
  have "Suc (n mod length xs) mod length xs = Suc n mod length xs" by (rule mod_Suc_eq)
  with assms(3) [of "n mod length xs"] assms(1,2) show "step (cycle xs n) (cycle ks n) (cycle xs (Suc n))"
    by (simp add: cycle_def)
qed

lemma cycle_again:
  assumes "length ks = length xs" "i < length xs" "action (xs ! i) (ks ! i) (xs ! (Suc i mod length xs))"
  shows "\<exists>m\<ge>n. action (cycle xs m) (cycle ks m) (cycle xs (Suc m))"
proof (intro exI conjI)
  have "0 < length xs" using assms(2) by linarith
  then show "n \<le> n * length xs + i" by (cases "length xs") auto
  have "(n * length xs + i) mod length xs = i" using assms(2) by simp
  moreover from this have "Suc (n * length xs + i) mod length xs = Suc i mod length xs" by (metis mod_Suc_eq)
  ultimately show "action (cycle xs (n * length xs + i)) (cycle ks (n * length xs + i)) (cycle xs (Suc (n * length xs + i)))"
    using assms(1,3) by (simp add: cycle_def)
qed

lemma cycle_weakly_fair:
  "length ks = length xs \<Longrightarrow> i < length xs \<Longrightarrow> action (xs ! i) (ks ! i) (xs ! (Suc i mod length xs)) \<Longrightarrow>
   weakly_fair step action (cycle xs) (cycle ks)"
  using cycle_again [of ks xs i action] by (simp add: weakly_fair_def)

lemma cycle_strongly_fair:
  "length ks = length xs \<Longrightarrow> i < length xs \<Longrightarrow> action (xs ! i) (ks ! i) (xs ! (Suc i mod length xs)) \<Longrightarrow>
   strongly_fair step action (cycle xs) (cycle ks)"
  using cycle_again [of ks xs i action] by (simp add: strongly_fair_def)

section \<open>A served queue\<close>

text \<open>
  \<open>pending\<close> are the items in the order they have to be served, \<open>view\<close> says which steps add one and
  which complete the first, \<open>serve\<close> which steps are work on the first, and \<open>left\<close> how much of that
  work is left at most.
\<close>

locale served_queue =
  fixes step :: "'s \<Rightarrow> 'l \<Rightarrow> 's \<Rightarrow> bool"
    and good :: "'s \<Rightarrow> bool"
    and pending :: "'s \<Rightarrow> 'a list"
    and view :: "'l \<Rightarrow> 'a qop"
    and serve :: "'s \<Rightarrow> 'l \<Rightarrow> 's \<Rightarrow> bool"
    and left :: "'s \<Rightarrow> nat"
  assumes good_step: "good s \<Longrightarrow> step s l t \<Longrightarrow> good t"
    and account: "good s \<Longrightarrow> step s l t \<Longrightarrow> pending s @ enqueued view [l] = dequeued view [l] @ pending t"
    and progress: "good s \<Longrightarrow> step s l t \<Longrightarrow> serve s l t \<Longrightarrow> pending s \<noteq> [] \<Longrightarrow>
      dequeued view [l] = [] \<Longrightarrow> left t < left s"
    and others: "good s \<Longrightarrow> step s l t \<Longrightarrow> \<not> serve s l t \<Longrightarrow> pending s \<noteq> [] \<Longrightarrow>
      dequeued view [l] = [] \<and> left t \<le> left s"
begin

lemma account_run:
  "lrun step s tr t \<Longrightarrow> good s \<Longrightarrow> good t \<and> pending s @ enqueued view tr = dequeued view tr @ pending t"
proof (induction rule: lrun.induct)
  case (lrun_nil s)
  then show ?case by simp
next
  case (lrun_snoc s tr t l u)
  then have IH: "good t" "pending s @ enqueued view tr = dequeued view tr @ pending t" by auto
  have "pending s @ enqueued view (tr @ [l]) = dequeued view tr @ (pending t @ enqueued view [l])"
    using IH(2) by (simp flip: append_assoc)
  also have "\<dots> = dequeued view (tr @ [l]) @ pending u"
    using account [OF IH(1) lrun_snoc.hyps(2)] by simp
  finally show ?case using good_step [OF IH(1) lrun_snoc.hyps(2)] by simp
qed

text \<open>While nobody works on it, the queue waits.\<close>

lemma waits:
  assumes "inf_run step run ls" "good (run n)" "pending (run n) \<noteq> []" "n \<le> m"
    and "\<And>k. n \<le> k \<Longrightarrow> k < m \<Longrightarrow> \<not> serve (run k) (ls k) (run (Suc k))"
  shows "good (run m) \<and> pending (run m) \<noteq> [] \<and> left (run m) \<le> left (run n) \<and> dequeued view (segment ls n m) = []"
  using assms(4,5)
proof (induction rule: dec_induct)
  case base
  with assms show ?case by simp
next
  case (step m)
  then have IH: "good (run m)" "pending (run m) \<noteq> []" "left (run m) \<le> left (run n)"
    "dequeued view (segment ls n m) = []" and ns: "\<not> serve (run m) (ls m) (run (Suc m))" by auto
  note st = inf_run_step [OF assms(1), of m]
  from others [OF IH(1) st ns IH(2)] have "dequeued view [ls m] = []" "left (run (Suc m)) \<le> left (run m)" by auto
  moreover from account [OF IH(1) st] IH(2) this(1) have "pending (run (Suc m)) \<noteq> []" by auto
  ultimately show ?case using IH good_step [OF IH(1) st] step.hyps by (simp add: segment_Suc del: dequeued.simps)
qed

text \<open>A queue with something in it is worked on in the end.\<close>

definition attended :: "(nat \<Rightarrow> 's) \<Rightarrow> (nat \<Rightarrow> 'l) \<Rightarrow> bool" where
  "attended run ls \<longleftrightarrow> (\<forall>n. (\<forall>m\<ge>n. good (run m) \<and> pending (run m) \<noteq> []) \<longrightarrow>
     (\<exists>m\<ge>n. serve (run m) (ls m) (run (Suc m))))"

lemma next_served:
  assumes "inf_run step run ls" "attended run ls"
  shows "good (run n) \<Longrightarrow> pending (run n) \<noteq> [] \<Longrightarrow>
    \<exists>m\<ge>n. dequeued view (segment ls n (Suc m)) = [hd (pending (run n))]"
proof (induction "left (run n)" arbitrary: n rule: less_induct)
  case less
  let ?serves = "\<lambda>k. serve (run k) (ls k) (run (Suc k))"
  have "\<exists>k\<ge>n. ?serves k"
  proof (rule ccontr)
    assume "\<not> ?thesis"
    then have no: "\<And>k. n \<le> k \<Longrightarrow> \<not> ?serves k" by blast
    then have "\<forall>m\<ge>n. good (run m) \<and> pending (run m) \<noteq> []"
      using waits [OF assms(1) less.prems] by blast
    with assms(2) no show False unfolding attended_def by blast
  qed
  then obtain k where k: "n \<le> k" "?serves k" "\<And>j. n \<le> j \<Longrightarrow> j < k \<Longrightarrow> \<not> ?serves j"
    using first_time [of n _ ?serves] by blast
  note st = inf_run_step [OF assms(1), of k]
  have w: "good (run k)" "pending (run k) \<noteq> []" "left (run k) \<le> left (run n)" "dequeued view (segment ls n k) = []"
    using waits [OF assms(1) less.prems k(1,3)] by blast+
  have hd: "hd (pending (run k)) = hd (pending (run n))"
    using account_run [OF inf_run_lrun [OF assms(1) k(1)] less.prems(1)] w(4) less.prems(2)
    by (metis append_Nil hd_append2)
  show ?case
  proof (cases "dequeued view [ls k] = []")
    case False
    then obtain x where "dequeued view [ls k] = [x]" by (auto split: qop.splits)
    moreover from this account [OF w(1) st] w(2) have "x = hd (pending (run k))"
      by (metis append_Cons hd_append2 list.sel(1))
    ultimately show ?thesis using k(1) w(4) hd
      by (intro exI [of _ k]) (simp add: segment_Suc del: dequeued.simps)
  next
    case True
    from progress [OF w(1) st k(2) w(2) True] w(3) have "left (run (Suc k)) < left (run n)" by simp
    moreover have "good (run (Suc k))" "pending (run (Suc k)) \<noteq> []"
      using good_step [OF w(1) st] account [OF w(1) st] True w(2) by auto
    moreover have "hd (pending (run (Suc k))) = hd (pending (run k))"
      using account [OF w(1) st] True w(2) by (metis append_Nil hd_append2)
    ultimately obtain m where m: "Suc k \<le> m" "dequeued view (segment ls (Suc k) (Suc m)) = [hd (pending (run n))]"
      using less.hyps [of "Suc k"] hd by auto
    have "segment ls n (Suc m) = segment ls n k @ [ls k] @ segment ls (Suc k) (Suc m)"
      using segment_append [of n "Suc k" "Suc m" ls] segment_Suc [OF k(1), of ls] k(1) m(1) by simp
    then have "dequeued view (segment ls n (Suc m)) =
        dequeued view (segment ls n k) @ dequeued view [ls k] @ dequeued view (segment ls (Suc k) (Suc m))"
      by (simp split: qop.split)
    with m k(1) w(4) True show ?thesis by (intro exI [of _ m]) (simp del: dequeued.simps)
  qed
qed

lemma all_served:
  assumes "inf_run step run ls" "attended run ls" "good (run n)"
  shows "\<exists>m\<ge>n. dequeued view (segment ls n m) = pending (run n)"
proof -
  have "\<exists>m\<ge>n. dequeued view (segment ls n m) = take j (pending (run n))" if "j \<le> length (pending (run n))" for j
    using that
  proof (induction j)
    case 0
    then show ?case by (intro exI [of _ n]) simp
  next
    case (Suc j)
    then obtain m where m: "n \<le> m" "dequeued view (segment ls n m) = take j (pending (run n))" by auto
    from account_run [OF inf_run_lrun [OF assms(1) m(1)] assms(3)] m(2)
    have g: "good (run m)" and "take j (pending (run n)) @ drop j (pending (run n)) @ enqueued view (segment ls n m) =
        take j (pending (run n)) @ pending (run m)"
      by (simp_all flip: append_assoc)
    then have p: "pending (run m) = drop j (pending (run n)) @ enqueued view (segment ls n m)" by simp
    with Suc.prems have "pending (run m) \<noteq> []" "hd (pending (run m)) = pending (run n) ! j"
      by (simp_all add: hd_drop_conv_nth)
    with next_served [OF assms(1,2) g] obtain k where k: "m \<le> k"
      "dequeued view (segment ls m (Suc k)) = [pending (run n) ! j]" by auto
    have "segment ls n (Suc k) = segment ls n m @ segment ls m (Suc k)"
      using m(1) k(1) by (simp add: segment_append)
    with m k Suc.prems show ?case
      by (intro exI [of _ "Suc k"]) (simp add: take_Suc_conv_app_nth)
  qed
  from this [of "length (pending (run n))"] show ?thesis by simp
qed

end

text \<open>Where the work on a waiting item is never blocked, weak fairness is enough.\<close>

locale ready_queue = served_queue +
  assumes possible: "good s \<Longrightarrow> pending s \<noteq> [] \<Longrightarrow> \<exists>l t. step s l t \<and> serve s l t"
begin

lemma fairly_served:
  assumes "inf_run step run ls" "weakly_fair step serve run ls" "good (run n)"
  shows "\<exists>m\<ge>n. dequeued view (segment ls n m) = pending (run n)"
proof -
  have "attended run ls" using assms(2) possible unfolding attended_def weakly_fair_def by blast
  with assms(1,3) show ?thesis by (intro all_served)
qed

end

end
