(* ===== verification/Rrd_Fair.thy ===== *)
theory Rrd_Fair
  imports Rrd_Drain Fair_Runs
begin

text \<open>
  The RRD writer over time (\<^verbatim>\<open>RRD_Writer_worker::thread_start\<close> of \<^verbatim>\<open>src/rrd_writer.cpp\<close>): in every
  infinite run in which the worker of a queue is scheduled fairly and no wake-up of it is thrown
  away, each update the collectors push is performed sooner or later, whatever they push meanwhile.
\<close>

section \<open>A writer's queue is served\<close>

definition write_view :: "nat \<Rightarrow> rlabel \<Rightarrow> rrd_datum qop" where
  "write_view i l =
     (case l of
        L_push j f d \<Rightarrow> (if j = i then Enqueue d else Other)
      | L_write j f d eff \<Rightarrow> (if j = i then Dequeue d else Other)
      | _ \<Rightarrow> Other)"

text \<open>How many steps its worker needs for the first update of queue \<open>i\<close>, without the write.\<close>

definition turn_left :: "nat \<Rightarrow> rrd_system \<Rightarrow> nat" where
  "turn_left i s = (case rs_pc s i of At_wait \<Rightarrow> 2 | Claimed \<Rightarrow> 1 | Holding d \<Rightarrow> 0)"

abbreviation works_on :: "nat \<Rightarrow> rrd_system \<Rightarrow> rlabel \<Rightarrow> rrd_system \<Rightarrow> bool" where
  "works_on i s l t \<equiv> own_work i l"

text \<open>The collectors' steps, without a lost wake-up at queue \<open>i\<close> and with ids that fit 32 bits.\<close>

definition careful_step :: "nat \<Rightarrow> rrd_system \<Rightarrow> rlabel \<Rightarrow> rrd_system \<Rightarrow> bool" where
  "careful_step i s l t \<longleftrightarrow> sample_step s l t \<and> l \<noteq> L_forfeit i \<and> names_fit t"

definition served_ok :: "nat \<Rightarrow> rrd_system \<Rightarrow> bool" where
  "served_ok i s \<longleftrightarrow> drainable i s \<and> all_writable s \<and> names_fit s"

lemma careful_rstep: "careful_step i s l t \<Longrightarrow> rstep s l t"
  by (simp add: careful_step_def sample_step_def)

lemma served_ok_step:
  assumes "served_ok i s" "careful_step i s l t"
  shows "served_ok i t"
proof -
  note st = careful_rstep [OF assms(2)]
  have d: "has_queue s i" "length (datum_queue (queue_at s i)) = credit_at i s" "worker_ready i s"
    using assms(1) by (simp_all add: served_ok_def drainable_def)
  have "forfeits i [l] = 0" using assms(2) by (cases l) (auto simp: careful_step_def)
  with credit_account [OF lrun_one [where step = rstep, OF st] d(1,2)]
  have t: "has_queue t i" "length (datum_queue (queue_at t i)) = credit_at i t" by auto
  moreover have aw: "all_writable t"
    using all_writable_step assms by (auto simp: served_ok_def careful_step_def)
  moreover from aw t(1) have "\<forall>d \<in> set (in_flight t i). writable (rs_writer t) d"
    unfolding all_writable_def by blast
  ultimately show ?thesis
    using worker_ready_step [OF st d(3)] assms(2) unfolding served_ok_def drainable_def careful_step_def by blast
qed

lemma own_work_careful:
  assumes "served_ok i s" "rstep s l t" "own_work i l"
  shows "careful_step i s l t"
proof -
  note own_work_names [OF assms(2,3)]
  with assms show ?thesis
    by (cases l) (auto simp: careful_step_def sample_step_def pushes_samples_def served_ok_def names_fit_def)
qed

interpretation wq: ready_queue "careful_step i" "served_ok i" "\<lambda>s. in_flight s i" "write_view i" "works_on i" "turn_left i"
  for i
proof unfold_locales
  fix s l t
  assume ok: "served_ok i s" and st: "careful_step i s l t"
  then show "served_ok i t" by (rule served_ok_step)
  have hq: "has_queue s i" using ok by (simp add: served_ok_def drainable_def)
  show "in_flight s i @ enqueued (write_view i) [l] = dequeued (write_view i) [l] @ in_flight t i"
    using in_flight_step [OF careful_rstep [OF st] hq] by (cases l) (auto simp: write_view_def)
  note eff = rstep_queue_effect [OF careful_rstep [OF st] hq]
  show "turn_left i t < turn_left i s" if "own_work i l" "dequeued (write_view i) [l] = []"
    using that eff by (cases l) (auto simp: write_view_def turn_left_def)
  show "dequeued (write_view i) [l] = [] \<and> turn_left i t \<le> turn_left i s" if "\<not> own_work i l"
    using that eff by (cases l) (auto simp: write_view_def turn_left_def)
next
  fix s
  assume "served_ok i s" "in_flight s i \<noteq> []"
  with own_work_possible own_work_careful show "\<exists>l t. careful_step i s l t \<and> own_work i l"
    unfolding served_ok_def by blast
qed

section \<open>One file's updates in a queue\<close>

lemma run_pushed:
  "lrun rstep s tr t \<Longrightarrow> pipeline_ok s \<Longrightarrow> length (file_info (rs_writer t)) < 2 ^ 32 \<Longrightarrow>
   i = queue_of (length (data_queue (rs_writer s))) f \<Longrightarrow>
   (\<forall>d \<in> set (enqueued (write_view i) tr). placed (rs_writer t) i d) \<and>
   filter (\<lambda>d. file_of (rs_writer t) d = f) (enqueued (write_view i) tr) = pushes_of f tr \<and>
   length (data_queue (rs_writer t)) = length (data_queue (rs_writer s))"
proof (induction rule: lrun.induct)
  case (lrun_nil s)
  then show ?case by simp
next
  case (lrun_snoc s tr t l u)
  note st = lrun_snoc.hyps(2)
  have lt: "length (file_info (rs_writer t)) < 2 ^ 32"
    using lrun_snoc.prems(2) prefix_length_le [OF rstep_files_prefix [OF st]] by linarith
  with lrun_snoc have IH: "\<forall>d \<in> set (enqueued (write_view i) tr). placed (rs_writer t) i d"
    "filter (\<lambda>d. file_of (rs_writer t) d = f) (enqueued (write_view i) tr) = pushes_of f tr"
    "length (data_queue (rs_writer t)) = length (data_queue (rs_writer s))" by auto
  have ok: "pipeline_ok t" using run_order [OF lrun_snoc.hyps(1) lrun_snoc.prems(1) lt] by blast
  note n = rstep_queues [OF st]
  note kept = placed_prefix [OF rstep_files_prefix [OF st] n]
  have old: "\<forall>d \<in> set (enqueued (write_view i) tr). placed (rs_writer u) i d"
    using IH(1) kept by blast+
  have "filter (\<lambda>d. file_of (rs_writer u) d = f) (enqueued (write_view i) tr) =
      filter (\<lambda>d. file_of (rs_writer t) d = f) (enqueued (write_view i) tr)"
    using IH(1) kept by (intro filter_cong) auto
  with IH(2) have olds: "filter (\<lambda>d. file_of (rs_writer u) d = f) (enqueued (write_view i) tr) = pushes_of f tr"
    by simp
  have new: "(\<forall>d \<in> set (enqueued (write_view i) [l]). placed (rs_writer u) i d) \<and>
    filter (\<lambda>d. file_of (rs_writer u) d = f) (enqueued (write_view i) [l]) = pushes_of f [l]"
  proof (cases "\<exists>j g d. l = L_push j g d")
    case True
    then obtain j g d where l: "l = L_push j g d" by blast
    with push_placed [OF _ ok lt] st have "placed (rs_writer u) j d" "file_of (rs_writer u) d = g" by auto
    moreover have "j = queue_of (length (data_queue (rs_writer s))) g"
      using push_effect(2) [OF st [unfolded l]] IH(3) by simp
    ultimately show ?thesis using l lrun_snoc.prems(3) by (auto simp: write_view_def)
  qed (auto simp: write_view_def split: rlabel.split)
  from old olds new show ?case using IH(3) n by (simp del: enqueued.simps pushes_of.simps) auto
qed

lemma served_file:
  assumes "lrun rstep s tr t" "pipeline_ok s" "length (file_info (rs_writer t)) < 2 ^ 32"
    and "i = queue_of (length (data_queue (rs_writer s))) f"
    and "in_flight s i @ enqueued (write_view i) tr = dequeued (write_view i) tr @ in_flight t i"
    and "dequeued (write_view i) tr = in_flight s i"
  shows "writes_of f tr = flight_of f s"
proof -
  have "flight_of f t = pushes_of f tr"
    using run_pushed [OF assms(1-4)] assms(4-6) by (simp add: flight_of_def)
  with run_order [OF assms(1-3), of f] show ?thesis by simp
qed

section \<open>Properties\<close>

text \<open>
  C4. Every update is written in the end: in every infinite run of producers of samples, workers and
  statistics that begins with initialisation, in which the worker of the queue of a file is scheduled
  fairly (a step it could take from some moment on for ever is taken) and loses no wake-up, whatever
  has been pushed for the file at any moment has been performed at some later one, in the order it was
  pushed, even if the producers never pause.
\<close>

theorem updates_are_written:
  assumes "run 0 = init_system stack cfg" "inf_run sample_step run ls" "\<And>n. names_fit (run n)"
    and "i = queue_of (length (data_queue (rs_writer (run 0)))) f" "nul \<in> set (stack i)"
    and "\<And>n. ls n \<noteq> L_forfeit i" "weakly_fair rstep (works_on i) run ls"
  shows "\<exists>m\<ge>n. writes_of f (segment ls 0 m) = pushes_of f (segment ls 0 n)"
proof -
  let ?init = "init_system stack cfg"
  have careful: "inf_run (careful_step i) run ls"
    using assms(2,3,6) by (simp add: inf_run_def careful_step_def)
  have rrun: "inf_run rstep run ls" using assms(2) by (simp add: inf_run_def sample_step_def)
  have hq: "has_queue ?init i" using assms(1,4) init_system_nonempty by (simp add: queue_of_less)
  have "drainable i (run 0) \<and> all_writable (run 0)"
    using reached_drainable [OF lrun.lrun_nil _ hq _ assms(5)] assms(1) assms(3) [of 0] by simp
  then have ok0: "served_ok i (run 0)" using assms(3) [of 0] by (simp add: served_ok_def)
  have ok: "served_ok i (run k)" for k
    using inf_run_invariant [where I = "served_ok i", OF careful ok0] served_ok_step by blast
  have "weakly_fair (careful_step i) (works_on i) run ls"
    using assms(7) careful_rstep unfolding weakly_fair_def by blast
  from wq.fairly_served [OF careful this ok [of n]] obtain m where
    m: "n \<le> m" "dequeued (write_view i) (segment ls n m) = in_flight (run n) i" by blast
  have files: "length (file_info (rs_writer (run k))) < 2 ^ 32" for k using assms(3) [of k] by (simp add: names_fit_def)
  have pl: "pipeline_ok (run n)" using ok [of n] by (simp add: served_ok_def all_writable_def)
  have "length (data_queue (rs_writer (run n))) = length (data_queue (rs_writer (run 0)))"
    by (induction n) (simp_all add: rstep_queues [OF inf_run_step [OF rrun]])
  with assms(4) have i: "i = queue_of (length (data_queue (rs_writer (run n)))) f" by simp
  have "writes_of f (segment ls n m) = flight_of f (run n)"
    using served_file [OF inf_run_lrun [OF rrun m(1)] pl files i _ m(2)]
      wq.account_run [OF inf_run_lrun [OF careful m(1)] ok] by blast
  moreover have "pushes_of f (segment ls 0 n) = writes_of f (segment ls 0 n) @ flight_of f (run n)"
    using run_order [OF inf_run_lrun [OF rrun, of 0 n], of f] init_system_ok [of stack cfg] files assms(1)
      init_flight [of f stack cfg] by simp
  ultimately have "writes_of f (segment ls 0 m) = pushes_of f (segment ls 0 n)"
    using segment_append [of 0 n m ls] m(1) writes_of_append [of f "segment ls 0 n" "segment ls n m"] by simp
  with m(1) show ?thesis by blast
qed

lemma names_fit_earlier: "inf_run rstep run ls \<Longrightarrow> names_fit (run (n + k)) \<Longrightarrow> names_fit (run n)"
  by (induction k) (auto simp: inf_run_def intro: names_fit_back)

text \<open>One push, its update, and then only the statistics thread.\<close>

definition stats_run :: "rrd_system \<Rightarrow> nat \<Rightarrow> rrd_system" where
  "stats_run s n = s\<lparr>rs_writer := (calculate_new_stats ^^ n) (rs_writer s)\<rparr>"

lemma stats_run_frame [simp]:
  "data_queue (rs_writer (stats_run s n)) = data_queue (rs_writer s)" "rs_pc (stats_run s n) = rs_pc s"
  "file_info (rs_writer (stats_run s n)) = file_info (rs_writer s)"
  "rrd_template (rs_writer (stats_run s n)) = rrd_template (rs_writer s)"
  by (induction n) (simp_all add: stats_run_def)

lemma stats_run_inf: "inf_run sample_step (stats_run s) (\<lambda>_. L_stats)"
  using rstep.r_stats [of "stats_run s n" for n]
  by (simp add: inf_run_def sample_step_def pushes_samples_def stats_run_def)

lemma own_work_needed:
  assumes "rstep s l t" "own_work i l" "has_queue s i" "length (datum_queue (queue_at s i)) = credit_at i s"
  shows "in_flight s i \<noteq> []"
  using rstep_queue_effect [OF assms(1,3)] assms(2,4)
  by (cases l) (auto simp: in_flight_def credit_at_def claims_at_def)

lemma demo_fair_run:
  "\<exists>run ls. run 0 = demo_init \<and> inf_run sample_step run ls \<and> segment ls 0 2 = [L_push 0 ''a'' demo_datum, L_claim 0] \<and>
    (\<forall>n. names_fit (run n)) \<and> (\<forall>n. ls n \<noteq> L_forfeit 0) \<and> weakly_fair rstep (works_on 0) run ls"
proof -
  have names: "names_fit demo_claimed"
    by (simp add: names_fit_def demo_claimed_def demo_pushed_def demo_init_def init_system_def initialize_def Let_def
        fresh_writer_def intern_filename_def intern_template_def)
  from reached_drainable [OF demo_claimed_samples names demo_has_queue] have "drainable 0 demo_claimed" by simp
  from drains [OF this] obtain tr t where
    t: "lrun rstep demo_claimed tr t" "list_all (own_work 0) tr" "in_flight t 0 = []" "drainable 0 t" by blast
  let ?tr = "[L_push 0 ''a'' demo_datum, L_claim 0] @ tr"
  have "lrun sample_step demo_init ?tr t"
    using lrun_trans [OF own_work_samples [OF t(1,2)] demo_claimed_samples] by (simp add: demo_init_def)
  from lrun_then_inf_run [OF this stats_run_inf [of t]] obtain run ls where
    r: "inf_run sample_step run ls" "run 0 = demo_init" "segment ls 0 (length ?tr) = ?tr"
      "\<And>k. run (length ?tr + k) = stats_run t k \<and> ls (length ?tr + k) = L_stats"
    by (auto simp: stats_run_def)
  have rr: "inf_run rstep run ls" using r(1) by (simp add: inf_run_def sample_step_def)
  have "names_fit t" using own_work_run [OF t(1,2)] names by (simp add: names_fit_def)
  then have "names_fit (run (length ?tr + n))" for n using r(4) [of n] by (simp add: names_fit_def)
  from this [of n for n, unfolded add.commute [of "length ?tr"]]
  have fit: "names_fit (run n)" for n by (rule names_fit_earlier [OF rr])
  have lab: "n < length ?tr \<Longrightarrow> ls n = ?tr ! n" for n
    using nth_segment [of n "length ?tr" ls] unfolding r(3) by (rule sym)
  have "ls n \<noteq> L_forfeit 0" for n
  proof (cases "n < length ?tr")
    case True
    then have "ls n \<in> set ?tr" using lab nth_mem by metis
    then show ?thesis using t(2) by (auto simp: list_all_iff)
  next
    case False
    then obtain k where "n = length ?tr + k" by (metis le_Suc_ex not_less)
    then show ?thesis using r(4) [of k] by simp
  qed
  moreover have "weakly_fair rstep (works_on 0) run ls"
  proof -
    have "\<not> (rstep (stats_run t n) l u \<and> own_work 0 l)" for n l u
      using own_work_needed [of "stats_run t n" l u 0] t(3,4)
      by (auto simp: drainable_def credit_at_def claims_at_def in_flight_def)
    then have "\<not> (\<exists>l u. rstep (run (length ?tr + n)) l u \<and> own_work 0 l)" for n using r(4) by metis
    then show ?thesis unfolding weakly_fair_def by (metis le_add2)
  qed
  moreover have "segment ls 0 2 = [L_push 0 ''a'' demo_datum, L_claim 0]"
    using lab [of 0] lab [of 1] by (simp add: segment_def numeral_2_eq_2)
  ultimately show ?thesis using r(1,2) fit by blast
qed

theorem updates_are_written_witness:
  "\<exists>run ls. run 0 = demo_init \<and> segment ls 0 2 = [L_push 0 ''a'' demo_datum, L_claim 0] \<and>
    (\<exists>m\<ge>2. writes_of ''a'' (segment ls 0 m) = [demo_datum])"
proof -
  obtain run ls where r: "run 0 = demo_init" "inf_run sample_step run ls"
    "segment ls 0 2 = [L_push 0 ''a'' demo_datum, L_claim 0]" "\<And>n. names_fit (run n)" "\<And>n. ls n \<noteq> L_forfeit 0"
    "weakly_fair rstep (works_on 0) run ls" using demo_fair_run by blast
  have "\<exists>m\<ge>2. writes_of ''a'' (segment ls 0 m) = pushes_of ''a'' (segment ls 0 2)"
    using updates_are_written [OF _ r(2,4) _ _ r(5,6), of _ _ "''a''"] r(1) demo_size(1)
    by (simp add: demo_init_def queue_of_def)
  with r(1,3) show ?thesis by auto
qed

end
