(* ===== verification/Collection_Sched.thy ===== *)
theory Collection_Sched
  imports Collection_Class
begin

text \<open>
  The threads of a collection class (\<^verbatim>\<open>collection_class.cpp\<close>): a main thread that queues every
  host once per interval, the workers that take hosts from the queue and collect them, and
  \<^verbatim>\<open>finalize\<close>, which cancels the main thread, replaces the queue by one stop mark (-1) per worker and
  joins the workers. A worker's locked section is one step; the main thread's is split, because
  it may be cancelled inside it. A cancellation acts at the next log call or sleep.
\<close>

section \<open>State\<close>

datatype collector_pc = W_wait | W_lock | W_took nat | W_collect nat | W_exit

text \<open>\<open>M_dead b\<close>: the main thread was cancelled; \<open>b\<close> tells whether it held the lock then.\<close>

datatype main_pc = M_top | M_locked | M_push nat | M_unlock | M_sleep | M_dead bool

datatype finalize_pc = F_idle | F_join | F_done

record pool =
  pending_host_index_queue :: "int list"
  worker_semaphore :: nat
  session_semaphore :: nat
  pool_workers :: "collector_pc list"
  pool_main :: main_pc
  cancel_pending :: bool
  pool_fin :: finalize_pc

definition max_num_workers :: nat where "max_num_workers = 200"

text \<open>\<^verbatim>\<open>initialize\<close> with \<open>n\<close> hosts and \<open>sessions\<close> permits of the session semaphore.\<close>

definition pool_init :: "nat \<Rightarrow> nat \<Rightarrow> pool" where
  "pool_init n sessions =
     \<lparr>pending_host_index_queue = [], worker_semaphore = 0, session_semaphore = sessions,
      pool_workers = replicate (if max_num_workers > n then n else max_num_workers) W_wait,
      pool_main = M_top, cancel_pending = False, pool_fin = F_idle\<rparr>"

definition lock_free :: "pool \<Rightarrow> bool" where
  "lock_free s \<longleftrightarrow> (case pool_main s of M_top \<Rightarrow> True | M_locked \<Rightarrow> False | M_push _ \<Rightarrow> False
     | M_unlock \<Rightarrow> False | M_sleep \<Rightarrow> True | M_dead held \<Rightarrow> \<not> held)"

section \<open>Steps\<close>

datatype pool_label = P_push int | P_take nat int | P_collect nat nat | P_finalize | P_tau

definition set_worker :: "nat \<Rightarrow> collector_pc \<Rightarrow> pool \<Rightarrow> pool" where
  "set_worker i pc s = s\<lparr>pool_workers := (pool_workers s)[i := pc]\<rparr>"

definition at_worker :: "pool \<Rightarrow> nat \<Rightarrow> collector_pc \<Rightarrow> bool" where
  "at_worker s i pc \<longleftrightarrow> i < length (pool_workers s) \<and> pool_workers s ! i = pc"

text \<open>The workers and the main thread of a class with \<open>n\<close> hosts.\<close>

inductive pool_step :: "nat \<Rightarrow> pool \<Rightarrow> pool_label \<Rightarrow> pool \<Rightarrow> bool" for n where
  p_wait: "at_worker s i W_wait \<Longrightarrow> 0 < worker_semaphore s \<Longrightarrow>
     pool_step n s P_tau (set_worker i W_lock (s\<lparr>worker_semaphore := worker_semaphore s - 1\<rparr>))"
| p_take: "at_worker s i W_lock \<Longrightarrow> lock_free s \<Longrightarrow> pending_host_index_queue s = x # q \<Longrightarrow>
     pool_step n s (P_take i x)
       (set_worker i (if x = - 1 then W_exit else W_took (nat x)) (s\<lparr>pending_host_index_queue := q\<rparr>))"
| p_session: "at_worker s i (W_took k) \<Longrightarrow> 0 < session_semaphore s \<Longrightarrow>
     pool_step n s P_tau (set_worker i (W_collect k) (s\<lparr>session_semaphore := session_semaphore s - 1\<rparr>))"
| p_collect: "at_worker s i (W_collect k) \<Longrightarrow>
     pool_step n s (P_collect i k) (set_worker i W_wait (s\<lparr>session_semaphore := Suc (session_semaphore s)\<rparr>))"
| m_lock: "pool_main s = M_top \<Longrightarrow> pool_step n s P_tau (s\<lparr>pool_main := M_locked\<rparr>)"
| m_not_empty: "pool_main s = M_locked \<Longrightarrow> pending_host_index_queue s \<noteq> [] \<Longrightarrow>
     pool_step n s P_tau (s\<lparr>pool_main := M_unlock\<rparr>)"
| m_empty: "pool_main s = M_locked \<Longrightarrow> pending_host_index_queue s = [] \<Longrightarrow>
     pool_step n s P_tau (s\<lparr>pool_main := M_push 0\<rparr>)"
| m_push: "pool_main s = M_push k \<Longrightarrow> k < n \<Longrightarrow>
     pool_step n s (P_push (int k))
       (s\<lparr>pending_host_index_queue := pending_host_index_queue s @ [int k],
          worker_semaphore := Suc (worker_semaphore s), pool_main := M_push (Suc k)\<rparr>)"
| m_pushed: "pool_main s = M_push k \<Longrightarrow> \<not> k < n \<Longrightarrow> pool_step n s P_tau (s\<lparr>pool_main := M_unlock\<rparr>)"
| m_unlock: "pool_main s = M_unlock \<Longrightarrow> pool_step n s P_tau (s\<lparr>pool_main := M_sleep\<rparr>)"
| m_wake: "pool_main s = M_sleep \<Longrightarrow> pool_step n s P_tau (s\<lparr>pool_main := M_top\<rparr>)"
| m_cancelled: "cancel_pending s \<Longrightarrow> pool_main s = M_top \<or> pool_main s = M_sleep \<Longrightarrow>
     pool_step n s P_tau (s\<lparr>pool_main := M_dead False\<rparr>)"
| m_cancelled_locked: "cancel_pending s \<Longrightarrow> pool_main s = M_locked \<Longrightarrow> pending_host_index_queue s \<noteq> [] \<Longrightarrow>
     pool_step n s P_tau (s\<lparr>pool_main := M_dead True\<rparr>)"

text \<open>The same with the thread that finalizes the class.\<close>

inductive class_step :: "nat \<Rightarrow> pool \<Rightarrow> pool_label \<Rightarrow> pool \<Rightarrow> bool" for n where
  c_pool: "pool_step n s l t \<Longrightarrow> class_step n s l t"
| c_finalize: "pool_fin s = F_idle \<Longrightarrow> lock_free s \<Longrightarrow>
     class_step n s P_finalize
       (s\<lparr>cancel_pending := True,
          pending_host_index_queue := replicate (length (pool_workers s)) (- 1),
          worker_semaphore := worker_semaphore s + length (pool_workers s), pool_fin := F_join\<rparr>)"
| c_joined: "pool_fin s = F_join \<Longrightarrow> (\<forall>pc \<in> set (pool_workers s). pc = W_exit) \<Longrightarrow>
     class_step n s P_tau (s\<lparr>pool_fin := F_done\<rparr>)"

section \<open>Before the shutdown\<close>

definition count_pc :: "(collector_pc \<Rightarrow> bool) \<Rightarrow> pool \<Rightarrow> nat" where
  "count_pc P s = length (filter P (pool_workers s))"

abbreviation at_lock :: "pool \<Rightarrow> nat" where "at_lock \<equiv> count_pc (\<lambda>pc. pc = W_lock)"

lemma count_pc_set_worker:
  "at_worker s i pc \<Longrightarrow>
   count_pc P (set_worker i pc' s) + (if P pc then 1 else 0) = count_pc P s + (if P pc' then 1 else 0)"
  using length_filter_update [of i "pool_workers s" P pc']
  by (simp add: count_pc_def at_worker_def set_worker_def)

lemma pool_upd_simps [simp]:
  "at_worker (worker_semaphore_update f s) i = at_worker s i"
  "at_worker (session_semaphore_update f s) i = at_worker s i"
  "at_worker (pending_host_index_queue_update g s) i = at_worker s i"
  "count_pc P (worker_semaphore_update f s) = count_pc P s"
  "count_pc P (session_semaphore_update f s) = count_pc P s"
  "count_pc P (pending_host_index_queue_update g s) = count_pc P s"
  "count_pc P (pool_main_update m s) = count_pc P s"
  "count_pc P (cancel_pending_update b s) = count_pc P s"
  "count_pc P (pool_fin_update c s) = count_pc P s"
  by (simp_all add: at_worker_def count_pc_def fun_eq_iff)

lemma set_worker_simps [simp]:
  "pending_host_index_queue (set_worker i pc s) = pending_host_index_queue s"
  "worker_semaphore (set_worker i pc s) = worker_semaphore s"
  "session_semaphore (set_worker i pc s) = session_semaphore s"
  "pool_main (set_worker i pc s) = pool_main s"
  "cancel_pending (set_worker i pc s) = cancel_pending s"
  "pool_fin (set_worker i pc s) = pool_fin s"
  "length (pool_workers (set_worker i pc s)) = length (pool_workers s)"
  by (simp_all add: set_worker_def)

fun pool_view :: "pool_label \<Rightarrow> int qop" where
  "pool_view (P_push x) = Enqueue x"
| "pool_view (P_take i x) = Dequeue x"
| "pool_view _ = Other"

interpretation pq: sem_queue pending_host_index_queue "\<lambda>s. worker_semaphore s + at_lock s" at_lock
  "pool_step n" pool_view "\<lambda>_. True" for n
proof unfold_locales
  fix s l t x
  assume "pool_step n s l t" "pool_view l = Enqueue x"
  then show "pending_host_index_queue t = pending_host_index_queue s @ [x] \<and>
      worker_semaphore t + at_lock t \<le> Suc (worker_semaphore s + at_lock s)"
    by (cases rule: pool_step.cases) auto
next
  fix s l t x
  assume "pool_step n s l t" "pool_view l = Dequeue x"
  then show "pending_host_index_queue s = x # pending_host_index_queue t \<and>
      Suc (worker_semaphore t + at_lock t) \<le> worker_semaphore s + at_lock s"
  proof (cases rule: pool_step.cases)
    case (p_take i y q)
    then show ?thesis
      using count_pc_set_worker [of "s\<lparr>pending_host_index_queue := q\<rparr>" i W_lock "\<lambda>pc. pc = W_lock"
          "if y = - 1 then W_exit else W_took (nat y)"] \<open>pool_view l = Dequeue x\<close> by auto
  qed auto
next
  fix s l t
  assume step: "pool_step n s l t" "pool_view l = Other"
  from this(1) show "pending_host_index_queue t = pending_host_index_queue s \<and>
      worker_semaphore t + at_lock t \<le> worker_semaphore s + at_lock s"
  proof (cases rule: pool_step.cases)
    case (p_wait i)
    then show ?thesis
      using count_pc_set_worker [of "s\<lparr>worker_semaphore := worker_semaphore s - 1\<rparr>" i W_wait "\<lambda>pc. pc = W_lock" W_lock]
      by simp
  next
    case (p_session i k)
    then show ?thesis
      using count_pc_set_worker [of "s\<lparr>session_semaphore := session_semaphore s - 1\<rparr>" i "W_took k" "\<lambda>pc. pc = W_lock" "W_collect k"]
      by simp
  next
    case (p_collect i k)
    then show ?thesis
      using count_pc_set_worker [of "s\<lparr>session_semaphore := Suc (session_semaphore s)\<rparr>" i "W_collect k" "\<lambda>pc. pc = W_lock" W_wait]
      by simp
  qed (use step(2) in auto)
qed auto

definition rounds :: "nat \<Rightarrow> nat \<Rightarrow> nat \<Rightarrow> int list" where
  "rounds n r k = concat (replicate r (map int [0..<n])) @ map int [0..<k]"

lemma rounds_push: "rounds n r k @ [int k] = rounds n r (Suc k)"
  by (simp add: rounds_def)

lemma rounds_done: "rounds n r n = rounds n (Suc r) 0"
proof -
  have "concat (replicate r xs) @ xs = xs @ concat (replicate r xs)" for xs :: "int list"
    by (induction r) auto
  then show ?thesis by (simp add: rounds_def)
qed

lemma pushed_in_rounds:
  "lrun (pool_step n) (pool_init n sessions) tr s \<Longrightarrow>
   \<exists>r k. enqueued pool_view tr = rounds n r k \<and>
     (case pool_main s of M_push j \<Rightarrow> k = j \<and> k \<le> n | _ \<Rightarrow> k = 0)"
proof (induction s' \<equiv> "pool_init n sessions" tr s rule: lrun.induct)
  case lrun_nil
  then show ?case by (auto simp: rounds_def pool_init_def intro: exI [of _ 0])
next
  case (lrun_snoc tr t l u)
  then obtain r k where IH: "enqueued pool_view tr = rounds n r k"
    "case pool_main t of M_push j \<Rightarrow> k = j \<and> k \<le> n | _ \<Rightarrow> k = 0" by blast
  from lrun_snoc.hyps(3) show ?case
  proof (cases rule: pool_step.cases)
    case (m_push j)
    with IH show ?thesis by (auto simp: rounds_push intro!: exI [of _ r])
  next
    case (m_pushed j)
    with IH show ?thesis using rounds_done by (auto intro!: exI [of _ "Suc r"])
  qed (use IH in \<open>auto intro!: exI [of _ r] split: main_pc.splits\<close>)
qed

lemma queue_within_round:
  "lrun (pool_step n) (pool_init n sessions) tr s \<Longrightarrow>
   length (pending_host_index_queue s) \<le> (case pool_main s of M_push j \<Rightarrow> min j n | _ \<Rightarrow> n)"
proof (induction s' \<equiv> "pool_init n sessions" tr s rule: lrun.induct)
  case lrun_nil
  then show ?case by (simp add: pool_init_def)
next
  case (lrun_snoc tr t l u)
  from lrun_snoc.hyps(3) lrun_snoc.hyps(2) show ?case
    by (cases rule: pool_step.cases) (auto simp: lock_free_def split: main_pc.splits)
qed

lemma rounds_taken:
  assumes "lrun (pool_step n) (pool_init n sessions) tr s"
  shows "\<exists>r k. k \<le> n \<and> dequeued pool_view tr @ pending_host_index_queue s = rounds n r k \<and>
    length (pending_host_index_queue s) \<le> n"
proof -
  obtain r k where "enqueued pool_view tr = rounds n r k" "k \<le> n"
    using pushed_in_rounds [OF assms] by (fastforce split: main_pc.splits)
  moreover have "enqueued pool_view tr = dequeued pool_view tr @ pending_host_index_queue s"
    using pq.fifo [OF assms] by (simp add: pool_init_def)
  moreover have "length (pending_host_index_queue s) \<le> n"
    using queue_within_round [OF assms] by (auto split: main_pc.splits)
  ultimately show ?thesis by metis
qed

text \<open>
  C17. Until it is shut down, a collection class serves its hosts in rounds, whatever the
  interleaving: the indices workers have taken, followed by those still queued, are whole rounds
  0, 1, ..., n-1 and the beginning of one more; so within a round every host is taken exactly once
  and in order, none is lost, and at most one round is ever queued.
\<close>

theorem hosts_taken_in_rounds:
  assumes "lrun (pool_step n) (pool_init n sessions) tr s"
  shows "\<exists>r k. k \<le> n \<and> dequeued pool_view tr @ pending_host_index_queue s = rounds n r k \<and>
    length (pending_host_index_queue s) \<le> n"
  using assms by (rule rounds_taken)

section \<open>The shutdown\<close>

abbreviation live :: "pool \<Rightarrow> nat" where "live \<equiv> count_pc (\<lambda>pc. pc \<noteq> W_exit)"
abbreviation collecting :: "pool \<Rightarrow> nat" where "collecting \<equiv> count_pc (\<lambda>pc. \<exists>k. pc = W_collect k)"

definition class_ok :: "nat \<Rightarrow> pool \<Rightarrow> bool" where
  "class_ok sessions s \<longleftrightarrow>
     session_semaphore s + collecting s = sessions \<and>
     (if pool_fin s = F_idle
      then worker_semaphore s + at_lock s \<le> length (pending_host_index_queue s) \<and>
           live s = length (pool_workers s) \<and> - 1 \<notin> set (pending_host_index_queue s)
      else live s = 0 \<or>
           (pending_host_index_queue s = replicate (live s) (- 1) \<and>
            live s \<le> worker_semaphore s + at_lock s \<and> (\<forall>k. pool_main s \<noteq> M_push k)))"

lemma count_pc_pos: "at_worker s i pc \<Longrightarrow> P pc \<Longrightarrow> 0 < count_pc P s"
  by (auto simp: count_pc_def at_worker_def length_filter_conv_card card_gt_0_iff)

lemma class_ok_worker:
  assumes ok: "class_ok sessions s" and pc: "at_worker s i pc" "pc \<noteq> W_exit" and pc': "pc' \<noteq> W_exit"
    and sem: "worker_semaphore t + (if pc' = W_lock then 1 else 0) = worker_semaphore s + (if pc = W_lock then 1 else 0)"
    and sess: "session_semaphore t + (if \<exists>k. pc' = W_collect k then 1 else 0) =
      session_semaphore s + (if \<exists>k. pc = W_collect k then 1 else 0)"
    and same: "pending_host_index_queue t = pending_host_index_queue s" "pool_main t = pool_main s"
      "pool_fin t = pool_fin s" "pool_workers t = pool_workers s"
  shows "class_ok sessions (set_worker i pc' t)"
proof -
  have t: "at_worker t i pc" "\<And>P. count_pc P t = count_pc P s"
    using pc same by (simp_all add: at_worker_def count_pc_def)
  have "at_lock (set_worker i pc' t) + (if pc = W_lock then 1 else 0) = at_lock s + (if pc' = W_lock then 1 else 0)"
    "live (set_worker i pc' t) = live s"
    "collecting (set_worker i pc' t) + (if \<exists>k. pc = W_collect k then 1 else 0) =
      collecting s + (if \<exists>k. pc' = W_collect k then 1 else 0)"
    using count_pc_set_worker [OF t(1), of "\<lambda>pc. pc = W_lock" pc'] pc pc'
      count_pc_set_worker [OF t(1), of "\<lambda>pc. pc \<noteq> W_exit" pc']
      count_pc_set_worker [OF t(1), of "\<lambda>pc. \<exists>k. pc = W_collect k" pc'] t(2) by simp_all
  moreover have "worker_semaphore t + at_lock (set_worker i pc' t) = worker_semaphore s + at_lock s"
    using calculation(1) sem by linarith
  moreover have "session_semaphore t + collecting (set_worker i pc' t) = session_semaphore s + collecting s"
    using calculation(3) sess by linarith
  ultimately show ?thesis using ok same by (simp add: class_ok_def)
qed

lemma class_ok_take:
  assumes ok: "class_ok sessions s" and at: "at_worker s i W_lock" and q: "pending_host_index_queue s = x # q"
  shows "class_ok sessions
    (set_worker i (if x = - 1 then W_exit else W_took (nat x)) (s\<lparr>pending_host_index_queue := q\<rparr>))"
    (is "class_ok _ ?t")
proof -
  let ?pc = "if x = - 1 then W_exit else W_took (nat x)" and ?s = "s\<lparr>pending_host_index_queue := q\<rparr>"
  have at': "at_worker ?s i W_lock" using at by simp
  have lock: "at_lock ?t + 1 = at_lock s" and coll: "collecting ?t = collecting s"
    and live: "live ?t + 1 = live s + (if x = - 1 then 0 else 1)"
    using count_pc_set_worker [OF at', of "\<lambda>pc. pc = W_lock" ?pc]
      count_pc_set_worker [OF at', of "\<lambda>pc. \<exists>k. pc = W_collect k" ?pc]
      count_pc_set_worker [OF at', of "\<lambda>pc. pc \<noteq> W_exit" ?pc] by (auto split: if_splits)
  have pos: "0 < live s" using count_pc_pos [OF at] by simp
  show ?thesis
  proof (cases "pool_fin s = F_idle")
    case True
    with ok q have "x \<noteq> - 1" by (auto simp: class_ok_def)
    with True ok q lock coll live show ?thesis by (auto simp: class_ok_def)
  next
    case False
    with ok pos have "pending_host_index_queue s = replicate (live s) (- 1)"
      "live s \<le> worker_semaphore s + at_lock s" "\<forall>k. pool_main s \<noteq> M_push k"
      by (auto simp: class_ok_def)
    moreover from this(1) q have "x = - 1" "q = replicate (live s - 1) (- 1)"
      by (cases "live s"; simp)+
    ultimately show ?thesis using False ok lock coll live by (auto simp: class_ok_def)
  qed
qed

lemma pool_step_ok:
  assumes "class_ok sessions s" "pool_step n s l t"
  shows "class_ok sessions t"
  using assms(2)
proof (cases rule: pool_step.cases)
  case (p_take i x q)
  with class_ok_take [OF assms(1)] show ?thesis by simp
next
  case (p_wait i)
  with class_ok_worker [OF assms(1), of i W_wait W_lock "s\<lparr>worker_semaphore := worker_semaphore s - 1\<rparr>"]
  show ?thesis by simp
next
  case (p_session i k)
  with class_ok_worker [OF assms(1), of i "W_took k" "W_collect k" "s\<lparr>session_semaphore := session_semaphore s - 1\<rparr>"]
  show ?thesis by simp
next
  case (p_collect i k)
  with class_ok_worker [OF assms(1), of i "W_collect k" W_wait "s\<lparr>session_semaphore := Suc (session_semaphore s)\<rparr>"]
  show ?thesis by simp
next
  case (m_push k)
  with assms(1) show ?thesis by (auto simp: class_ok_def split: if_splits)
next
  case m_empty
  with assms(1) show ?thesis by (auto simp: class_ok_def split: if_splits)
qed (use assms(1) in \<open>auto simp: class_ok_def split: if_splits\<close>)

lemma class_step_ok:
  assumes "class_ok sessions s" "class_step n s l t"
  shows "class_ok sessions t"
  using assms(2)
proof (cases rule: class_step.cases)
  case c_pool
  with assms(1) show ?thesis by (blast intro: pool_step_ok)
next
  case c_finalize
  then have "\<forall>k. pool_main s \<noteq> M_push k" by (auto simp: lock_free_def)
  with c_finalize assms(1) show ?thesis by (auto simp: class_ok_def)
next
  case c_joined
  with assms(1) show ?thesis by (auto simp: class_ok_def)
qed

lemma pool_init_ok: "class_ok sessions (pool_init n sessions)"
  by (simp add: class_ok_def pool_init_def count_pc_def)

lemma class_run_ok:
  "lrun (class_step n) (pool_init n sessions) tr s \<Longrightarrow> class_ok sessions s"
  by (erule lrun_invariant [where I = "class_ok sessions"]) (auto intro: pool_init_ok class_step_ok)

text \<open>
  C12. No worker ever calls \<^verbatim>\<open>front()\<close> on an empty queue, before, during or after a shutdown,
  although \<^verbatim>\<open>finalize\<close> empties the queue without taking back the semaphore's posts; and never more
  hosts are collected at once than the session semaphore has permits.
\<close>

theorem collector_never_underflows:
  assumes "lrun (class_step n) (pool_init n sessions) tr s"
  shows "(at_worker s i W_lock \<longrightarrow> pending_host_index_queue s \<noteq> []) \<and> collecting s \<le> sessions"
proof
  from assms have ok: "class_ok sessions s" by (rule class_run_ok)
  then show "collecting s \<le> sessions" by (auto simp: class_ok_def)
  show "at_worker s i W_lock \<longrightarrow> pending_host_index_queue s \<noteq> []"
  proof
    assume "at_worker s i W_lock"
    then have "0 < at_lock s" "0 < live s" by (auto intro: count_pc_pos)
    with ok show "pending_host_index_queue s \<noteq> []" by (auto simp: class_ok_def split: if_splits)
  qed
qed

fun pc_weight :: "collector_pc \<Rightarrow> nat" where
  "pc_weight (W_took _) = 4" | "pc_weight (W_collect _) = 3" | "pc_weight W_wait = 2"
| "pc_weight W_lock = 1" | "pc_weight W_exit = 0"

definition weight :: "pool \<Rightarrow> nat" where
  "weight s = sum_list (map pc_weight (pool_workers s))"

lemma weight_set_worker:
  "at_worker s i pc \<Longrightarrow> pool_workers t = pool_workers s \<Longrightarrow> pc_weight pc' < pc_weight pc \<Longrightarrow>
   weight (set_worker i pc' t) < weight s"
  using sum_list_update_nat [of i "pool_workers s" pc_weight pc']
  by (simp add: weight_def at_worker_def set_worker_def)

lemma some_worker_moves:
  assumes ok: "class_ok sessions s" and fin: "pool_fin s = F_join" and free: "lock_free s"
    and "0 < sessions" and live: "0 < live s"
  shows "\<exists>l t. pool_step n s l t \<and> weight t < weight s \<and> lock_free t \<and> pool_fin t = F_join"
proof -
  from ok fin live have q: "pending_host_index_queue s = replicate (live s) (- 1)"
    and sem: "live s \<le> worker_semaphore s + at_lock s" by (auto simp: class_ok_def)
  have locks: "lock_free (set_worker i pc t) = lock_free s" if "pool_main t = pool_main s" for i pc t
    using that by (simp add: lock_free_def)
  consider (lock) i where "at_worker s i W_lock" | (coll) i k where "at_worker s i (W_collect k)"
    | (took) i k where "at_worker s i (W_took k)" "collecting s = 0"
    | (wait) i where "at_worker s i W_wait" "at_lock s = 0"
    using live by (auto simp: count_pc_def at_worker_def length_filter_conv_card card_gt_0_iff)
      (metis collector_pc.exhaust)
  then show ?thesis
  proof cases
    case lock
    then have "pool_step n s (P_take i (- 1)) (set_worker i W_exit (s\<lparr>pending_host_index_queue := replicate (live s - 1) (- 1)\<rparr>))"
      using p_take [OF lock free, of "- 1"] q live by (cases "live s") auto
    then show ?thesis using weight_set_worker [OF lock] locks free fin by (fastforce simp del: replicate.simps)
  next
    case coll
    then show ?thesis using p_collect [OF coll] weight_set_worker [OF coll] locks free fin by fastforce
  next
    case took
    with ok \<open>0 < sessions\<close> have "0 < session_semaphore s" by (simp add: class_ok_def)
    with took show ?thesis using p_session [OF took(1)] weight_set_worker [OF took(1)] locks free fin by fastforce
  next
    case wait
    with sem live have "0 < worker_semaphore s" by simp
    with wait show ?thesis using p_wait [OF wait(1)] weight_set_worker [OF wait(1)] locks free fin by fastforce
  qed
qed

lemma workers_drain:
  "class_ok sessions s \<Longrightarrow> pool_fin s = F_join \<Longrightarrow> lock_free s \<Longrightarrow> 0 < sessions \<Longrightarrow>
   \<exists>tr t. lrun (class_step n) s tr t \<and> pool_fin t = F_join \<and> live t = 0"
proof (induction "weight s" arbitrary: s rule: less_induct)
  case less
  show ?case
  proof (cases "live s = 0")
    case True
    with less.prems show ?thesis using lrun_nil [of "class_step n" s] by blast
  next
    case False
    with some_worker_moves [OF less.prems, of n] obtain l u where
      u: "pool_step n s l u" "weight u < weight s" "lock_free u" "pool_fin u = F_join" by auto
    with less.hyps [OF u(2)] less.prems pool_step_ok obtain tr t where
      "lrun (class_step n) u tr t" "pool_fin t = F_join" "live t = 0" by metis
    with lrun_Cons [where step = "class_step n", OF c_pool [OF u(1)]] show ?thesis by blast
  qed
qed

lemma main_lets_go:
  assumes ok: "class_ok sessions s" and fin: "pool_fin s = F_join" and live: "0 < live s"
    and alive: "pool_main s \<noteq> M_dead True"
  shows "\<exists>tr t. lrun (class_step n) s tr t \<and> lock_free t \<and> pool_fin t = F_join"
proof -
  have unlock: "\<exists>t. class_step n u P_tau t \<and> lock_free t \<and> pool_fin t = F_join"
    if "pool_main u = M_unlock" "pool_fin u = F_join" for u
    using c_pool [OF m_unlock [OF that(1), of n]] that by (fastforce simp: lock_free_def)
  show ?thesis
  proof (cases "pool_main s")
    case M_locked
    with ok fin live have "pending_host_index_queue s \<noteq> []" by (auto simp: class_ok_def)
    from c_pool [OF m_not_empty [OF M_locked this, of n]] unlock [of "s\<lparr>pool_main := M_unlock\<rparr>"] fin
    show ?thesis by simp (blast intro: lrun_Cons [where step = "class_step n"] lrun_one)
  next
    case M_unlock
    with unlock [OF M_unlock fin] show ?thesis by (blast intro: lrun_one)
  next
    case (M_push k)
    with ok fin live show ?thesis by (auto simp: class_ok_def)
  next
    case (M_dead b)
    with alive have "lock_free s" by (simp add: lock_free_def)
    with fin lrun_nil [of "class_step n" s] show ?thesis by blast
  next
    case M_top
    then have "lock_free s" by (simp add: lock_free_def)
    with fin lrun_nil [of "class_step n" s] show ?thesis by blast
  next
    case M_sleep
    then have "lock_free s" by (simp add: lock_free_def)
    with fin lrun_nil [of "class_step n" s] show ?thesis by blast
  qed
qed

lemma no_live: "live s = 0 \<Longrightarrow> \<forall>pc \<in> set (pool_workers s). pc = W_exit"
  by (auto simp: count_pc_def filter_empty_conv)

section \<open>Concrete schedules\<close>

text \<open>A scheduler: move 0 is the main thread's, move \<open>i+1\<close> that of worker \<open>i\<close>.\<close>

definition main_move :: "nat \<Rightarrow> pool \<Rightarrow> (pool_label \<times> pool) option" where
  "main_move n s = (case pool_main s of
     M_top \<Rightarrow> Some (P_tau, s\<lparr>pool_main := M_locked\<rparr>)
   | M_locked \<Rightarrow> Some (P_tau, if pending_host_index_queue s = [] then s\<lparr>pool_main := M_push 0\<rparr> else s\<lparr>pool_main := M_unlock\<rparr>)
   | M_push k \<Rightarrow> Some (if k < n
       then (P_push (int k), s\<lparr>pending_host_index_queue := pending_host_index_queue s @ [int k],
               worker_semaphore := Suc (worker_semaphore s), pool_main := M_push (Suc k)\<rparr>)
       else (P_tau, s\<lparr>pool_main := M_unlock\<rparr>))
   | M_unlock \<Rightarrow> Some (P_tau, s\<lparr>pool_main := M_sleep\<rparr>)
   | M_sleep \<Rightarrow> Some (P_tau, s\<lparr>pool_main := M_top\<rparr>)
   | M_dead _ \<Rightarrow> None)"

definition worker_move :: "nat \<Rightarrow> pool \<Rightarrow> (pool_label \<times> pool) option" where
  "worker_move i s =
     (if \<not> i < length (pool_workers s) then None else case pool_workers s ! i of
        W_wait \<Rightarrow> if 0 < worker_semaphore s
          then Some (P_tau, set_worker i W_lock (s\<lparr>worker_semaphore := worker_semaphore s - 1\<rparr>)) else None
      | W_lock \<Rightarrow> (case pending_host_index_queue s of [] \<Rightarrow> None | x # q \<Rightarrow> if lock_free s
          then Some (P_take i x, set_worker i (if x = - 1 then W_exit else W_took (nat x))
                 (s\<lparr>pending_host_index_queue := q\<rparr>)) else None)
      | W_took k \<Rightarrow> if 0 < session_semaphore s
          then Some (P_tau, set_worker i (W_collect k) (s\<lparr>session_semaphore := session_semaphore s - 1\<rparr>)) else None
      | W_collect k \<Rightarrow> Some (P_collect i k, set_worker i W_wait (s\<lparr>session_semaphore := Suc (session_semaphore s)\<rparr>))
      | W_exit \<Rightarrow> None)"

fun run_moves :: "nat \<Rightarrow> nat list \<Rightarrow> pool \<Rightarrow> (pool_label list \<times> pool) option" where
  "run_moves n [] s = Some ([], s)"
| "run_moves n (m # ms) s =
     (case (case m of 0 \<Rightarrow> main_move n s | Suc i \<Rightarrow> worker_move i s) of
        None \<Rightarrow> None
      | Some (l, t) \<Rightarrow> map_option (\<lambda>(tr, u). (l # tr, u)) (run_moves n ms t))"

lemma main_move_step: "main_move n s = Some (l, t) \<Longrightarrow> pool_step n s l t"
  by (auto simp: main_move_def intro: pool_step.intros split: main_pc.splits if_splits)

lemma worker_move_step: "worker_move i s = Some (l, t) \<Longrightarrow> pool_step n s l t"
proof -
  assume move: "worker_move i s = Some (l, t)"
  then have at: "at_worker s i (pool_workers s ! i)"
    by (auto simp: worker_move_def at_worker_def split: if_splits)
  show ?thesis
  proof (cases "pool_workers s ! i")
    case W_lock
    with move p_take [of s i _ _ n] at show ?thesis
      by (auto simp: worker_move_def simp del: if_split_asm split: list.splits if_split_asm)
  next
    case W_wait
    with move p_wait [of s i n] at show ?thesis by (auto simp: worker_move_def split: if_splits)
  next
    case (W_took k)
    with move p_session [of s i k n] at show ?thesis by (auto simp: worker_move_def split: if_splits)
  next
    case (W_collect k)
    with move p_collect [of s i k n] at show ?thesis by (auto simp: worker_move_def split: if_splits)
  next
    case W_exit
    with move show ?thesis by (auto simp: worker_move_def split: if_splits)
  qed
qed

lemma run_moves_run: "run_moves n ms s = Some (tr, t) \<Longrightarrow> lrun (pool_step n) s tr t"
proof (induction ms arbitrary: s tr)
  case Nil
  then show ?case by (auto intro: lrun_nil)
next
  case (Cons m ms)
  then obtain l u tr' where "(case m of 0 \<Rightarrow> main_move n s | Suc i \<Rightarrow> worker_move i s) = Some (l, u)"
    and rest: "run_moves n ms u = Some (tr', t)" "tr = l # tr'"
    by (auto split: option.splits)
  then have "pool_step n s l u"
    by (auto intro: main_move_step worker_move_step split: nat.splits)
  with Cons.IH [OF rest(1)] rest(2) show ?case by (auto intro: lrun_Cons [where step = "pool_step n"])
qed

lemma lrun_pool_class: "lrun (pool_step n) s tr t \<Longrightarrow> lrun (class_step n) s tr t"
  by (induction rule: lrun.induct) (auto intro: lrun.intros c_pool)

lemma shutdown_completes:
  assumes ok: "class_ok sessions s" and fin: "pool_fin s = F_join"
    and alive: "pool_main s \<noteq> M_dead True" and "0 < sessions"
  shows "\<exists>tr' t. lrun (class_step n) s tr' t \<and> pool_fin t = F_done"
proof -
  have "\<exists>tr t. lrun (class_step n) s tr t \<and> pool_fin t = F_join \<and> live t = 0"
  proof (cases "live s = 0")
    case True
    with fin lrun_nil [of "class_step n" s] show ?thesis by blast
  next
    case False
    with main_lets_go [OF ok fin _ alive] obtain tr1 u where
      u: "lrun (class_step n) s tr1 u" "lock_free u" "pool_fin u = F_join" by blast
    then have "class_ok sessions u"
      using ok by (blast intro: lrun_invariant [where I = "class_ok sessions"] class_step_ok)
    with workers_drain [OF _ u(3, 2) assms(4), of n] obtain tr2 t where
      "lrun (class_step n) u tr2 t" "pool_fin t = F_join" "live t = 0" by blast
    with lrun_trans [OF _ u(1)] show ?thesis by blast
  qed
  then obtain tr' t where t: "lrun (class_step n) s tr' t" "pool_fin t = F_join" "live t = 0" by blast
  from lrun_snoc [OF t(1) c_joined [OF t(2) no_live [OF t(3)]]]
  have "lrun (class_step n) s (tr' @ [P_tau]) (t\<lparr>pool_fin := F_done\<rparr>)" .
  then show ?thesis by (intro exI conjI, assumption, simp)
qed

text \<open>A shutdown can always complete: from every state of a class that is being finalized, in
  which the main thread has not died inside its locked section, the workers can all take their
  stop mark and exit, so that the joins return. No stop mark is missing, whichever hosts were
  queued or being collected when the shutdown began.
\<close>

theorem shutdown_can_complete:
  assumes "lrun (class_step n) (pool_init n sessions) tr s" and "pool_fin s = F_join"
    and "pool_main s \<noteq> M_dead True" and "0 < sessions"
  shows "\<exists>tr' t. lrun (class_step n) s tr' t \<and> pool_fin t = F_done"
  using class_run_ok [OF assms(1)] assms(2-) by (rule shutdown_completes)

theorem shutdown_can_complete_witness:
  "\<exists>s tr' t. pool_fin s = F_join \<and> lrun (class_step 1) s tr' t \<and> pool_fin t = F_done"
proof -
  let ?s = "(pool_init 1 1)\<lparr>cancel_pending := True, pending_host_index_queue := [- 1],
    worker_semaphore := 1, pool_fin := F_join\<rparr>"
  have "class_step 1 (pool_init 1 1) P_finalize ?s"
    using c_finalize [of "pool_init 1 1" 1] by (simp add: pool_init_def lock_free_def max_num_workers_def)
  from shutdown_can_complete [OF lrun_one [where step = "class_step 1", OF this]]
  have "\<exists>tr' t. lrun (class_step 1) ?s tr' t \<and> pool_fin t = F_done" by (simp add: pool_init_def)
  moreover have "pool_fin ?s = F_join" by simp
  ultimately show ?thesis by blast
qed

lemma one_round_run:
  "\<exists>tr s. lrun (pool_step 1) (pool_init 1 1) tr s \<and> dequeued pool_view tr = [0] \<and> at_worker s 0 W_lock"
proof -
  have "\<exists>tr s. run_moves 1 [0, 0, 0, 0, 0, 1, 1, 1, 1, 0, 0, 0, 0, 1] (pool_init 1 1) = Some (tr, s) \<and>
      dequeued pool_view tr = [0] \<and> at_worker s 0 W_lock"
    by (simp add: pool_init_def max_num_workers_def main_move_def worker_move_def set_worker_def at_worker_def
        lock_free_def)
  then show ?thesis using run_moves_run by blast
qed

theorem hosts_taken_in_rounds_witness:
  "\<exists>tr s r k. lrun (pool_step 1) (pool_init 1 1) tr s \<and> dequeued pool_view tr = [0] \<and> k \<le> 1 \<and>
     dequeued pool_view tr @ pending_host_index_queue s = rounds 1 r k"
  using one_round_run hosts_taken_in_rounds by blast

theorem collector_never_underflows_witness:
  "\<exists>tr s. lrun (class_step 1) (pool_init 1 1) tr s \<and> at_worker s 0 W_lock \<and>
     pending_host_index_queue s \<noteq> [] \<and> collecting s \<le> 1"
  using one_round_run collector_never_underflows lrun_pool_class by blast

text \<open>\<^verbatim>\<open>finalize\<close> can hang for ever: when the main thread waits for the lock while it is being
  cancelled, it finds the stop marks in the queue, is cancelled at the log call inside its
  locked section and dies with the lock; the worker woken for its stop mark then waits for the
  lock, the join waits for the worker, and no thread of the class can move.
\<close>

theorem finalize_can_hang:
  "\<exists>tr s. lrun (class_step 1) (pool_init 1 1) tr s \<and> pool_fin s = F_join \<and>
     at_worker s 0 W_lock \<and> (\<forall>l t. \<not> class_step 1 s l t)"
proof -
  let ?s0 = "(pool_init 1 1)\<lparr>cancel_pending := True, pending_host_index_queue := [- 1],
    worker_semaphore := 1, pool_fin := F_join\<rparr>"
  let ?s2 = "?s0\<lparr>pool_main := M_dead True\<rparr>"
  let ?s3 = "set_worker 0 W_lock (?s2\<lparr>worker_semaphore := worker_semaphore ?s2 - 1\<rparr>)"
  note defs = pool_init_def lock_free_def max_num_workers_def at_worker_def
  have 0: "class_step 1 (pool_init 1 1) P_finalize ?s0"
    using c_finalize [of "pool_init 1 1" 1] by (simp add: defs)
  have 1: "class_step 1 ?s0 P_tau (?s0\<lparr>pool_main := M_locked\<rparr>)"
    by (intro c_pool m_lock) (simp add: defs)
  have 2: "class_step 1 (?s0\<lparr>pool_main := M_locked\<rparr>) P_tau ?s2"
    using c_pool [OF m_cancelled_locked [of "?s0\<lparr>pool_main := M_locked\<rparr>" 1]] by simp
  have 3: "class_step 1 ?s2 P_tau ?s3"
    by (intro c_pool p_wait) (simp_all add: defs)
  have run: "lrun (class_step 1) (pool_init 1 1) [P_finalize, P_tau, P_tau, P_tau] ?s3"
    by (intro lrun_Cons [where step = "class_step 1", OF 0] lrun_Cons [where step = "class_step 1", OF 1]
        lrun_Cons [where step = "class_step 1", OF 2] lrun_one [where step = "class_step 1", OF 3])
  have "\<not> class_step 1 ?s3 l t" for l t
    by (auto simp: class_step.simps pool_step.simps defs set_worker_def)
  moreover have "at_worker ?s3 0 W_lock" "pool_fin ?s3 = F_join"
    by (simp_all add: defs set_worker_def)
  ultimately show ?thesis using run by blast
qed

text \<open>
  Two workers can collect the same host at the same time, although the clock of a host
  (\<^verbatim>\<open>timeticks\<close>, \<^verbatim>\<open>mytime\<close>) is kept without a lock: a round starts as soon as the queue is empty,
  while a slow host of the round before is still being collected.
\<close>

theorem same_host_collected_twice:
  "\<exists>tr s. lrun (pool_step 2) (pool_init 2 2) tr s \<and>
     at_worker s 0 (W_collect 0) \<and> at_worker s 1 (W_collect 0)"
proof -
  have "\<exists>tr s. run_moves 2 ([0, 0, 0, 0, 0, 0] @ [1, 1, 1] @ [2, 2, 2, 2] @ [0, 0, 0, 0, 0, 0, 0] @ [2, 2, 2]) (pool_init 2 2) =
      Some (tr, s) \<and> at_worker s 0 (W_collect 0) \<and> at_worker s 1 (W_collect 0)"
    by (simp add: pool_init_def max_num_workers_def main_move_def worker_move_def set_worker_def at_worker_def
        lock_free_def numeral_2_eq_2)
  then show ?thesis using run_moves_run by blast
qed

end
