(* ===== verification/Sched_Fair.thy ===== *)
theory Sched_Fair
  imports Collection_Sched Fair_Runs
begin

text \<open>
  A collection class over time (\<^verbatim>\<open>thread_start\<close> of the workers and of the class in
  \<^verbatim>\<open>collection_class.cpp\<close>): until it is shut down, every host is collected again and again, if the
  main thread is scheduled fairly and so is each worker, also at the mutex and at the session
  semaphore. The class is taken alone, with sessions of its own; how classes share them is the
  subject of \<open>Config_Threads\<close>.
\<close>

section \<open>Whose step it is\<close>

definition worker_moves :: "nat \<Rightarrow> pool \<Rightarrow> pool_label \<Rightarrow> pool \<Rightarrow> bool" where
  "worker_moves i s l t \<longleftrightarrow> i < length (pool_workers s) \<and> pool_workers t ! i \<noteq> pool_workers s ! i"

definition main_moves :: "pool \<Rightarrow> pool_label \<Rightarrow> pool \<Rightarrow> bool" where
  "main_moves s l t \<longleftrightarrow> pool_main t \<noteq> pool_main s"

abbreviation some_worker_moves :: "pool \<Rightarrow> pool_label \<Rightarrow> pool \<Rightarrow> bool" where
  "some_worker_moves s l t \<equiv> pool_workers t \<noteq> pool_workers s"

lemma pool_workers_length: "pool_step n s l t \<Longrightarrow> length (pool_workers t) = length (pool_workers s)"
  by (cases rule: pool_step.cases) (auto simp: set_worker_def)

text \<open>How far a worker is from taking the next host.\<close>

fun steps_to_take :: "collector_pc \<Rightarrow> nat" where
  "steps_to_take (W_took k) = 3"
| "steps_to_take (W_collect k) = 2"
| "steps_to_take W_wait = 1"
| "steps_to_take _ = 0"

definition takes_left :: "pool \<Rightarrow> nat" where
  "takes_left s = sum_list (map steps_to_take (pool_workers s))"

lemma takes_left_set:
  assumes "at_worker s i pc" "pool_workers t = pool_workers s"
  shows "takes_left (set_worker i pc' t) + steps_to_take pc = takes_left s + steps_to_take pc'"
proof -
  have i: "i < length (pool_workers s)" "pool_workers s ! i = pc" using assms(1) by (simp_all add: at_worker_def)
  then have "sum_list (map steps_to_take (pool_workers s)) \<ge> steps_to_take pc"
    by (metis length_map member_le_sum_list nth_map nth_mem zero_le)
  with i assms(2) show ?thesis by (simp add: takes_left_def set_worker_def map_update sum_list_update)
qed

interpretation hq: served_queue "pool_step n" "\<lambda>_. True" pending_host_index_queue pool_view some_worker_moves takes_left
  for n
proof unfold_locales
  fix s l t
  assume st: "pool_step n s l t"
  then show "pending_host_index_queue s @ enqueued pool_view [l] = dequeued pool_view [l] @ pending_host_index_queue t"
    by (cases rule: pool_step.cases) (auto simp: set_worker_def)
  show "takes_left t < takes_left s" if "some_worker_moves s l t" "dequeued pool_view [l] = []"
    using st that
  proof (cases rule: pool_step.cases)
    case (p_wait i)
    with takes_left_set [of s i W_wait "s\<lparr>worker_semaphore := worker_semaphore s - 1\<rparr>" W_lock] show ?thesis by simp
  next
    case (p_session i k)
    with takes_left_set [of s i "W_took k" "s\<lparr>session_semaphore := session_semaphore s - 1\<rparr>" "W_collect k"]
    show ?thesis by simp
  next
    case (p_collect i k)
    with takes_left_set [of s i "W_collect k" "s\<lparr>session_semaphore := Suc (session_semaphore s)\<rparr>" W_wait]
    show ?thesis by simp
  qed auto
  show "dequeued pool_view [l] = [] \<and> takes_left t \<le> takes_left s" if "\<not> some_worker_moves s l t"
    using st that
  proof (cases rule: pool_step.cases)
    case (p_take i x q)
    then have "pool_workers t ! i \<noteq> W_lock" by (auto simp: set_worker_def at_worker_def)
    with p_take that show ?thesis by (auto simp: at_worker_def)
  qed (auto simp: takes_left_def)
qed auto

section \<open>What holds until the shutdown\<close>

definition collecting_ok :: "nat \<Rightarrow> nat \<Rightarrow> pool \<Rightarrow> bool" where
  "collecting_ok n sessions s \<longleftrightarrow> length (pending_host_index_queue s) = worker_semaphore s + at_lock s \<and>
     session_semaphore s + collecting s = sessions \<and> W_exit \<notin> set (pool_workers s) \<and>
     - 1 \<notin> set (pending_host_index_queue s) \<and>
     \<not> cancel_pending s \<and> (\<forall>held. pool_main s \<noteq> M_dead held) \<and> (\<forall>k. pool_main s = M_push k \<longrightarrow> k \<le> n)"

lemma set_worker_no_exit: "W_exit \<notin> set (pool_workers s) \<Longrightarrow> pc \<noteq> W_exit \<Longrightarrow> W_exit \<notin> set (pool_workers (set_worker i pc s))"
  using set_update_subset_insert [of "pool_workers s" i pc] by (auto simp: set_worker_def)

lemma collecting_ok_step:
  assumes ok: "collecting_ok n sessions s" and st: "pool_step n s l t"
  shows "collecting_ok n sessions t"
  using st
proof (cases rule: pool_step.cases)
  case (p_wait i)
  with ok count_pc_set_worker [of "s\<lparr>worker_semaphore := worker_semaphore s - 1\<rparr>" i W_wait "\<lambda>pc. pc = W_lock" W_lock]
    count_pc_set_worker [of "s\<lparr>worker_semaphore := worker_semaphore s - 1\<rparr>" i W_wait "\<lambda>pc. \<exists>k. pc = W_collect k" W_lock]
  show ?thesis by (auto simp: collecting_ok_def set_worker_no_exit)
next
  case (p_take i x q)
  with ok have "x \<noteq> - 1" by (auto simp: collecting_ok_def)
  with ok p_take count_pc_set_worker [of "s\<lparr>pending_host_index_queue := q\<rparr>" i W_lock "\<lambda>pc. pc = W_lock" "W_took (nat x)"]
    count_pc_set_worker [of "s\<lparr>pending_host_index_queue := q\<rparr>" i W_lock "\<lambda>pc. \<exists>k. pc = W_collect k" "W_took (nat x)"]
  show ?thesis by (auto simp: collecting_ok_def set_worker_no_exit)
next
  case (p_session i k)
  with ok count_pc_set_worker [of "s\<lparr>session_semaphore := session_semaphore s - 1\<rparr>" i "W_took k" "\<lambda>pc. pc = W_lock" "W_collect k"]
    count_pc_set_worker [of "s\<lparr>session_semaphore := session_semaphore s - 1\<rparr>" i "W_took k" "\<lambda>pc. \<exists>k. pc = W_collect k" "W_collect k"]
  show ?thesis by (auto simp: collecting_ok_def set_worker_no_exit)
next
  case (p_collect i k)
  with ok count_pc_set_worker [of "s\<lparr>session_semaphore := Suc (session_semaphore s)\<rparr>" i "W_collect k" "\<lambda>pc. pc = W_lock" W_wait]
    count_pc_set_worker [of "s\<lparr>session_semaphore := Suc (session_semaphore s)\<rparr>" i "W_collect k" "\<lambda>pc. \<exists>k. pc = W_collect k" W_wait]
  show ?thesis by (auto simp: collecting_ok_def set_worker_no_exit)
qed (use ok in \<open>auto simp: collecting_ok_def\<close>)

lemma collecting_ok_init: "collecting_ok n sessions (pool_init n sessions)"
  by (simp add: collecting_ok_def pool_init_def count_pc_def filter_replicate)

section \<open>Fair runs of a class\<close>

text \<open>
  The main thread takes the step it can take; each worker that is able to go on again and again does
  go on, so it is not passed over for ever at the mutex or the session semaphore, and each of its
  collections ends.
\<close>

definition fair_class :: "nat \<Rightarrow> nat \<Rightarrow> (nat \<Rightarrow> pool) \<Rightarrow> (nat \<Rightarrow> pool_label) \<Rightarrow> bool" where
  "fair_class n sessions run ls \<longleftrightarrow> run 0 = pool_init n sessions \<and> inf_run (pool_step n) run ls \<and>
     weakly_fair (pool_step n) main_moves run ls \<and> (\<forall>i. strongly_fair (pool_step n) (worker_moves i) run ls)"

lemma fair_class_run: "fair_class n sessions run ls \<Longrightarrow> inf_run (pool_step n) run ls"
  by (simp add: fair_class_def)

lemma fair_class_ok:
  assumes "fair_class n sessions run ls"
  shows "collecting_ok n sessions (run m)"
proof (rule inf_run_invariant [where I = "collecting_ok n sessions", OF fair_class_run [OF assms]])
  show "collecting_ok n sessions (run 0)" using assms collecting_ok_init by (simp add: fair_class_def)
qed (rule collecting_ok_step)

lemma workers_number:
  "fair_class n sessions run ls \<Longrightarrow>
   length (pool_workers (run m)) = (if max_num_workers > n then n else max_num_workers)"
proof (induction m)
  case 0
  then show ?case by (simp add: fair_class_def pool_init_def)
next
  case (Suc m)
  with pool_workers_length [OF inf_run_step [OF fair_class_run]] show ?case by simp
qed

text \<open>A worker that never moves again stays where it is, so it cannot be able to move for ever.\<close>

lemma worker_stays:
  assumes "fair_class n sessions run ls" "i < length (pool_workers (run m))" "m \<le> k"
    and "\<And>j. m \<le> j \<Longrightarrow> j < k \<Longrightarrow> \<not> worker_moves i (run j) (ls j) (run (Suc j))"
  shows "pool_workers (run k) ! i = pool_workers (run m) ! i"
  using assms(3,4)
proof (induction rule: dec_induct)
  case (step k)
  then have "\<not> worker_moves i (run k) (ls k) (run (Suc k))" by blast
  with step workers_number [OF assms(1)] assms(2) show ?case by (simp add: worker_moves_def)
qed simp

lemma worker_moves_again:
  assumes fc: "fair_class n sessions run ls" and at: "at_worker (run m) i pc"
    and enabled: "\<And>k. k \<ge> m \<Longrightarrow> (\<And>j. j \<ge> m \<Longrightarrow> at_worker (run j) i pc) \<Longrightarrow>
      \<exists>j\<ge>k. \<exists>l t. pool_step n (run j) l t \<and> worker_moves i (run j) l t"
  shows "\<exists>k\<ge>m. at_worker (run k) i pc \<and> worker_moves i (run k) (ls k) (run (Suc k))"
proof -
  let ?moves = "\<lambda>k. worker_moves i (run k) (ls k) (run (Suc k))"
  have i: "i < length (pool_workers (run j))" for j
    using at workers_number [OF fc] by (simp add: at_worker_def)
  have stay: "at_worker (run k) i pc" if "m \<le> k" "\<And>j. m \<le> j \<Longrightarrow> j < k \<Longrightarrow> \<not> ?moves j" for k
    using worker_stays [OF fc i that(1)] that(2) at i by (auto simp: at_worker_def)
  have "\<exists>k\<ge>m. ?moves k"
  proof (rule ccontr)
    assume no: "\<not> ?thesis"
    then have st: "\<And>j. j \<ge> m \<Longrightarrow> at_worker (run j) i pc" using stay by blast
    have "\<exists>j\<ge>k. \<exists>l t. pool_step n (run j) l t \<and> worker_moves i (run j) l t" for k
      using enabled [of "max k m"] st by (meson max.bounded_iff max.cobounded2)
    then have "\<exists>k\<ge>m. ?moves k" using fc unfolding fair_class_def strongly_fair_def by blast
    with no show False by blast
  qed
  then obtain k where "k \<ge> m" "?moves k" "\<forall>j. m \<le> j \<and> j < k \<longrightarrow> \<not> ?moves j"
    using first_time [of m _ ?moves] by blast
  with stay show ?thesis by blast
qed

text \<open>The main thread goes on for ever.\<close>

lemma main_can_move: "collecting_ok n sessions s \<Longrightarrow> \<exists>l t. pool_step n s l t \<and> main_moves s l t"
proof (cases "pool_main s")
  case M_top
  then show ?thesis using pool_step.m_lock [of s n] by (force simp: main_moves_def)
next
  case M_locked
  then show ?thesis using pool_step.m_not_empty [of s n] pool_step.m_empty [of s n] by (force simp: main_moves_def)
next
  case (M_push k)
  then show ?thesis using pool_step.m_push [of s k n] pool_step.m_pushed [of s k n] by (force simp: main_moves_def)
next
  case M_unlock
  then show ?thesis using pool_step.m_unlock [of s n] by (force simp: main_moves_def)
next
  case M_sleep
  then show ?thesis using pool_step.m_wake [of s n] by (force simp: main_moves_def)
next
  case (M_dead held)
  then show "collecting_ok n sessions s \<Longrightarrow> ?thesis" unfolding collecting_ok_def by blast
qed

lemma main_moves_again:
  assumes "fair_class n sessions run ls"
  shows "\<exists>k\<ge>m. pool_main (run k) = pool_main (run m) \<and> main_moves (run k) (ls k) (run (Suc k))"
proof -
  let ?moves = "\<lambda>k. main_moves (run k) (ls k) (run (Suc k))"
  have "\<exists>k\<ge>m. ?moves k"
    using assms main_can_move [OF fair_class_ok [OF assms]] unfolding fair_class_def weakly_fair_def by blast
  then obtain k where k: "k \<ge> m" "?moves k" "\<forall>j. m \<le> j \<and> j < k \<longrightarrow> \<not> ?moves j"
    using first_time [of m _ ?moves] by blast
  from k(1,3) have "pool_main (run k) = pool_main (run m)"
    by (induction rule: dec_induct) (auto simp: main_moves_def)
  with k show ?thesis by blast
qed

lemma main_step_cases:
  assumes "pool_step n s l t" "main_moves s l t" "collecting_ok n sessions s"
  shows "(pool_main s, pool_main t) \<in> {(M_top, M_locked), (M_unlock, M_sleep), (M_sleep, M_top)} \<or>
    (pool_main s = M_locked \<and> pool_main t = (if pending_host_index_queue s = [] then M_push 0 else M_unlock)) \<or>
    (\<exists>k. pool_main s = M_push k \<and> (if k < n then l = P_push (int k) \<and> pool_main t = M_push (Suc k) else pool_main t = M_unlock))"
  using assms(1)
  by (cases rule: pool_step.cases) (use assms(2,3) in \<open>auto simp: main_moves_def collecting_ok_def\<close>)

lemma lock_freed:
  assumes "fair_class n sessions run ls"
  shows "\<exists>k\<ge>m. lock_free (run k)"
proof (induction "case pool_main (run m) of M_locked \<Rightarrow> n + 3 | M_push k \<Rightarrow> Suc (Suc (n - k)) | M_unlock \<Rightarrow> 1 | _ \<Rightarrow> 0"
    arbitrary: m rule: less_induct)
  case less
  show ?case
  proof (cases "lock_free (run m)")
    case False
    obtain k where k: "k \<ge> m" "pool_main (run k) = pool_main (run m)" "main_moves (run k) (ls k) (run (Suc k))"
      using main_moves_again [OF assms] by blast
    note c = main_step_cases [OF inf_run_step [OF fair_class_run [OF assms]] k(3) fair_class_ok [OF assms]]
    have "\<exists>j\<ge>Suc k. lock_free (run j)"
      by (rule less.hyps) (use c k(2) False in \<open>auto simp: lock_free_def split: main_pc.splits if_splits\<close>)
    with k(1) show ?thesis using Suc_leD le_trans by blast
  qed auto
qed

section \<open>Every host, again and again\<close>

fun may_move :: "pool \<Rightarrow> collector_pc \<Rightarrow> bool" where
  "may_move s W_wait \<longleftrightarrow> 0 < worker_semaphore s"
| "may_move s W_lock \<longleftrightarrow> lock_free s \<and> pending_host_index_queue s \<noteq> []"
| "may_move s (W_took k) \<longleftrightarrow> 0 < session_semaphore s"
| "may_move s (W_collect k) \<longleftrightarrow> True"
| "may_move s W_exit \<longleftrightarrow> False"

lemma worker_moves_set: "at_worker s i pc \<Longrightarrow> pc' \<noteq> pc \<Longrightarrow> pool_workers t = pool_workers s \<Longrightarrow>
    worker_moves i s l (set_worker i pc' t)"
  by (auto simp: worker_moves_def at_worker_def set_worker_def)

lemma worker_can_move:
  assumes "at_worker s i pc" "may_move s pc"
  shows "\<exists>l t. pool_step n s l t \<and> worker_moves i s l t"
proof (cases pc)
  case W_wait
  with assms pool_step.p_wait [of s i n] worker_moves_set [of s i W_wait W_lock] show ?thesis by fastforce
next
  case W_lock
  with assms obtain x q where q: "pending_host_index_queue s = x # q" by (cases "pending_host_index_queue s") auto
  with W_lock assms pool_step.p_take [of s i x q n] worker_moves_set [of s i W_lock "if x = - 1 then W_exit else W_took (nat x)"]
  show ?thesis by fastforce
next
  case (W_took k)
  with assms pool_step.p_session [of s i k n] worker_moves_set [of s i "W_took k" "W_collect k"] show ?thesis by fastforce
next
  case (W_collect k)
  with assms pool_step.p_collect [of s i k n] worker_moves_set [of s i "W_collect k" W_wait] show ?thesis by fastforce
qed (use assms in simp)

text \<open>In a fair run of a class with hosts and sessions, a queue with something in it is worked on.\<close>

lemma class_attended:
  assumes fc: "fair_class n sessions run ls" and pos: "0 < n" "0 < sessions"
  shows "hq.attended run ls"
  unfolding hq.attended_def
proof (intro allI impI)
  fix N
  assume "\<forall>m\<ge>N. True \<and> pending_host_index_queue (run m) \<noteq> []"
  then have ne: "\<And>m. m \<ge> N \<Longrightarrow> pending_host_index_queue (run m) \<noteq> []" by blast
  let ?ws = "pool_workers (run N)"
  show "\<exists>m\<ge>N. some_worker_moves (run m) (ls m) (run (Suc m))"
  proof (rule ccontr)
    assume "\<not> ?thesis"
    then have same: "\<And>m. m \<ge> N \<Longrightarrow> pool_workers (run (Suc m)) = pool_workers (run m)" by blast
    have ws: "pool_workers (run m) = ?ws" if "m \<ge> N" for m
      using that by (induction rule: dec_induct) (simp_all add: same)
    have blocked: "\<exists>k\<ge>N. \<forall>m\<ge>k. \<not> may_move (run m) (?ws ! i)" if i: "i < length ?ws" for i
    proof (rule ccontr)
      assume no: "\<not> ?thesis"
      have "\<exists>j\<ge>k. \<exists>l t. pool_step n (run j) l t \<and> worker_moves i (run j) l t" for k
      proof -
        from no obtain j where j: "j \<ge> max k N" "may_move (run j) (?ws ! i)" by (meson max.cobounded2)
        then have "at_worker (run j) i (?ws ! i)" using ws [of j] i by (simp add: at_worker_def)
        with worker_can_move [OF this j(2)] j(1) show ?thesis by (meson max.bounded_iff)
      qed
      then obtain m where "m \<ge> N" "worker_moves i (run m) (ls m) (run (Suc m))"
        using fc unfolding fair_class_def strongly_fair_def by blast
      then show False using ws [of m] ws [of "Suc m"] by (simp add: worker_moves_def)
    qed
    note ok = fair_class_ok [OF fc]
    have 1: "W_collect k \<notin> set ?ws" for k
      using blocked by (metis in_set_conv_nth may_move.simps(4) order_refl)
    then have "collecting (run m) = 0" if "m \<ge> N" for m
      using ws [OF that] by (auto simp: count_pc_def filter_empty_conv)
    then have sess: "session_semaphore (run m) = sessions" if "m \<ge> N" for m
      using ok [of m] that by (simp add: collecting_ok_def)
    have 2: "W_took k \<notin> set ?ws" for k
      using blocked sess pos(2) by (metis in_set_conv_nth may_move.simps(3) order_refl)
    have 3: "W_lock \<notin> set ?ws"
    proof
      assume "W_lock \<in> set ?ws"
      then obtain k where k: "k \<ge> N" "\<And>m. m \<ge> k \<Longrightarrow> \<not> may_move (run m) W_lock"
        using blocked by (metis in_set_conv_nth)
      obtain m where "m \<ge> k" "lock_free (run m)" using lock_freed [OF fc] by blast
      with k ne [of m] show False by simp
    qed
    have "at_lock (run m) = 0" if "m \<ge> N" for m
      using ws [OF that] 3 by (auto simp: count_pc_def filter_empty_conv)
    then have sem: "0 < worker_semaphore (run m)" if "m \<ge> N" for m
      using ok [of m] ne [OF that] that by (simp add: collecting_ok_def flip: length_greater_0_conv)
    have "?ws \<noteq> []" using workers_number [OF fc, of N] pos(1) by (auto simp: max_num_workers_def split: if_splits)
    then obtain pc where pc: "pc \<in> set ?ws" by (cases ?ws) auto
    with 1 2 3 ok [of N] have "pc = W_wait" by (cases pc) (auto simp: collecting_ok_def)
    with pc blocked sem show False by (metis in_set_conv_nth may_move.simps(1) order_refl)
  qed
qed

lemma no_push_segment:
  "n \<le> m \<Longrightarrow> (\<And>k x. n \<le> k \<Longrightarrow> k < m \<Longrightarrow> ls k \<noteq> P_push x) \<Longrightarrow> enqueued pool_view (segment ls n m) = []"
proof (induction rule: dec_induct)
  case (step m)
  then have "pool_view (ls m) \<noteq> Enqueue x" for x by (cases "ls m") auto
  with step show ?case by (auto simp: segment_Suc split: qop.split)
qed simp

fun steps_to_push :: "nat \<Rightarrow> main_pc \<Rightarrow> nat" where
  "steps_to_push n (M_push k) = (if k < n then 0 else 5)"
| "steps_to_push n M_unlock = 4"
| "steps_to_push n M_sleep = 3"
| "steps_to_push n M_top = 2"
| "steps_to_push n _ = 1"

lemma pushes_again:
  assumes fc: "fair_class n sessions run ls" and pos: "0 < n" "0 < sessions"
  shows "\<exists>m\<ge>N. \<exists>x. ls m = P_push x"
proof (rule ccontr)
  assume "\<not> ?thesis"
  then have no: "\<And>m x. m \<ge> N \<Longrightarrow> ls m \<noteq> P_push x" by blast
  note ir = fair_class_run [OF fc]
  obtain m1 where m1: "m1 \<ge> N" "dequeued pool_view (segment ls N m1) = pending_host_index_queue (run N)"
    using hq.all_served [OF ir class_attended [OF fc pos]] by blast
  have "enqueued pool_view (segment ls N m) = []" "m \<ge> m1 \<Longrightarrow> enqueued pool_view (segment ls m1 m) = []"
    if "m \<ge> N" for m using that no m1(1) by (auto intro!: no_push_segment)
  then have empty: "pending_host_index_queue (run m) = []" if "m \<ge> m1" for m
    using hq.account_run [OF inf_run_lrun [OF ir m1(1)]] hq.account_run [OF inf_run_lrun [OF ir that]] m1 that
    by auto
  have "\<exists>k\<ge>m. \<exists>x. ls k = P_push x" if "m \<ge> m1" for m
    using that
  proof (induction "steps_to_push n (pool_main (run m))" arbitrary: m rule: less_induct)
    case less
    obtain k where k: "k \<ge> m" "pool_main (run k) = pool_main (run m)" "main_moves (run k) (ls k) (run (Suc k))"
      using main_moves_again [OF fc] by blast
    note c = main_step_cases [OF inf_run_step [OF ir] k(3) fair_class_ok [OF fc]]
    have e: "pending_host_index_queue (run k) = []" using empty [of k] k(1) less.prems by simp
    show ?case
    proof (cases "\<exists>x. ls k = P_push x")
      case True
      with k(1) show ?thesis by blast
    next
      case False
      with c e have "steps_to_push n (pool_main (run (Suc k))) < steps_to_push n (pool_main (run m))"
        unfolding k(2) [symmetric] using pos(1) by (auto split: if_splits)
      with less.hyps [of "Suc k"] less.prems k(1) show ?thesis by (meson Suc_leD le_SucI le_trans)
    qed
  qed
  with no [of _] m1(1) show False by (meson order_refl order_trans)
qed

text \<open>So arbitrarily many hosts are queued and taken, always in rounds.\<close>

lemma many_pushed:
  assumes "fair_class n sessions run ls" "0 < n" "0 < sessions"
  shows "\<exists>m. b \<le> length (enqueued pool_view (segment ls 0 m))"
proof (induction b)
  case (Suc b)
  then obtain m where m: "b \<le> length (enqueued pool_view (segment ls 0 m))" by blast
  obtain k x where k: "k \<ge> m" "ls k = P_push x" using pushes_again [OF assms] by blast
  have "segment ls 0 (Suc k) = segment ls 0 m @ segment ls m k @ [P_push x]"
    using k segment_append [of 0 m k ls] by (simp add: segment_Suc)
  with m show ?case by (intro exI [of _ "Suc k"]) simp
qed simp

lemma many_taken:
  assumes fc: "fair_class n sessions run ls" and pos: "0 < n" "0 < sessions"
  shows "\<exists>m. b \<le> length (dequeued pool_view (segment ls 0 m))"
proof -
  note ir = fair_class_run [OF fc]
  obtain m where m: "b \<le> length (enqueued pool_view (segment ls 0 m))" using many_pushed [OF assms] by blast
  obtain k where k: "k \<ge> m" "dequeued pool_view (segment ls m k) = pending_host_index_queue (run m)"
    using hq.all_served [OF ir class_attended [OF fc pos]] by blast
  have "pending_host_index_queue (run 0) = []" using fc by (simp add: fair_class_def pool_init_def)
  with hq.account_run [OF inf_run_lrun [OF ir, of 0 m]] k m dequeued_segment [OF k(1), of pool_view ls]
  show ?thesis by (intro exI [of _ k]) simp
qed

lemma rounds_map: "k \<le> n \<Longrightarrow> rounds n r k = map (\<lambda>p. int (p mod n)) [0..<r * n + k]"
proof (induction r)
  case 0
  then show ?case by (cases "k = n") (auto simp: rounds_def)
next
  case (Suc r)
  have "[0..<Suc r * n + k] = [0..<n] @ map (\<lambda>p. p + n) [0..<r * n + k]"
    using upt_add_eq_append [of 0 n "r * n + k"] by (simp add: map_add_upt add.commute add.left_commute)
  with Suc show ?case by (simp add: rounds_def)
qed

lemma dequeued_label: "x \<in> set (dequeued view tr) \<Longrightarrow> \<exists>l \<in> set tr. view l = Dequeue x"
  by (induction tr) (auto split: qop.splits)

lemma taken_again:
  assumes fc: "fair_class n sessions run ls" and pos: "k < n" "0 < sessions"
  shows "\<exists>m\<ge>N. \<exists>i. ls m = P_take i (int k)"
proof -
  let ?deq = "\<lambda>m. dequeued pool_view (segment ls 0 m)"
  note ir = fair_class_run [OF fc]
  define p where "p = length (?deq N) * n + k"
  obtain m where m: "Suc p \<le> length (?deq m)" using many_taken [OF fc] pos by fastforce
  have b: "length (?deq N) \<le> p" using pos(1) by (cases n) (auto simp: p_def)
  have "N \<le> m"
  proof (rule ccontr)
    assume "\<not> N \<le> m"
    then have "?deq N = ?deq m @ dequeued pool_view (segment ls m N)"
      by (intro dequeued_segment) simp
    with m b show False by simp
  qed
  then have app: "?deq m = ?deq N @ dequeued pool_view (segment ls N m)"
    by (rule dequeued_segment)
  have "?deq m ! p = int k"
  proof -
    have "lrun (pool_step n) (pool_init n sessions) (segment ls 0 m) (run m)"
      using inf_run_lrun [OF ir, of 0 m] fc by (simp add: fair_class_def)
    then obtain r j where "j \<le> n" "?deq m @ pending_host_index_queue (run m) = rounds n r j"
      using rounds_taken by blast
    then have q: "?deq m @ pending_host_index_queue (run m) = map (\<lambda>p. int (p mod n)) [0..<r * n + j]"
      by (simp add: rounds_map)
    from arg_cong [OF q, of length] m have "p < r * n + j" by simp
    with arg_cong [OF q, of "\<lambda>xs. xs ! p"] have "(?deq m @ pending_host_index_queue (run m)) ! p = int (p mod n)" by simp
    moreover have "p mod n = k" using pos(1) by (simp add: p_def)
    ultimately show ?thesis using m by (simp add: nth_append)
  qed
  then have "dequeued pool_view (segment ls N m) ! (p - length (?deq N)) = int k"
    using app b by (simp add: nth_append)
  moreover have "p - length (?deq N) < length (dequeued pool_view (segment ls N m))"
    using m b unfolding app by simp
  ultimately have "int k \<in> set (dequeued pool_view (segment ls N m))" by (metis nth_mem)
  then obtain l where l: "l \<in> set (segment ls N m)" "pool_view l = Dequeue (int k)" using dequeued_label by metis
  then obtain j where "N \<le> j" "l = ls j" by (auto simp: segment_def)
  moreover from l(2) obtain i where "l = P_take i (int k)" by (cases l) auto
  ultimately show ?thesis by blast
qed

lemma sessions_freed:
  assumes fc: "fair_class n sessions run ls" and pos: "0 < sessions"
  shows "\<exists>k\<ge>m. 0 < session_semaphore (run k)"
proof (cases "0 < session_semaphore (run m)")
  case False
  with fair_class_ok [OF fc, of m] pos have "0 < collecting (run m)" by (simp add: collecting_ok_def)
  then obtain i h where at: "at_worker (run m) i (W_collect h)"
    by (auto simp: count_pc_def at_worker_def filter_empty_conv in_set_conv_nth)
  obtain k where k: "k \<ge> m" "at_worker (run k) i (W_collect h)" "worker_moves i (run k) (ls k) (run (Suc k))"
    using worker_moves_again [OF fc at] worker_can_move [of _ i "W_collect h" n] by (metis may_move.simps(4) order_refl)
  from inf_run_step [OF fair_class_run [OF fc], of k] have "0 < session_semaphore (run (Suc k))"
    by (cases rule: pool_step.cases) (use k in \<open>auto simp: worker_moves_def at_worker_def set_worker_def nth_list_update split: if_splits\<close>)
  with k(1) show ?thesis by (intro exI [of _ "Suc k"]) simp
qed auto

section \<open>Properties\<close>

text \<open>
  C3. Every host is collected again and again: in each infinite run of a class until its shutdown that is
  fair to the main thread and to each worker, from every moment on every host of the class is collected
  by some worker sooner or later.
\<close>

theorem hosts_collected_forever:
  assumes "fair_class n sessions run ls" "k < n" "0 < sessions"
  shows "\<exists>m\<ge>N. \<exists>i. ls m = P_collect i k"
proof -
  note ir = fair_class_run [OF assms(1)]
  obtain m i where m: "m \<ge> N" "ls m = P_take i (int k)" using taken_again [OF assms] by blast
  from inf_run_step [OF ir, of m] have at: "at_worker (run (Suc m)) i (W_took k)"
    by (cases rule: pool_step.cases) (use m(2) in \<open>auto simp: at_worker_def set_worker_def\<close>)
  obtain j where j: "j \<ge> Suc m" "at_worker (run j) i (W_took k)" "worker_moves i (run j) (ls j) (run (Suc j))"
    using worker_moves_again [OF assms(1) at] sessions_freed [OF assms(1,3)] worker_can_move [of _ i "W_took k" n]
    by (metis may_move.simps(3) order_trans)
  from inf_run_step [OF ir, of j] have at': "at_worker (run (Suc j)) i (W_collect k)"
    by (cases rule: pool_step.cases) (use j in \<open>auto simp: worker_moves_def at_worker_def set_worker_def nth_list_update split: if_splits\<close>)
  obtain h where h: "h \<ge> Suc j" "at_worker (run h) i (W_collect k)" "worker_moves i (run h) (ls h) (run (Suc h))"
    using worker_moves_again [OF assms(1) at'] worker_can_move [of _ i "W_collect k" n] by (metis may_move.simps(4) order_refl)
  from inf_run_step [OF ir, of h] have "ls h = P_collect i k"
    by (cases rule: pool_step.cases) (use h in \<open>auto simp: worker_moves_def at_worker_def set_worker_def nth_list_update split: if_splits\<close>)
  moreover have "h \<ge> N" using m(1) j(1) h(1) by linarith
  ultimately show ?thesis by blast
qed

text \<open>A class with one host and one session: the main thread queues the host, the worker collects it.\<close>

definition one_host :: "main_pc \<Rightarrow> collector_pc \<Rightarrow> int list \<Rightarrow> nat \<Rightarrow> nat \<Rightarrow> pool" where
  "one_host m pc q sem sess = \<lparr>pending_host_index_queue = q, worker_semaphore = sem, session_semaphore = sess,
     pool_workers = [pc], pool_main = m, cancel_pending = False, pool_fin = F_idle\<rparr>"

definition one_host_states :: "pool list" where
  "one_host_states = [one_host M_top W_wait [] 0 1, one_host M_locked W_wait [] 0 1, one_host (M_push 0) W_wait [] 0 1,
     one_host (M_push 1) W_wait [0] 1 1, one_host M_unlock W_wait [0] 1 1, one_host M_sleep W_wait [0] 1 1,
     one_host M_sleep W_lock [0] 0 1, one_host M_sleep (W_took 0) [] 0 1, one_host M_sleep (W_collect 0) [] 0 0,
     one_host M_sleep W_wait [] 0 1]"

definition one_host_labels :: "pool_label list" where
  "one_host_labels = [P_tau, P_tau, P_push 0, P_tau, P_tau, P_tau, P_take 0 0, P_tau, P_collect 0 0, P_tau]"

lemma one_host_steps:
  "pool_step 1 (one_host M_top W_wait [] 0 1) P_tau (one_host M_locked W_wait [] 0 1)"
  "pool_step 1 (one_host M_locked W_wait [] 0 1) P_tau (one_host (M_push 0) W_wait [] 0 1)"
  "pool_step 1 (one_host (M_push 0) W_wait [] 0 1) (P_push 0) (one_host (M_push 1) W_wait [0] 1 1)"
  "pool_step 1 (one_host (M_push 1) W_wait [0] 1 1) P_tau (one_host M_unlock W_wait [0] 1 1)"
  "pool_step 1 (one_host M_unlock W_wait [0] 1 1) P_tau (one_host M_sleep W_wait [0] 1 1)"
  "pool_step 1 (one_host M_sleep W_wait [0] 1 1) P_tau (one_host M_sleep W_lock [0] 0 1)"
  "pool_step 1 (one_host M_sleep W_lock [0] 0 1) (P_take 0 0) (one_host M_sleep (W_took 0) [] 0 1)"
  "pool_step 1 (one_host M_sleep (W_took 0) [] 0 1) P_tau (one_host M_sleep (W_collect 0) [] 0 0)"
  "pool_step 1 (one_host M_sleep (W_collect 0) [] 0 0) (P_collect 0 0) (one_host M_sleep W_wait [] 0 1)"
  "pool_step 1 (one_host M_sleep W_wait [] 0 1) P_tau (one_host M_top W_wait [] 0 1)"
  using pool_step.m_lock [of "one_host M_top W_wait [] 0 1" 1]
    pool_step.m_empty [of "one_host M_locked W_wait [] 0 1" 1]
    pool_step.m_push [of "one_host (M_push 0) W_wait [] 0 1" 0 1]
    pool_step.m_pushed [of "one_host (M_push 1) W_wait [0] 1 1" 1 1]
    pool_step.m_unlock [of "one_host M_unlock W_wait [0] 1 1" 1]
    pool_step.p_wait [of "one_host M_sleep W_wait [0] 1 1" 0 1]
    pool_step.p_take [of "one_host M_sleep W_lock [0] 0 1" 0 0 "[]" 1]
    pool_step.p_session [of "one_host M_sleep (W_took 0) [] 0 1" 0 0 1]
    pool_step.p_collect [of "one_host M_sleep (W_collect 0) [] 0 0" 0 0 1]
    pool_step.m_wake [of "one_host M_sleep W_wait [] 0 1" 1]
  by (simp_all add: one_host_def at_worker_def set_worker_def lock_free_def)

lemma below_ten: "i < 10 \<Longrightarrow> i \<in> {0, 1, 2, 3, 4, 5, 6, 7, 8, 9 :: nat}"
  by auto

lemma one_host_fair: "fair_class 1 1 (cycle one_host_states) (cycle one_host_labels)"
proof -
  have len: "length one_host_states = 10" "length one_host_labels = 10"
    by (simp_all add: one_host_states_def one_host_labels_def)
  have "pool_step 1 (one_host_states ! i) (one_host_labels ! i) (one_host_states ! (Suc i mod 10))" if "i < 10" for i
  proof -
    from below_ten [OF that] show ?thesis using one_host_steps by (auto simp: one_host_states_def one_host_labels_def)
  qed
  then have "inf_run (pool_step 1) (cycle one_host_states) (cycle one_host_labels)"
    using len by (intro cycle_run) auto
  moreover have "weakly_fair (pool_step 1) main_moves (cycle one_host_states) (cycle one_host_labels)"
    using len by (intro cycle_weakly_fair [of _ _ 0]) (simp_all add: main_moves_def one_host_states_def one_host_def)
  moreover have "strongly_fair (pool_step 1) (worker_moves i) (cycle one_host_states) (cycle one_host_labels)" for i
  proof (cases i)
    case 0
    then show ?thesis
      using len by (intro cycle_strongly_fair [of _ _ 5]) (simp_all add: worker_moves_def one_host_states_def one_host_def)
  next
    case (Suc j)
    have "length (pool_workers (cycle one_host_states m)) = 1" for m
    proof -
      from below_ten [of "m mod 10"] show ?thesis unfolding cycle_def len by (auto simp: one_host_states_def one_host_def)
    qed
    with Suc show ?thesis by (simp add: strongly_fair_def worker_moves_def)
  qed
  moreover have "cycle one_host_states 0 = pool_init 1 1"
    by (simp add: cycle_def len) (simp add: one_host_states_def one_host_def pool_init_def max_num_workers_def)
  ultimately show ?thesis by (simp add: fair_class_def)
qed

theorem hosts_collected_forever_witness: "\<exists>m\<ge>100. \<exists>i. cycle one_host_labels m = P_collect i 0"
  using hosts_collected_forever [OF one_host_fair, of 0 100] by simp

end
