(* ===== verification/Xml_Load.thy ===== *)
theory Xml_Load
  imports Snapp_Prelude
begin

text \<open>
  \<^verbatim>\<open>xml_load.c\<close>: the configuration file. The parsed document is a parameter (what libxml2 makes
  of the file: no document, no root, or the children of the root with their attributes). The
  settings are character arrays of 256; the structure is not initialised, so an array that is not
  written keeps what the memory held.
\<close>

record xml_node =
  xn_name :: string
  xn_content :: "string option"
  xn_prop :: "string \<Rightarrow> string option"

datatype xml_doc = No_document | No_root | Root_children "xml_node list"

record db_config =
  username :: "char list"
  password :: "char list"
  dbname :: "char list"
  sqlite3_dbdir :: "char list"
  db_host :: "char list"
  db_port :: "char list"
  driver :: "char list"

record control_config =
  control_port :: "32 word"
  enable_password :: "char list"

record xml_config =
  collector_name :: "char list"
  control :: control_config
  xc_db :: db_config

datatype db_type = Db_none | Db_mysql | Db_sqlite

definition strcpy :: "char list \<Rightarrow> string \<Rightarrow> char list" where
  "strcpy dst src = src @ nul # drop (length src + 1) dst"

text \<open>\<^verbatim>\<open>strncpy(field,value,STD_STRING_SIZE-1)\<close> for an attribute that is present.\<close>

definition set_attribute :: "string option \<Rightarrow> char list \<Rightarrow> char list" where
  "set_attribute attr buf = (case attr of None \<Rightarrow> buf | Some v \<Rightarrow> strncpy buf v 255)"

definition mysql_defaults :: "db_config \<Rightarrow> db_config" where
  "mysql_defaults c =
     c\<lparr>driver := strcpy (driver c) ''mysql'', db_port := strcpy (db_port c) ''3306'',
       db_host := strcpy (db_host c) ''localhost'', username := strcpy (username c) [],
       password := strcpy (password c) [], dbname := strcpy (dbname c) ''snapp''\<rparr>"

definition sqlite_defaults :: "db_config \<Rightarrow> db_config" where
  "sqlite_defaults c =
     c\<lparr>driver := strcpy (driver c) ''sqlite3'', dbname := strcpy (dbname c) ''snapp.sqlite''\<rparr>"

definition mysql_attributes :: "xml_node \<Rightarrow> db_config \<Rightarrow> db_config" where
  "mysql_attributes cur c =
     c\<lparr>db_port := set_attribute (xn_prop cur ''port'') (db_port c),
       db_host := set_attribute (xn_prop cur ''host'') (db_host c),
       password := set_attribute (xn_prop cur ''password'') (password c),
       username := set_attribute (xn_prop cur ''username'') (username c),
       dbname := set_attribute (xn_prop cur ''name'') (dbname c)\<rparr>"

text \<open>One \<^verbatim>\<open>db\<close> element; the type of an earlier element stays in force when this one's is unknown.\<close>

definition load_db_node :: "xml_node \<Rightarrow> db_type \<times> db_config \<Rightarrow> (db_type \<times> db_config) result" where
  "load_db_node cur = (\<lambda>(ty, c).
     case xn_prop cur ''type'' of
       None \<Rightarrow> Inl Assertion_failed
     | Some t \<Rightarrow>
         let (ty1, c1) = (if t = ''mysql'' then (Db_mysql, mysql_defaults c)
                          else if t = ''sqlite'' then (Db_sqlite, sqlite_defaults c)
                          else (ty, c))
         in Inr (ty1, if ty1 = Db_mysql then mysql_attributes cur c1 else c1))"

definition load_control_node :: "xml_node \<Rightarrow> control_config \<Rightarrow> control_config result" where
  "load_control_node cur c =
     (case xn_prop cur ''port'' of
        None \<Rightarrow> Inl Assertion_failed
      | Some p \<Rightarrow>
          (case xn_prop cur ''enable_password'' of
             None \<Rightarrow> Inl Assertion_failed
           | Some w \<Rightarrow> Inr (c\<lparr>control_port := atoi p, enable_password := strncpy (enable_password c) w 255\<rparr>)))"

definition load_xml_node :: "xml_node \<Rightarrow> db_type \<times> xml_config \<Rightarrow> (db_type \<times> xml_config) result" where
  "load_xml_node cur = (\<lambda>(ty, x).
     if xn_name cur = ''name'' then
       (case xn_content cur of
          None \<Rightarrow> Inl Assertion_failed
        | Some v \<Rightarrow> Inr (ty, x\<lparr>collector_name := strncpy (collector_name x) v 255\<rparr>))
     else if xn_name cur = ''db'' then
       bind_result (load_db_node cur (ty, xc_db x)) (\<lambda>(ty', c). Inr (ty', x\<lparr>xc_db := c\<rparr>))
     else if xn_name cur = ''control'' then
       bind_result (load_control_node cur (control x)) (\<lambda>c. Inr (ty, x\<lparr>control := c\<rparr>))
     else Inr (ty, x))"

fun load_xml_nodes :: "xml_node list \<Rightarrow> db_type \<times> xml_config \<Rightarrow> (db_type \<times> xml_config) result" where
  "load_xml_nodes [] st = Inr st"
| "load_xml_nodes (cur # nodes) st = bind_result (load_xml_node cur st) (load_xml_nodes nodes)"

definition load_xml_config :: "xml_doc \<Rightarrow> xml_config \<Rightarrow> (int \<times> xml_config) result" where
  "load_xml_config doc x =
     (case doc of
        No_document \<Rightarrow> Inr (- 1, x)
      | No_root \<Rightarrow> Inr (- 1, x)
      | Root_children nodes \<Rightarrow> bind_result (load_xml_nodes nodes (Db_none, x)) (\<lambda>(_, x'). Inr (0, x')))"

section \<open>What the settings become\<close>

lemma read_strcpy [simp]: "no_nul src \<Longrightarrow> read_buf (strcpy dst src) = Inr src"
  by (simp add: strcpy_def read_buf_def)

definition fits :: "string option \<Rightarrow> bool" where
  "fits a = (case a of None \<Rightarrow> True | Some v \<Rightarrow> no_nul v \<and> length v < 255)"

lemma read_set_attribute:
  "fits a \<Longrightarrow> read_buf buf = Inr d \<Longrightarrow>
   read_buf (set_attribute a buf) = Inr (case a of None \<Rightarrow> d | Some v \<Rightarrow> v)"
  by (auto simp: fits_def set_attribute_def strncpy_fits split: option.split)

lemma load_xml_other:
  "\<forall>cur \<in> set nodes. xn_name cur \<notin> {''name'', ''db'', ''control''} \<Longrightarrow> load_xml_nodes nodes st = Inr st"
  by (induction nodes) (auto simp: load_xml_node_def)

lemma load_xml_nodes_append:
  "load_xml_nodes (as @ bs) st = bind_result (load_xml_nodes as st) (load_xml_nodes bs)"
  by (induction as arbitrary: st) (auto simp: bind_result_def split: sum.split)


definition blank_xml_config :: xml_config where
  "blank_xml_config = \<lparr>collector_name = [], control = \<lparr>control_port = 0, enable_password = []\<rparr>,
     xc_db = \<lparr>username = [], password = [], dbname = [], sqlite3_dbdir = [], db_host = [], db_port = [], driver = []\<rparr>\<rparr>"


text \<open>
  A SQLite configuration takes no attribute at all: the database name is fixed and the directory
  keeps what the memory held, although the configuration schema gives the element a \<^verbatim>\<open>name\<close>.
\<close>

lemma xml_sqlite_settings:
  assumes "xn_prop d ''type'' = Some ''sqlite''"
  shows "\<exists>c'. load_db_node d (Db_none, c) = Inr (Db_sqlite, c') \<and>
    read_buf (dbname c') = Inr ''snapp.sqlite'' \<and> read_buf (driver c') = Inr ''sqlite3'' \<and>
    sqlite3_dbdir c' = sqlite3_dbdir c"
  using assms by (simp add: load_db_node_def sqlite_defaults_def)

end
