(* ===== verification/Snapp_Config.thy ===== *)
theory Snapp_Config
  imports Collection_Sched Xml_Load
begin

text \<open>
  \<^verbatim>\<open>snapp_config.cpp\<close>, loading: the configuration database is a parameter, one function per
  query with its rows in the order the query returns them (None: the query fails). A text column
  may be null; assigning a null \<^verbatim>\<open>char *\<close> to a \<^verbatim>\<open>std::string\<close> is undefined. \<open>Inr None\<close> is
  a return of -1.
\<close>

section \<open>The database\<close>

record host_row =
  hr_host_id :: "32 word"
  hr_ip_address :: "string option"
  hr_community :: "string option"
  hr_oid :: "string option"

record mapping_row =
  mr_id :: "32 word"
  mr_name :: "string option"
  mr_oid :: "string option"
  mr_next :: "32 word option"

record mapping_value_row =
  vr_oid :: "string option"
  vr_next :: "32 word option"

record collection_row =
  cr_class_id :: "32 word"
  cr_interval :: "32 word"
  cr_name :: "string option"
  cr_host_id :: "32 word"
  cr_mapping_id :: "32 word option"
  cr_rrdfile :: "string option"
  cr_premap :: "string option"

record oid_row =
  or_ds_name :: "string option"
  or_oid_prefix :: "string option"
  or_datatype :: "string option"

text \<open>\<^verbatim>\<open>xff\<close> is a double that is only ever printed with \<^verbatim>\<open>%f\<close>: the model keeps that text.\<close>

record rra_row =
  rr_step :: "32 word"
  rr_num_days :: "32 word"
  rr_xff :: string
  rr_cf :: "string option"

datatype db_connect = Driver_missing | Connect_failed | Connected

record database =
  db_connect :: "(string \<times> char list) list \<Rightarrow> db_connect"
  start_transaction :: bool
  commit_transaction :: bool
  host_rows :: "host_row list option"
  mapping_rows :: "mapping_row list option"
  mapping_value_rows :: "32 word \<Rightarrow> mapping_value_row list option"
  collection_rows :: "nat \<Rightarrow> nat \<Rightarrow> collection_row list option"
  oid_rows :: "32 word \<Rightarrow> oid_row list option"
  rra_rows :: "32 word \<Rightarrow> rra_row list option"
  global_rows :: "(string option \<times> string option) list option"

definition get_string :: "string option \<Rightarrow> string result" where
  "get_string v = (case v of None \<Rightarrow> Inl Undefined | Some s \<Rightarrow> Inr s)"

lemma get_string_simps [simp]: "get_string None = Inl Undefined" "get_string (Some s) = Inr s"
  by (simp_all add: get_string_def)

section \<open>The configuration\<close>

record rra_definition =
  steps :: "32 word"
  cf :: string
  numdays :: "32 word"
  xff :: string

record sql_collection_class =
  cc_db_id :: "32 word"
  interval :: "32 word"
  cc_name :: string
  cc_oid :: "oid_collection list"
  cc_rra :: "rra_definition list"
  cc_host :: "sql_host list"

record snapp_config =
  host_table :: host_info_table
  sequence_db :: oid_mapping_sequence_db
  collection_class :: "sql_collection_class list"
  rrd_dir :: string
  sc_xml :: xml_config

section \<open>Connecting\<close>

text \<open>\<^verbatim>\<open>strncmp(name,driver,15)\<close> on the driver's array.\<close>

definition driver_is :: "string \<Rightarrow> char list \<Rightarrow> bool" where
  "driver_is name drv \<longleftrightarrow> take 15 (c_str drv) = take 15 name"

definition connect_options :: "db_config \<Rightarrow> (string \<times> char list) list" where
  "connect_options c =
     [(''dbname'', dbname c)] @
     (if driver_is ''mysql'' (driver c)
      then [(''host'', db_host c), (''port'', db_port c), (''username'', username c), (''password'', password c)]
      else []) @
     (if driver_is ''sqlite3'' (driver c)
      then [(''sqlite3db_dir'', sqlite3_dbdir c), (''sqlite3_timeout'', ''100'')] else [])"

definition connect_to_db :: "database \<Rightarrow> db_config \<Rightarrow> unit option result" where
  "connect_to_db db c =
     (case db_connect db (connect_options c) of
        Driver_missing \<Rightarrow> Inl (Exit_process 1)
      | Connect_failed \<Rightarrow> Inr None
      | Connected \<Rightarrow> Inr (Some ()))"

section \<open>Hosts and mapping sequences\<close>

definition empty_value_table :: "string \<Rightarrow> oid_value_table" where
  "empty_value_table oi = \<lparr>vt_oid = oi, suffix_of = [], value_of = []\<rparr>"

definition host_of_row :: "32 word \<Rightarrow> host_row \<Rightarrow> host_info result" where
  "host_of_row garbage r =
     bind_result (get_string (hr_ip_address r)) (\<lambda>ip.
     bind_result (get_string (hr_community r)) (\<lambda>comm.
       Inr ((new_host_info garbage)
         \<lparr>db_id := hr_host_id r, ip_address := ip, community := comm,
          oid_table := (case hr_oid r of None \<Rightarrow> [] | Some oi \<Rightarrow> [(oi, empty_value_table oi)])\<rparr>)))"

fun load_host_rows :: "32 word \<Rightarrow> host_row list \<Rightarrow> host_info_table \<Rightarrow> host_info_table result" where
  "load_host_rows garbage [] t = Inr t"
| "load_host_rows garbage (r # rs) t =
     bind_result (host_of_row garbage r) (\<lambda>h. load_host_rows garbage rs (fst (insert_new_host t h)))"

text \<open>\<open>garbage\<close>: what the uninitialised \<^verbatim>\<open>mapping_done\<close> of the local host object holds.\<close>

definition load_hosts :: "32 word \<Rightarrow> database \<Rightarrow> snapp_config \<Rightarrow> snapp_config option result" where
  "load_hosts garbage db c =
     (case host_rows db of
        None \<Rightarrow> Inr None
      | Some rs \<Rightarrow> bind_result (load_host_rows garbage rs (host_table c)) (\<lambda>t. Inr (Some (c\<lparr>host_table := t\<rparr>))))"

definition max_sequence_length :: nat where "max_sequence_length = 10"

fun mapping_chain :: "(32 word \<Rightarrow> mapping_value_row list option) \<Rightarrow> nat \<Rightarrow> 32 word \<Rightarrow> string list result" where
  "mapping_chain rows 0 next_db_id = Inr []"
| "mapping_chain rows (Suc n) next_db_id =
     (case rows next_db_id of
        None \<Rightarrow> Inr []
      | Some [] \<Rightarrow> Inr []
      | Some (r # _) \<Rightarrow>
          bind_result (get_string (vr_oid r)) (\<lambda>oi.
            case vr_next r of
              None \<Rightarrow> Inr [oi]
            | Some d \<Rightarrow> bind_result (mapping_chain rows n d) (\<lambda>os. Inr (oi # os))))"

definition sequence_of_row :: "database \<Rightarrow> mapping_row \<Rightarrow> oid_mapping_sequence result" where
  "sequence_of_row db r =
     bind_result (get_string (mr_name r)) (\<lambda>name.
     bind_result (get_string (mr_oid r)) (\<lambda>oi.
     bind_result (case mr_next r of None \<Rightarrow> Inr []
                  | Some d \<Rightarrow> mapping_chain (mapping_value_rows db) max_sequence_length d) (\<lambda>os.
       Inr \<lparr>ms_name = name, ms_db_id = mr_id r, ms_oid = oi # os\<rparr>)))"

fun load_mapping_rows :: "database \<Rightarrow> mapping_row list \<Rightarrow> oid_mapping_sequence_db \<Rightarrow> oid_mapping_sequence_db result" where
  "load_mapping_rows db [] t = Inr t"
| "load_mapping_rows db (r # rs) t =
     bind_result (sequence_of_row db r) (\<lambda>s. load_mapping_rows db rs (fst (insert_new_sequence t s)))"

definition load_mapping_sequences :: "database \<Rightarrow> snapp_config \<Rightarrow> snapp_config option result" where
  "load_mapping_sequences db c =
     (case mapping_rows db of
        None \<Rightarrow> Inr None
      | Some rs \<Rightarrow> bind_result (load_mapping_rows db rs (sequence_db c)) (\<lambda>t. Inr (Some (c\<lparr>sequence_db := t\<rparr>))))"

section \<open>Collection classes\<close>

text \<open>What the block loader carries from row to row, and from block to block.\<close>

record class_loader =
  cl_classes :: "sql_collection_class list"
  cl_hosts :: host_info_table
  last_db_id :: "32 word"
  last_host_id :: "32 word"
  host_index :: int

text \<open>The hosts of a class start with the clock fields of an uninitialised object (\<open>junk\<close>).\<close>

definition class_of_row :: "collection_row \<Rightarrow> string \<Rightarrow> sql_collection_class" where
  "class_of_row r name =
     \<lparr>cc_db_id = cr_class_id r, interval = cr_interval r, cc_name = name, cc_oid = [], cc_rra = [], cc_host = []\<rparr>"

definition enter_class :: "collection_row \<Rightarrow> class_loader \<Rightarrow> class_loader result" where
  "enter_class r st =
     (if last_db_id st \<noteq> cr_class_id r then
        bind_result (get_string (cr_name r)) (\<lambda>name.
          Inr (st\<lparr>last_db_id := cr_class_id r, cl_classes := cl_classes st @ [class_of_row r name],
                  last_host_id := - 1, host_index := - 1\<rparr>))
      else Inr st)"

definition update_last :: "('a \<Rightarrow> 'a) \<Rightarrow> 'a list \<Rightarrow> 'a list" where
  "update_last f xs = butlast xs @ [f (last xs)]"

definition enter_host :: "32 word \<times> 32 word \<Rightarrow> collection_row \<Rightarrow> class_loader \<Rightarrow> class_loader option result" where
  "enter_host junk r st =
     (if last_host_id st \<noteq> cr_host_id r then
        bind_result (get_host_for_db_id (cl_hosts st) (cr_host_id r)) (\<lambda>p.
          case p of
            None \<Rightarrow> Inr None
          | Some i \<Rightarrow>
              if cl_classes st = [] then Inl Undefined
              else let h = \<lparr>collection = [], sh_host = Some i, timeticks = fst junk, mytime = snd junk\<rparr>;
                       hs = cc_host (last (cl_classes st)) @ [h]
                   in Inr (Some (st\<lparr>cl_classes := update_last (\<lambda>c. c\<lparr>cc_host := hs\<rparr>) (cl_classes st),
                                   host_index := int (length hs) - 1, last_host_id := cr_host_id r\<rparr>)))
      else Inr (Some st))"

text \<open>An empty value table for every OID of the sequence, in the host the row belongs to.\<close>

definition add_tables :: "string list \<Rightarrow> nat \<Rightarrow> host_info_table \<Rightarrow> host_info_table" where
  "add_tables oids i t =
     t\<lparr>host := (host t)[i := (host t ! i)
        \<lparr>oid_table := fold (\<lambda>oi. omap_put oi (empty_value_table oi)) oids (oid_table (host t ! i))\<rparr>]\<rparr>"

definition bind_opt :: "'a option result \<Rightarrow> ('a \<Rightarrow> 'b option result) \<Rightarrow> 'b option result" where
  "bind_opt r f = bind_result r (\<lambda>p. case p of None \<Rightarrow> Inr None | Some x \<Rightarrow> f x)"

text \<open>The mapping of a collection: -1 for none, otherwise its id and the OIDs of the sequence.\<close>

definition row_mapping :: "oid_mapping_sequence_db \<Rightarrow> collection_row \<Rightarrow> (64 word \<times> string list) option result" where
  "row_mapping seqs r =
     (case cr_mapping_id r of
        None \<Rightarrow> Inr (Some (- 1, []))
      | Some m \<Rightarrow> bind_opt (get_sequence_by_db_id seqs m) (\<lambda>seq. Inr (Some (word_of_int (sint m), ms_oid seq))))"

definition push_collection :: "nat \<Rightarrow> sql_collection \<Rightarrow> sql_collection_class \<Rightarrow> sql_collection_class" where
  "push_collection j c cc =
     cc\<lparr>cc_host := (cc_host cc)[j := (cc_host cc ! j)\<lparr>collection := collection (cc_host cc ! j) @ [c]\<rparr>]\<rparr>"

definition add_collection :: "oid_mapping_sequence_db \<Rightarrow> collection_row \<Rightarrow> class_loader \<Rightarrow> class_loader option result" where
  "add_collection seqs r st =
     bind_result (get_string (cr_rrdfile r)) (\<lambda>rrdfile.
     bind_result (get_string (cr_premap r)) (\<lambda>premap.
     bind_opt (row_mapping seqs r) (\<lambda>(m, oids).
       if cl_classes st = [] \<or> host_index st < 0 \<or> int (length (cc_host (last (cl_classes st)))) \<le> host_index st
       then Inl Undefined
       else
         let j = nat (host_index st);
             c = \<lparr>premaping_oid_suffix = premap, post_mapping_oid_suffix = [],
                  oid_mapping_sequence_db_id = m, rrd_filename = rrdfile\<rparr>;
             classes = update_last (push_collection j c) (cl_classes st)
         in case sh_host (cc_host (last (cl_classes st)) ! j) of
              None \<Rightarrow> if oids = [] then Inr (Some (st\<lparr>cl_classes := classes\<rparr>)) else Inl Undefined
            | Some i \<Rightarrow> Inr (Some (st\<lparr>cl_hosts := add_tables oids i (cl_hosts st), cl_classes := classes\<rparr>)))))"

definition load_row :: "32 word \<times> 32 word \<Rightarrow> oid_mapping_sequence_db \<Rightarrow> collection_row \<Rightarrow> class_loader \<Rightarrow> class_loader option result" where
  "load_row junk seqs r st =
     bind_result (enter_class r st) (\<lambda>st1. bind_opt (enter_host junk r st1) (add_collection seqs r))"

fun load_rows :: "32 word \<times> 32 word \<Rightarrow> oid_mapping_sequence_db \<Rightarrow> collection_row list \<Rightarrow> class_loader \<Rightarrow> class_loader option result" where
  "load_rows junk seqs [] st = Inr (Some st)"
| "load_rows junk seqs (r # rs) st = bind_opt (load_row junk seqs r st) (load_rows junk seqs rs)"

definition load_collection_class_block ::
  "32 word \<times> 32 word \<Rightarrow> database \<Rightarrow> oid_mapping_sequence_db \<Rightarrow> nat \<Rightarrow> nat \<Rightarrow> class_loader \<Rightarrow> (nat \<times> class_loader) option result" where
  "load_collection_class_block junk db seqs limit offset st =
     (case collection_rows db limit offset of
        None \<Rightarrow> Inr None
      | Some rs \<Rightarrow> bind_opt (load_rows junk seqs rs st) (\<lambda>st'. Inr (Some (length rs, st'))))"

definition row_limit :: nat where "row_limit = 5000"

text \<open>The loop over blocks; None when it never ends.\<close>

partial_function (option) load_blocks ::
  "32 word \<times> 32 word \<Rightarrow> database \<Rightarrow> oid_mapping_sequence_db \<Rightarrow> nat \<Rightarrow> class_loader \<Rightarrow> class_loader option result option" where
  "load_blocks junk db seqs num_rows_done st =
     (case load_collection_class_block junk db seqs row_limit num_rows_done st of
        Inl e \<Rightarrow> Some (Inl e)
      | Inr p \<Rightarrow>
          (case p of
             None \<Rightarrow> Some (Inr None)
           | Some (affected_rows, st') \<Rightarrow>
               if row_limit = affected_rows then load_blocks junk db seqs (num_rows_done + affected_rows) st'
               else Some (Inr (Some st'))))"

definition load_collection_classes ::
  "32 word \<times> 32 word \<Rightarrow> database \<Rightarrow> snapp_config \<Rightarrow> snapp_config option result option" where
  "load_collection_classes junk db c =
     (if collection_class c \<noteq> [] then Some (Inl Assertion_failed)
      else map_option (\<lambda>r. bind_opt r (\<lambda>st. Inr (Some (c\<lparr>collection_class := cl_classes st, host_table := cl_hosts st\<rparr>))))
        (load_blocks junk db (sequence_db c) 0
          \<lparr>cl_classes = [], cl_hosts = host_table c, last_db_id = - 1, last_host_id = - 1, host_index = - 1\<rparr>))"

section \<open>OIDs, archives and globals\<close>

definition assert_string :: "string option \<Rightarrow> string result" where
  "assert_string v = (case v of None \<Rightarrow> Inl Assertion_failed | Some s \<Rightarrow> Inr s)"

definition oid_of_row :: "oid_row \<Rightarrow> oid_collection result" where
  "oid_of_row r =
     bind_result (assert_string (or_ds_name r)) (\<lambda>dn.
     bind_result (assert_string (or_datatype r)) (\<lambda>dt.
     bind_result (assert_string (or_oid_prefix r)) (\<lambda>op.
       Inr \<lparr>oid_prefix = op, ds_datatype = dt, ds_name = dn\<rparr>)))"

definition rra_of_row :: "rra_row \<Rightarrow> rra_definition result" where
  "rra_of_row r =
     bind_result (get_string (rr_cf r)) (\<lambda>c.
       Inr \<lparr>steps = rr_step r, cf = c, numdays = rr_num_days r, xff = rr_xff r\<rparr>)"

fun map_result :: "('a \<Rightarrow> 'b result) \<Rightarrow> 'a list \<Rightarrow> 'b list result" where
  "map_result f [] = Inr []"
| "map_result f (x # xs) = bind_result (f x) (\<lambda>y. bind_result (map_result f xs) (\<lambda>ys. Inr (y # ys)))"

text \<open>One query per class; the first that fails ends the loop with -1.\<close>

fun load_classes_oid :: "database \<Rightarrow> sql_collection_class list \<Rightarrow> sql_collection_class list option result" where
  "load_classes_oid db [] = Inr (Some [])"
| "load_classes_oid db (cc # ccs) =
     (case oid_rows db (cc_db_id cc) of
        None \<Rightarrow> Inr None
      | Some rs \<Rightarrow> bind_result (map_result oid_of_row rs) (\<lambda>os.
          bind_opt (load_classes_oid db ccs) (\<lambda>ccs'. Inr (Some (cc\<lparr>cc_oid := cc_oid cc @ os\<rparr> # ccs')))))"

definition load_colection_classes_oid :: "database \<Rightarrow> snapp_config \<Rightarrow> snapp_config option result" where
  "load_colection_classes_oid db c =
     bind_opt (load_classes_oid db (collection_class c)) (\<lambda>ccs. Inr (Some (c\<lparr>collection_class := ccs\<rparr>)))"

fun load_classes_rra :: "database \<Rightarrow> sql_collection_class list \<Rightarrow> sql_collection_class list option result" where
  "load_classes_rra db [] = Inr (Some [])"
| "load_classes_rra db (cc # ccs) =
     (case rra_rows db (cc_db_id cc) of
        None \<Rightarrow> Inr None
      | Some rs \<Rightarrow> bind_result (map_result rra_of_row rs) (\<lambda>as.
          bind_opt (load_classes_rra db ccs) (\<lambda>ccs'. Inr (Some (cc\<lparr>cc_rra := cc_rra cc @ as\<rparr> # ccs')))))"

definition load_colection_classes_rra :: "database \<Rightarrow> snapp_config \<Rightarrow> snapp_config option result" where
  "load_colection_classes_rra db c =
     bind_opt (load_classes_rra db (collection_class c)) (\<lambda>ccs. Inr (Some (c\<lparr>collection_class := ccs\<rparr>)))"

fun load_global_rows :: "(string option \<times> string option) list \<Rightarrow> string \<Rightarrow> string result" where
  "load_global_rows [] dir = Inr dir"
| "load_global_rows ((n, v) # rs) dir =
     bind_result (get_string n) (\<lambda>name.
     bind_result (get_string v) (\<lambda>val.
       load_global_rows rs (if name = ''rrddir'' then val @ ''/'' else dir)))"

definition load_globals :: "database \<Rightarrow> snapp_config \<Rightarrow> snapp_config option result" where
  "load_globals db c =
     (case global_rows db of
        None \<Rightarrow> Inr None
      | Some rs \<Rightarrow> bind_result (load_global_rows rs (rrd_dir c)) (\<lambda>dir. Inr (Some (c\<lparr>rrd_dir := dir\<rparr>))))"

section \<open>Loading a configuration\<close>

text \<open>\<open>then_opt\<close>: the next stage of the loader, unless an earlier one failed or never ends.\<close>

definition then_opt :: "'a option result option \<Rightarrow> ('a \<Rightarrow> 'b option result option) \<Rightarrow> 'b option result option" where
  "then_opt r f = (case r of None \<Rightarrow> None | Some (Inl e) \<Rightarrow> Some (Inl e) | Some (Inr None) \<Rightarrow> Some (Inr None)
     | Some (Inr (Some x)) \<Rightarrow> f x)"

text \<open>
  \<open>load_config\<close>: a failed stage still ends the transaction; whatever the stages did, a failing
  commit is a failure.
\<close>

definition load_config ::
  "32 word \<Rightarrow> 32 word \<times> 32 word \<Rightarrow> xml_doc \<Rightarrow> database \<Rightarrow> snapp_config \<Rightarrow> snapp_config option result option" where
  "load_config garbage junk doc db c =
     (case load_xml_config doc (sc_xml c) of
        Inl e \<Rightarrow> Some (Inl e)
      | Inr (rvalue, x) \<Rightarrow>
          if rvalue < 0 then Some (Inr None)
          else then_opt (Some (connect_to_db db (xc_db x))) (\<lambda>_.
            if \<not> start_transaction db then Some (Inr None)
            else map_option (\<lambda>r. bind_result r (\<lambda>p. if commit_transaction db then Inr p else Inr None))
              (then_opt (Some (load_hosts garbage db (c\<lparr>sc_xml := x\<rparr>))) (\<lambda>c1.
               then_opt (Some (load_mapping_sequences db c1)) (\<lambda>c2.
               then_opt (load_collection_classes junk db c2) (\<lambda>c3.
               then_opt (Some (load_colection_classes_oid db c3)) (\<lambda>c4.
               then_opt (Some (load_colection_classes_rra db c4)) (\<lambda>c5.
               Some (load_globals db c5)))))))))"

section \<open>Paging\<close>

lemma bind_opt_simps [simp]:
  "bind_opt (Inl e) f = Inl e" "bind_opt (Inr None) f = Inr None" "bind_opt (Inr (Some x)) f = f x"
  by (simp_all add: bind_opt_def)

lemma bind_opt_eq_Some: "bind_opt r f = Inr (Some y) \<longleftrightarrow> (\<exists>x. r = Inr (Some x) \<and> f x = Inr (Some y))"
  by (auto simp: bind_opt_def bind_result_eq_Inr split: option.splits)

lemma bind_opt_assoc: "bind_opt (bind_opt r f) g = bind_opt r (\<lambda>x. bind_opt (f x) g)"
  by (auto simp: bind_opt_def bind_result_def split: sum.split option.split)

lemma load_rows_append:
  "load_rows junk seqs (as @ bs) st = bind_opt (load_rows junk seqs as st) (load_rows junk seqs bs)"
proof (induction as arbitrary: st)
  case (Cons a as)
  then have "load_rows junk seqs (as @ bs) = (\<lambda>st. bind_opt (load_rows junk seqs as st) (load_rows junk seqs bs))"
    by (intro ext)
  then show ?case by (simp add: bind_opt_assoc)
qed simp

lemma load_blocks_pages:
  assumes "\<forall>limit offset. collection_rows db limit offset = Some (take limit (drop offset rows))"
  shows "load_blocks junk db seqs n st = Some (load_rows junk seqs (drop n rows) st)"
proof (induction "length rows - n" arbitrary: n st rule: less_induct)
  case less
  define block where "block = take row_limit (drop n rows)"
  have split: "load_rows junk seqs (drop n rows) st =
      bind_opt (load_rows junk seqs block st) (load_rows junk seqs (drop (n + row_limit) rows))"
    unfolding block_def by (metis add.commute append_take_drop_id drop_drop load_rows_append)
  have load: "load_collection_class_block junk db seqs row_limit n st =
      bind_opt (load_rows junk seqs block st) (\<lambda>st'. Inr (Some (length block, st')))"
    using assms by (simp add: load_collection_class_block_def block_def)
  have len: "length block = min row_limit (length rows - n)" by (simp add: block_def min.commute)
  have full: "length rows - (n + row_limit) < length rows - n" if "row_limit = length block"
    using that len by (simp add: row_limit_def)
  have rest: "drop (n + row_limit) rows = []" if "row_limit \<noteq> length block"
    using that len by (simp add: min_def split: if_splits)
  show ?case
  proof (cases "load_rows junk seqs block st")
    case (Inl e)
    with split load show ?thesis by (subst load_blocks.simps) simp
  next
    case (Inr p)
    with split load less.hyps [OF full] rest show ?thesis
      by (subst load_blocks.simps) (cases p; cases "row_limit = length block"; simp)
  qed
qed


definition demo_db :: database where
  "demo_db =
     (let rows = [\<lparr>cr_class_id = 1, cr_interval = 60, cr_name = Some ''c'', cr_host_id = 7, cr_mapping_id = None,
                   cr_rrdfile = Some ''a.rrd'', cr_premap = Some ''1''\<rparr>,
                  \<lparr>cr_class_id = 1, cr_interval = 60, cr_name = Some ''c'', cr_host_id = 7, cr_mapping_id = None,
                   cr_rrdfile = Some ''b.rrd'', cr_premap = Some ''2''\<rparr>]
      in \<lparr>db_connect = (\<lambda>_. Connected), start_transaction = True, commit_transaction = True,
          host_rows = Some [\<lparr>hr_host_id = 7, hr_ip_address = Some ''10.0.0.1'', hr_community = Some ''public'', hr_oid = None\<rparr>],
          mapping_rows = Some [], mapping_value_rows = (\<lambda>_. Some []),
          collection_rows = (\<lambda>limit offset. Some (take limit (drop offset rows))),
          oid_rows = (\<lambda>_. Some []), rra_rows = (\<lambda>_. Some []), global_rows = Some []\<rparr>)"

definition demo_rows :: "collection_row list" where
  "demo_rows = [\<lparr>cr_class_id = 1, cr_interval = 60, cr_name = Some ''c'', cr_host_id = 7, cr_mapping_id = None,
       cr_rrdfile = Some ''a.rrd'', cr_premap = Some ''1''\<rparr>,
     \<lparr>cr_class_id = 1, cr_interval = 60, cr_name = Some ''c'', cr_host_id = 7, cr_mapping_id = None,
       cr_rrdfile = Some ''b.rrd'', cr_premap = Some ''2''\<rparr>]"

definition demo_loader :: class_loader where
  "demo_loader = \<lparr>cl_classes = [],
     cl_hosts = fst (insert_new_host empty_host_table ((new_host_info 0)\<lparr>db_id := 7\<rparr>)),
     last_db_id = - 1, last_host_id = - 1, host_index = - 1\<rparr>"


section \<open>What is loaded\<close>

text \<open>Class id, host, file, suffix before the mapping, mapping id, suffix after the mapping.\<close>

type_synonym flat_collection = "32 word \<times> nat option \<times> string option \<times> string option \<times> 64 word \<times> string"

definition flatten :: "sql_collection_class list \<Rightarrow> flat_collection list" where
  "flatten classes = concat (map (\<lambda>cc. concat (map (\<lambda>h. map (\<lambda>c.
     (cc_db_id cc, sh_host h, Some (rrd_filename c), Some (premaping_oid_suffix c), oid_mapping_sequence_db_id c,
      post_mapping_oid_suffix c))
     (collection h)) (cc_host cc))) classes)"

definition flat_row :: "host_info_table \<Rightarrow> collection_row \<Rightarrow> flat_collection" where
  "flat_row t r =
     (cr_class_id r, map_option unat (db_id_to_index t (cr_host_id r)), cr_rrdfile r, cr_premap r,
      (case cr_mapping_id r of None \<Rightarrow> - 1 | Some m \<Rightarrow> word_of_int (sint m)), [])"

definition loader_ok :: "class_loader \<Rightarrow> bool" where
  "loader_ok st \<longleftrightarrow>
     (if cl_classes st = [] then last_db_id st = - 1 \<and> host_index st = - 1
      else cc_db_id (last (cl_classes st)) = last_db_id st \<and>
           host_index st = int (length (cc_host (last (cl_classes st)))) - 1 \<and>
           (0 \<le> host_index st \<longrightarrow>
              sh_host (last (cc_host (last (cl_classes st)))) =
                map_option unat (db_id_to_index (cl_hosts st) (last_host_id st))))"

lemma flatten_snoc: "flatten (ccs @ [cc]) = flatten ccs @ flatten [cc]"
  by (simp add: flatten_def)

lemma update_last_snoc [simp]: "update_last f (xs @ [x]) = xs @ [f x]"
  by (simp add: update_last_def)

lemma add_tables_index [simp]: "db_id_to_index (add_tables oids i t) = db_id_to_index t"
  by (simp add: add_tables_def)

lemma enter_class_ok:
  assumes "loader_ok st" "enter_class r st = Inr st1"
  shows "loader_ok st1 \<and> flatten (cl_classes st1) = flatten (cl_classes st) \<and> cl_hosts st1 = cl_hosts st \<and>
    (cl_classes st1 \<noteq> [] \<longrightarrow> last_db_id st1 = cr_class_id r \<and>
       map cc_db_id (cl_classes st1) =
         (if cl_classes st \<noteq> [] \<and> cc_db_id (last (cl_classes st)) = cr_class_id r
          then map cc_db_id (cl_classes st) else map cc_db_id (cl_classes st) @ [cr_class_id r]))"
  using assms
  by (auto simp: enter_class_def bind_result_eq_Inr loader_ok_def class_of_row_def flatten_def split: if_splits)

lemma enter_host_ok:
  assumes "loader_ok st" "enter_host junk r st = Inr (Some st1)"
  shows "loader_ok st1 \<and> flatten (cl_classes st1) = flatten (cl_classes st) \<and>
    db_id_to_index (cl_hosts st1) = db_id_to_index (cl_hosts st) \<and> last_db_id st1 = last_db_id st \<and>
    last_host_id st1 = cr_host_id r \<and> map cc_db_id (cl_classes st1) = map cc_db_id (cl_classes st)"
proof (cases "last_host_id st = cr_host_id r")
  case True
  with assms show ?thesis by (auto simp: enter_host_def)
next
  case False
  with assms(2) obtain i where i: "get_host_for_db_id (cl_hosts st) (cr_host_id r) = Inr (Some i)"
    and ne: "cl_classes st \<noteq> []"
    by (auto simp: enter_host_def bind_result_eq_Inr split: option.splits if_splits)
  from i have pos: "map_option unat (db_id_to_index (cl_hosts st) (cr_host_id r)) = Some i"
    by (auto simp: get_host_for_db_id_def split: option.splits if_splits)
  from ne obtain ccs cc where cc: "cl_classes st = ccs @ [cc]" by (meson rev_exhaust)
  with assms False i pos show ?thesis
    by (auto simp: enter_host_def loader_ok_def flatten_snoc flatten_def)
qed

lemma push_collection_last:
  "cc_host cc = hs @ [h] \<Longrightarrow>
   push_collection (length hs) c cc = cc\<lparr>cc_host := hs @ [h\<lparr>collection := collection h @ [c]\<rparr>]\<rparr>"
  by (simp add: push_collection_def)

lemma row_mapping_id:
  "row_mapping seqs r = Inr (Some (m, oids)) \<Longrightarrow>
   m = (case cr_mapping_id r of None \<Rightarrow> - 1 | Some m \<Rightarrow> word_of_int (sint m))"
  by (auto simp: row_mapping_def bind_opt_eq_Some split: option.splits)

lemma add_collection_ok:
  assumes ok: "loader_ok st" and add: "add_collection seqs r st = Inr (Some st1)"
    and ids: "last_db_id st = cr_class_id r" "last_host_id st = cr_host_id r"
  shows "loader_ok st1 \<and> cl_classes st \<noteq> [] \<and>
    flatten (cl_classes st1) = flatten (cl_classes st) @ [flat_row (cl_hosts st) r] \<and>
    db_id_to_index (cl_hosts st1) = db_id_to_index (cl_hosts st) \<and>
    map cc_db_id (cl_classes st1) = map cc_db_id (cl_classes st)"
proof -
  from add obtain rrdfile premap m oids where
    strs: "cr_rrdfile r = Some rrdfile" "cr_premap r = Some premap" and m: "row_mapping seqs r = Inr (Some (m, oids))"
    and idx: "cl_classes st \<noteq> []" "0 \<le> host_index st"
    by (auto simp: add_collection_def bind_result_eq_Inr bind_opt_eq_Some get_string_def
        split: option.splits if_splits)
  then obtain ccs cc where cc: "cl_classes st = ccs @ [cc]" by (meson rev_exhaust)
  with ok idx have hi: "host_index st = int (length (cc_host cc)) - 1" by (simp add: loader_ok_def)
  with idx have "cc_host cc \<noteq> []" by auto
  then obtain hs h where h: "cc_host cc = hs @ [h]" by (meson rev_exhaust)
  define c where "c = \<lparr>premaping_oid_suffix = premap, post_mapping_oid_suffix = [],
    oid_mapping_sequence_db_id = m, rrd_filename = rrdfile\<rparr>"
  define cc' where "cc' = cc\<lparr>cc_host := hs @ [h\<lparr>collection := collection h @ [c]\<rparr>]\<rparr>"
  have classes: "cl_classes st1 = ccs @ [cc']" and same: "last_db_id st1 = last_db_id st"
    "last_host_id st1 = last_host_id st" "host_index st1 = host_index st"
    "db_id_to_index (cl_hosts st1) = db_id_to_index (cl_hosts st)"
    using add strs m idx cc hi h
    by (auto simp: add_collection_def push_collection_last Let_def c_def cc'_def split: option.splits if_splits)
  have host: "sh_host h = map_option unat (db_id_to_index (cl_hosts st) (cr_host_id r))"
    using ok cc h hi ids by (simp add: loader_ok_def)
  have "flatten [cc'] = flatten [cc] @ [flat_row (cl_hosts st) r]"
    using ok cc h host ids row_mapping_id [OF m] strs
    by (simp add: flatten_def cc'_def flat_row_def c_def loader_ok_def)
  moreover have "loader_ok st1"
    using ok cc h classes same by (simp add: loader_ok_def cc'_def)
  ultimately show ?thesis
    using cc classes same by (simp add: flatten_snoc cc'_def)
qed

lemma load_row_ok:
  assumes "loader_ok st" "load_row junk seqs r st = Inr (Some st')"
  shows "loader_ok st' \<and> flatten (cl_classes st') = flatten (cl_classes st) @ [flat_row (cl_hosts st) r] \<and>
    db_id_to_index (cl_hosts st') = db_id_to_index (cl_hosts st) \<and> cl_classes st' \<noteq> [] \<and>
    map cc_db_id (cl_classes st') =
      (if cl_classes st \<noteq> [] \<and> last (map cc_db_id (cl_classes st)) = cr_class_id r
       then map cc_db_id (cl_classes st) else map cc_db_id (cl_classes st) @ [cr_class_id r])"
proof -
  from assms(2) obtain st1 st2 where st1: "enter_class r st = Inr st1" and st2: "enter_host junk r st1 = Inr (Some st2)"
    and st': "add_collection seqs r st2 = Inr (Some st')"
    by (auto simp: load_row_def bind_result_eq_Inr bind_opt_eq_Some)
  note a = enter_class_ok [OF assms(1) st1]
  then have b: "loader_ok st2 \<and> flatten (cl_classes st2) = flatten (cl_classes st1) \<and>
    db_id_to_index (cl_hosts st2) = db_id_to_index (cl_hosts st1) \<and> last_db_id st2 = last_db_id st1 \<and>
    last_host_id st2 = cr_host_id r \<and> map cc_db_id (cl_classes st2) = map cc_db_id (cl_classes st1)"
    using enter_host_ok [OF _ st2] by blast
  from st' have "cl_classes st2 \<noteq> []"
    by (auto simp: add_collection_def bind_result_eq_Inr bind_opt_eq_Some split: option.splits if_splits)
  with b have "cl_classes st1 \<noteq> []" by auto
  with a b have "last_db_id st2 = cr_class_id r" by simp
  with add_collection_ok [OF _ st'] b have c: "loader_ok st' \<and> cl_classes st2 \<noteq> [] \<and>
    flatten (cl_classes st') = flatten (cl_classes st2) @ [flat_row (cl_hosts st2) r] \<and>
    db_id_to_index (cl_hosts st') = db_id_to_index (cl_hosts st2) \<and>
    map cc_db_id (cl_classes st') = map cc_db_id (cl_classes st2)" by blast
  moreover have "flat_row (cl_hosts st2) r = flat_row (cl_hosts st) r"
    using a b by (simp add: flat_row_def)
  moreover have "cl_classes st' \<noteq> []" using c by auto
  ultimately show ?thesis using a b \<open>cl_classes st1 \<noteq> []\<close>
    by (cases "cl_classes st = []") (simp_all add: last_map)
qed

lemma remdups_adj_snoc:
  "remdups_adj (xs @ [x]) = (if xs \<noteq> [] \<and> last xs = x then remdups_adj xs else remdups_adj xs @ [x])"
  by (induction xs rule: remdups_adj.induct) auto

lemma distinct_remdups_adj_sorted: "sorted xs \<Longrightarrow> distinct (remdups_adj xs)"
  for xs :: "'a::linorder list"
  by (induction xs rule: remdups_adj.induct) auto

lemma load_rows_ok:
  assumes "loader_ok st" "cl_classes st = []"
  shows "load_rows junk seqs rows st = Inr (Some st') \<Longrightarrow>
    loader_ok st' \<and> flatten (cl_classes st') = map (flat_row (cl_hosts st)) rows \<and>
    db_id_to_index (cl_hosts st') = db_id_to_index (cl_hosts st) \<and>
    map cc_db_id (cl_classes st') = remdups_adj (map cr_class_id rows)"
proof (induction rows arbitrary: st' rule: rev_induct)
  case Nil
  with assms show ?case by (simp add: flatten_def)
next
  case (snoc r rows)
  then obtain st1 where st1: "load_rows junk seqs rows st = Inr (Some st1)"
    and r: "load_row junk seqs r st1 = Inr (Some st')"
    by (auto simp: load_rows_append bind_opt_eq_Some)
  from snoc.IH [OF st1] have IH: "loader_ok st1" "flatten (cl_classes st1) = map (flat_row (cl_hosts st)) rows"
    "db_id_to_index (cl_hosts st1) = db_id_to_index (cl_hosts st)"
    "map cc_db_id (cl_classes st1) = remdups_adj (map cr_class_id rows)" by auto
  from IH(4) have ne: "cl_classes st1 = [] \<longleftrightarrow> rows = []" by (metis list.map_disc_iff remdups_adj_Nil_iff)
  have last: "rows \<noteq> [] \<Longrightarrow> last (map cc_db_id (cl_classes st1)) = last (map cr_class_id rows)"
    using IH(4) by simp
  have "flat_row (cl_hosts st1) r = flat_row (cl_hosts st) r" using IH(3) by (simp add: flat_row_def)
  with load_row_ok [OF IH(1) r] IH ne last show ?case
    by (auto simp: remdups_adj_snoc)
qed

text \<open>Nothing is lost, added or reordered by loading: reading the classes, their hosts and the hosts'
  collections back in order gives exactly the rows of the query, each with the host its id refers
  to and with no suffix yet. There is one class per run of rows with one class id, so with the query's ordering every
  class id occurs once.
\<close>

theorem loaded_collections_are_the_rows:
  assumes "load_rows junk seqs rows \<lparr>cl_classes = [], cl_hosts = t, last_db_id = - 1, last_host_id = - 1, host_index = - 1\<rparr> =
      Inr (Some st)"
  shows "flatten (cl_classes st) = map (flat_row t) rows \<and>
    map cc_db_id (cl_classes st) = remdups_adj (map cr_class_id rows) \<and>
    (sorted (map (unat \<circ> cr_class_id) rows) \<longrightarrow> distinct (map cc_db_id (cl_classes st)))"
proof (intro conjI impI)
  note l = load_rows_ok [OF _ _ assms]
  then show "flatten (cl_classes st) = map (flat_row t) rows"
    and ids: "map cc_db_id (cl_classes st) = remdups_adj (map cr_class_id rows)"
    by (simp_all add: loader_ok_def)
  assume "sorted (map (unat \<circ> cr_class_id) rows)"
  then have "sorted (map cr_class_id rows)"
    by (simp add: sorted_wrt_map word_le_nat_alt sorted_map)
  then show "distinct (map cc_db_id (cl_classes st))"
    unfolding ids by (rule distinct_remdups_adj_sorted)
qed

theorem loaded_collections_are_the_rows_witness:
  "\<exists>st. load_rows (0, 0) empty_sequence_db demo_rows demo_loader = Inr (Some st) \<and>
     flatten (cl_classes st) = [(1, Some 0, Some ''a.rrd'', Some ''1'', - 1, []), (1, Some 0, Some ''b.rrd'', Some ''2'', - 1, [])] \<and>
     distinct (map cc_db_id (cl_classes st))"
proof -
  have "\<not> isl (load_rows (0, 0) empty_sequence_db demo_rows demo_loader) \<and>
      projr (load_rows (0, 0) empty_sequence_db demo_rows demo_loader) \<noteq> None"
    by (simp add: demo_rows_def demo_loader_def load_row_def enter_class_def enter_host_def add_collection_def
        get_host_for_db_id_def insert_new_host_def row_mapping_def class_of_row_def
        Let_def update_last_def push_collection_def add_tables_def)
  then obtain st where st: "load_rows (0, 0) empty_sequence_db demo_rows demo_loader = Inr (Some st)"
    by (cases "load_rows (0, 0) empty_sequence_db demo_rows demo_loader") auto
  from loaded_collections_are_the_rows [OF st [unfolded demo_loader_def]] st show ?thesis
    by (simp add: demo_rows_def flat_row_def insert_new_host_def)
qed

end
