(* ===== verification/Config_Init.thy ===== *)
theory Config_Init
  imports Snapp_Config
begin

text \<open>
  \<^verbatim>\<open>snapp_config.cpp\<close>, starting a loaded configuration: missing directories and RRD files,
  the host tables, the suffix of every collection, and the threads of the classes. The file system
  is a state of arbitrary type with the calls the code makes as parameters.
\<close>

section \<open>Directories\<close>

datatype mkdir_result = Mk_ok | Mk_eexist | Mk_enoent | Mk_error

text \<open>\<^verbatim>\<open>substr(0,rfind('/'))\<close>: everything before the last slash, the whole text when there is none.\<close>

definition parent_dir :: "string \<Rightarrow> string" where
  "parent_dir d = (case rfind_char CHR ''/'' d of None \<Rightarrow> d | Some i \<Rightarrow> take i d)"

text \<open>
  The recursive call's value is overwritten: the \<^verbatim>\<open>ENOENT\<close> case falls through to the error
  return. None is a recursion that never ends.
\<close>

partial_function (option) recursive_dir_create ::
  "('f \<Rightarrow> string \<Rightarrow> mkdir_result \<times> 'f) \<Rightarrow> 'f \<Rightarrow> string \<Rightarrow> (int \<times> 'f) option" where
  "recursive_dir_create mkdir fs current_dir =
     (let r = mkdir fs (c_str current_dir)
      in if fst r = Mk_ok \<or> fst r = Mk_eexist then Some (0, snd r)
         else if fst r = Mk_enoent then
           Option.bind (recursive_dir_create mkdir (snd r) (parent_dir current_dir))
             (\<lambda>p. Some (- 1, snd p))
         else Some (- 1, snd r))"

section \<open>RRD files\<close>

record 'f fs_ops =
  stat_regular :: "'f \<Rightarrow> string \<Rightarrow> bool"
  fs_mkdir :: "'f \<Rightarrow> string \<Rightarrow> mkdir_result \<times> 'f"
  rrd_create :: "'f \<Rightarrow> string \<Rightarrow> 32 word \<Rightarrow> string list \<Rightarrow> 'f"

abbreviation CONFIG_SYS_STR_SIZE :: nat where "CONFIG_SYS_STR_SIZE \<equiv> 1024"

text \<open>\<^verbatim>\<open>%d\<close> of an unsigned value, and \<^verbatim>\<open>snprintf\<close> into \<^verbatim>\<open>char buf[128]\<close> with a bound of 127.\<close>

definition show_d :: "32 word \<Rightarrow> string" where
  "show_d w = show_int (sint w)"

definition into_buf :: "string \<Rightarrow> string" where
  "into_buf s = take 126 s"

definition ds_text :: "32 word \<Rightarrow> oid_collection \<Rightarrow> string" where
  "ds_text intv oc =
     (if strstr (c_str (ds_datatype oc)) ''COMPUTE'' = None
      then ''DS:'' @ c_str (ds_name oc) @ '':'' @ c_str (ds_datatype oc) @ '':'' @ show_d (intv * 2) @ '':0:1e11''
      else ''DS:'' @ c_str (ds_name oc) @ '':'' @ c_str (ds_datatype oc))"

text \<open>The product and the quotient are unsigned 32-bit; a zero divisor traps.\<close>

definition numrows :: "32 word \<Rightarrow> rra_definition \<Rightarrow> 32 word result" where
  "numrows intv a =
     (if intv * steps a = 0 then Inl Arithmetic_trap
      else Inr (numdays a * 3600 * 24 div (intv * steps a)))"

definition rra_text :: "rra_definition \<Rightarrow> 32 word \<Rightarrow> string" where
  "rra_text a n = ''RRA:'' @ c_str (cf a) @ '':'' @ xff a @ '':'' @ show_d (steps a) @ '':'' @ show_d n"

text \<open>\<^verbatim>\<open>strncat(rra_str,buf,1023)\<close> bounds the piece, not the room that is left.\<close>

fun append_pieces :: "string \<Rightarrow> string list \<Rightarrow> string result" where
  "append_pieces acc [] = Inr acc"
| "append_pieces acc (s # ss) =
     bind_result (strncat CONFIG_SYS_STR_SIZE acc (into_buf (s @ '' '')) (CONFIG_SYS_STR_SIZE - 1))
       (\<lambda>acc'. append_pieces acc' ss)"

fun tokens :: "nat \<Rightarrow> string \<Rightarrow> string list result" where
  "tokens 0 s = Inr []"
| "tokens (Suc n) s =
     (case strtok_r s {CHR '' ''} of
        None \<Rightarrow> Inl Assertion_failed
      | Some (token, save_ptr) \<Rightarrow> bind_result (tokens n save_ptr) (\<lambda>ts. Inr (token # ts)))"

text \<open>The arguments for \<^verbatim>\<open>rrd_create_r\<close>; the first loop ends before the divisions of the second begin.\<close>

definition rrd_arguments :: "sql_collection_class \<Rightarrow> string list result" where
  "rrd_arguments cc =
     bind_result (append_pieces [] (map (ds_text (interval cc)) (cc_oid cc))) (\<lambda>ds.
     bind_result (foldl (\<lambda>acc a. bind_result acc (\<lambda>s. bind_result (numrows (interval cc) a) (\<lambda>n.
         append_pieces s [rra_text a n]))) (Inr ds) (cc_rra cc)) (\<lambda>rra_str.
       tokens (length (cc_oid cc) + length (cc_rra cc)) rra_str))"

text \<open>One collection: None when the function returns -1, and the file system afterwards.\<close>

definition create_rrd_file ::
  "'f fs_ops \<Rightarrow> string \<Rightarrow> sql_collection_class \<Rightarrow> sql_collection \<Rightarrow> 'f \<Rightarrow> 'f option result option" where
  "create_rrd_file ops dir cc c fs =
     (let full_filename = dir @ rrd_filename c
      in if stat_regular ops fs (c_str full_filename) then Some (Inr (Some fs))
         else case recursive_dir_create (fs_mkdir ops) fs (parent_dir full_filename) of
           None \<Rightarrow> None
         | Some (_, fs1) \<Rightarrow>
             if cc_oid cc = [] \<or> cc_rra cc = [] then Some (Inr None)
             else Some (bind_result (rrd_arguments cc) (\<lambda>argv.
               Inr (Some (rrd_create ops fs1 (c_str full_filename) (interval cc) argv)))))"

definition all_collections :: "sql_collection_class list \<Rightarrow> (sql_collection_class \<times> sql_collection) list" where
  "all_collections ccs = concat (map (\<lambda>cc. concat (map (\<lambda>h. map (\<lambda>c. (cc, c)) (collection h)) (cc_host cc))) ccs)"

fun create_rrd_files ::
  "'f fs_ops \<Rightarrow> string \<Rightarrow> (sql_collection_class \<times> sql_collection) list \<Rightarrow> 'f \<Rightarrow> 'f option result option" where
  "create_rrd_files ops dir [] fs = Some (Inr (Some fs))"
| "create_rrd_files ops dir ((cc, c) # cs) fs =
     then_opt (create_rrd_file ops dir cc c fs) (create_rrd_files ops dir cs)"

definition create_missing_rrd_files :: "'f fs_ops \<Rightarrow> snapp_config \<Rightarrow> 'f \<Rightarrow> 'f option result option" where
  "create_missing_rrd_files ops c fs = create_rrd_files ops (rrd_dir c) (all_collections (collection_class c)) fs"

section \<open>Suffixes\<close>

text \<open>\<^verbatim>\<open>oid_table[oid]\<close> adds an empty table when there is none.\<close>

definition touch_table :: "string \<Rightarrow> host_info \<Rightarrow> host_info" where
  "touch_table oi hi =
     (if map_of (oid_table hi) oi = None
      then hi\<lparr>oid_table := omap_put oi (empty_value_table []) (oid_table hi)\<rparr> else hi)"

definition suffix_lookup :: "host_info \<Rightarrow> string \<Rightarrow> string \<Rightarrow> string option" where
  "suffix_lookup hi oi v = (case map_of (oid_table hi) oi of None \<Rightarrow> None | Some t \<Rightarrow> map_of (suffix_of t) v)"

fun map_sequence :: "string list \<Rightarrow> string \<Rightarrow> host_info \<Rightarrow> string \<times> host_info" where
  "map_sequence [] last_val hi = (last_val, hi)"
| "map_sequence (oi # ois) last_val hi =
     (let hi1 = touch_table oi hi
      in case suffix_lookup hi1 oi last_val of
           None \<Rightarrow> ([], hi1)
         | Some v \<Rightarrow> map_sequence ois v hi1)"

definition map_collection ::
  "oid_mapping_sequence_db \<Rightarrow> sql_collection \<Rightarrow> host_info \<Rightarrow> (sql_collection \<times> host_info) result" where
  "map_collection seqs c hi =
     (if oid_mapping_sequence_db_id c = - 1
      then Inr (c\<lparr>post_mapping_oid_suffix := premaping_oid_suffix c\<rparr>, hi)
      else bind_result (get_sequence_by_db_id seqs (word_of_int (sint (oid_mapping_sequence_db_id c)))) (\<lambda>s.
        case s of
          None \<Rightarrow> Inl Assertion_failed
        | Some seq \<Rightarrow>
            let (v, hi') = map_sequence (ms_oid seq) (premaping_oid_suffix c) hi
            in Inr (c\<lparr>post_mapping_oid_suffix := v\<rparr>, hi')))"

fun map_collections ::
  "oid_mapping_sequence_db \<Rightarrow> sql_collection list \<Rightarrow> host_info \<Rightarrow> (sql_collection list \<times> host_info) result" where
  "map_collections seqs [] hi = Inr ([], hi)"
| "map_collections seqs (c # cs) hi =
     bind_result (map_collection seqs c hi) (\<lambda>(c', hi1).
     bind_result (map_collections seqs cs hi1) (\<lambda>(cs', hi2). Inr (c' # cs', hi2)))"

definition map_sql_host ::
  "oid_mapping_sequence_db \<Rightarrow> sql_host \<Rightarrow> host_info list \<Rightarrow> (sql_host \<times> host_info list) result" where
  "map_sql_host seqs h hosts =
     (case sh_host h of
        None \<Rightarrow> Inl Undefined
      | Some i \<Rightarrow>
          bind_result (vector_at hosts i) (\<lambda>hi.
            if mapping_done hi \<noteq> 1 then Inr (h, hosts)
            else bind_result (map_collections seqs (collection h) hi) (\<lambda>(cs, hi').
              Inr (h\<lparr>collection := cs\<rparr>, hosts[i := hi']))))"

fun map_sql_hosts ::
  "oid_mapping_sequence_db \<Rightarrow> sql_host list \<Rightarrow> host_info list \<Rightarrow> (sql_host list \<times> host_info list) result" where
  "map_sql_hosts seqs [] hosts = Inr ([], hosts)"
| "map_sql_hosts seqs (h # hs) hosts =
     bind_result (map_sql_host seqs h hosts) (\<lambda>(h', hosts1).
     bind_result (map_sql_hosts seqs hs hosts1) (\<lambda>(hs', hosts2). Inr (h' # hs', hosts2)))"

fun map_classes ::
  "oid_mapping_sequence_db \<Rightarrow> sql_collection_class list \<Rightarrow> host_info list \<Rightarrow>
   (sql_collection_class list \<times> host_info list) result" where
  "map_classes seqs [] hosts = Inr ([], hosts)"
| "map_classes seqs (cc # ccs) hosts =
     bind_result (map_sql_hosts seqs (cc_host cc) hosts) (\<lambda>(hs, hosts1).
     bind_result (map_classes seqs ccs hosts1) (\<lambda>(ccs', hosts2). Inr (cc\<lparr>cc_host := hs\<rparr> # ccs', hosts2)))"

definition map_collection_suffixes :: "snapp_config \<Rightarrow> snapp_config result" where
  "map_collection_suffixes c =
     bind_result (map_classes (sequence_db c) (collection_class c) (host (host_table c))) (\<lambda>(ccs, hosts).
       Inr (c\<lparr>collection_class := ccs, host_table := (host_table c)\<lparr>host := hosts\<rparr>\<rparr>))"

section \<open>Starting\<close>

text \<open>
  \<^verbatim>\<open>load_host_tables\<close> as its caller sees it; the interleavings of its threads are
  \<open>load_step\<close>, and their result does not depend on the order.
\<close>

fun load_host_tables :: "snmp_of \<Rightarrow> value_matcher \<Rightarrow> host_info list \<Rightarrow> host_info list result option" where
  "load_host_tables snmp pcre [] = Some (Inr [])"
| "load_host_tables snmp pcre (h # hs) =
     (case run_host_thread snmp pcre (h\<lparr>has_semaphore := True\<rparr>) of
        None \<Rightarrow> None
      | Some (Inl e) \<Rightarrow> Some (Inl e)
      | Some (Inr (h', _)) \<Rightarrow>
          map_option (\<lambda>r. bind_result r (\<lambda>hs'. Inr (h' # hs'))) (load_host_tables snmp pcre hs))"

text \<open>\<open>init_config\<close>: the configuration with its suffixes and the thread pool of every class.\<close>

definition init_config ::
  "'f fs_ops \<Rightarrow> snmp_of \<Rightarrow> value_matcher \<Rightarrow> nat \<Rightarrow> snapp_config \<Rightarrow> 'f \<Rightarrow> (snapp_config \<times> pool list \<times> 'f) option result option" where
  "init_config ops snmp pcre sessions c fs =
     then_opt (create_missing_rrd_files ops c fs) (\<lambda>fs1.
       case load_host_tables snmp pcre (host (host_table c)) of
         None \<Rightarrow> None
       | Some r \<Rightarrow> Some (bind_result r (\<lambda>hosts.
           bind_result (map_collection_suffixes (c\<lparr>host_table := (host_table c)\<lparr>host := hosts\<rparr>\<rparr>)) (\<lambda>c'.
             Inr (Some (c', map (\<lambda>cc. pool_init (length (cc_host cc)) sessions) (collection_class c'), fs1))))))"

section \<open>Suffixes are compositions of the tables\<close>

definition resolved :: "oid_mapping_sequence_db \<Rightarrow> host_info \<Rightarrow> sql_collection \<Rightarrow> sql_collection" where
  "resolved seqs hi c =
     c\<lparr>post_mapping_oid_suffix :=
        if oid_mapping_sequence_db_id c = - 1 then premaping_oid_suffix c
        else case get_sequence_by_db_id seqs (word_of_int (sint (oid_mapping_sequence_db_id c))) of
          Inr (Some seq) \<Rightarrow>
            (case foldl (\<lambda>v oi. Option.bind v (suffix_lookup hi oi)) (Some (premaping_oid_suffix c)) (ms_oid seq) of
               Some v \<Rightarrow> v | None \<Rightarrow> [])
        | _ \<Rightarrow> []\<rparr>"

definition host_mapped :: "oid_mapping_sequence_db \<Rightarrow> host_info list \<Rightarrow> sql_host \<Rightarrow> sql_host" where
  "host_mapped seqs hosts h =
     (case sh_host h of
        Some i \<Rightarrow> if mapping_done (hosts ! i) = 1
                   then h\<lparr>collection := map (resolved seqs (hosts ! i)) (collection h)\<rparr> else h
      | None \<Rightarrow> h)"

text \<open>Hosts that differ at most in empty tables added on the way.\<close>

definition same_tables :: "host_info \<Rightarrow> host_info \<Rightarrow> bool" where
  "same_tables hi hi' \<longleftrightarrow> mapping_done hi' = mapping_done hi \<and> suffix_lookup hi' = suffix_lookup hi"

lemma same_tables_refl [simp]: "same_tables hi hi"
  by (simp add: same_tables_def)

lemma same_tables_trans: "same_tables a b \<Longrightarrow> same_tables b c \<Longrightarrow> same_tables a c"
  by (simp add: same_tables_def)

lemma touch_table_same: "same_tables hi (touch_table oi hi)"
  by (auto simp: same_tables_def touch_table_def suffix_lookup_def empty_value_table_def fun_eq_iff
      split: option.split)

lemma resolved_same: "same_tables hi hi' \<Longrightarrow> resolved seqs hi' = resolved seqs hi"
proof -
  assume "same_tables hi hi'"
  then have same: "suffix_lookup hi' = suffix_lookup hi" by (simp add: same_tables_def)
  show ?thesis by (intro ext) (unfold resolved_def same, rule refl)
qed

lemma foldl_bind_None [simp]: "foldl (\<lambda>v x. Option.bind v (f x)) None xs = None"
  by (induction xs) auto

lemma map_sequence_compose:
  "same_tables hi (snd (map_sequence ois v hi)) \<and>
   fst (map_sequence ois v hi) =
     (case foldl (\<lambda>v oi. Option.bind v (suffix_lookup hi oi)) (Some v) ois of Some v \<Rightarrow> v | None \<Rightarrow> [])"
proof (induction ois v hi rule: map_sequence.induct)
  case (2 oi ois v hi)
  have same: "suffix_lookup (touch_table oi hi) = suffix_lookup hi"
    using touch_table_same [of hi oi] by (simp add: same_tables_def)
  show ?case
  proof (cases "suffix_lookup hi oi v")
    case None
    then show ?thesis using touch_table_same by (simp add: same Let_def)
  next
    case (Some w)
    with 2 [OF refl, of w] have "same_tables (touch_table oi hi) (snd (map_sequence ois w (touch_table oi hi)))"
      by (simp add: same)
    then have "same_tables hi (snd (map_sequence ois w (touch_table oi hi)))"
      using touch_table_same same_tables_trans by blast
    with Some 2 [OF refl, of w] show ?thesis by (simp add: same Let_def)
  qed
qed simp

lemma map_collection_resolved:
  "map_collection seqs c hi = Inr (c', hi') \<Longrightarrow> c' = resolved seqs hi c \<and> same_tables hi hi'"
  using map_sequence_compose [of hi _ "premaping_oid_suffix c"]
  by (auto simp: map_collection_def resolved_def bind_result_eq_Inr case_prod_beta
      split: if_splits option.splits)

lemma map_collections_resolved:
  "map_collections seqs cs hi = Inr (cs', hi') \<Longrightarrow> cs' = map (resolved seqs hi) cs \<and> same_tables hi hi'"
proof (induction cs arbitrary: hi cs')
  case (Cons c cs)
  then obtain c1 hi1 cs1 where a: "map_collection seqs c hi = Inr (c1, hi1)"
    and b: "map_collections seqs cs hi1 = Inr (cs1, hi')" and cs': "cs' = c1 # cs1"
    by (auto simp: bind_result_eq_Inr)
  from map_collection_resolved [OF a] have c1: "c1 = resolved seqs hi c" "same_tables hi hi1" by auto
  from Cons.IH [OF b] have "cs1 = map (resolved seqs hi1) cs" "same_tables hi1 hi'" by auto
  with c1 cs' resolved_same [OF c1(2), of seqs] same_tables_trans [OF c1(2)] show ?case by simp
qed simp

lemma list_all2_update:
  "list_all2 P xs ys \<Longrightarrow> i < length xs \<Longrightarrow> P (xs ! i) y \<Longrightarrow> list_all2 P xs (ys[i := y])"
  by (simp add: list_all2_conv_all_nth nth_list_update)

lemma map_sql_host_mapped:
  assumes "map_sql_host seqs h hosts = Inr (h', hosts')"
  shows "h' = host_mapped seqs hosts h \<and> list_all2 same_tables hosts hosts'"
proof -
  from assms obtain i where i: "sh_host h = Some i" "i < length hosts"
    by (auto simp: map_sql_host_def vector_at_def bind_result_eq_Inr split: option.splits if_splits)
  have refl: "list_all2 same_tables hosts hosts" by (simp add: list_all2_refl)
  show ?thesis
  proof (cases "mapping_done (hosts ! i) = 1")
    case True
    with assms i obtain cs hi where "map_collections seqs (collection h) (hosts ! i) = Inr (cs, hi)"
      "h' = h\<lparr>collection := cs\<rparr>" "hosts' = hosts[i := hi]"
      by (auto simp: map_sql_host_def vector_at_def bind_result_eq_Inr)
    with map_collections_resolved [OF this(1)] True i list_all2_update [OF refl] show ?thesis
      by (simp add: host_mapped_def)
  next
    case False
    with assms i refl show ?thesis by (auto simp: map_sql_host_def vector_at_def host_mapped_def)
  qed
qed

lemma host_mapped_same:
  "list_all2 same_tables hosts hosts' \<Longrightarrow> sh_host h = Some i \<Longrightarrow> i < length hosts \<Longrightarrow>
   host_mapped seqs hosts' h = host_mapped seqs hosts h"
  using list_all2_nthD [of same_tables hosts hosts' i] resolved_same [of "hosts ! i" "hosts' ! i" seqs]
  by (simp add: host_mapped_def same_tables_def)

lemma same_tables_list_trans:
  "list_all2 same_tables a b \<Longrightarrow> list_all2 same_tables b c \<Longrightarrow> list_all2 same_tables a c"
  by (rule list_all2_trans [OF same_tables_trans])

lemma map_sql_host_pointer:
  "map_sql_host seqs h hosts = Inr r \<Longrightarrow> \<exists>i. sh_host h = Some i \<and> i < length hosts"
  by (auto simp: map_sql_host_def vector_at_def bind_result_eq_Inr split: option.splits if_splits)

lemma map_sql_hosts_mapped:
  "map_sql_hosts seqs hs hosts = Inr (hs', hosts') \<Longrightarrow>
   list_all2 same_tables orig hosts \<Longrightarrow>
   hs' = map (host_mapped seqs orig) hs \<and> list_all2 same_tables orig hosts'"
proof (induction hs arbitrary: hosts hs')
  case (Cons h hs)
  then obtain h1 hosts1 hs1 where a: "map_sql_host seqs h hosts = Inr (h1, hosts1)"
    and b: "map_sql_hosts seqs hs hosts1 = Inr (hs1, hosts')" and hs': "hs' = h1 # hs1"
    by (auto simp: bind_result_eq_Inr)
  from map_sql_host_mapped [OF a] Cons.prems(2) have "list_all2 same_tables orig hosts1"
    using same_tables_list_trans by blast
  note Cons.IH [OF b this]
  moreover have "h1 = host_mapped seqs orig h"
    using map_sql_host_mapped [OF a] map_sql_host_pointer [OF a] host_mapped_same [OF Cons.prems(2)]
      list_all2_lengthD [OF Cons.prems(2)] by auto
  ultimately show ?case using hs' by simp
qed simp

lemma map_classes_mapped:
  "map_classes seqs ccs hosts = Inr (ccs', hosts') \<Longrightarrow> list_all2 same_tables orig hosts \<Longrightarrow>
   ccs' = map (\<lambda>cc. cc\<lparr>cc_host := map (host_mapped seqs orig) (cc_host cc)\<rparr>) ccs"
proof (induction ccs arbitrary: hosts ccs')
  case (Cons cc ccs)
  then obtain hs hosts1 ccs1 where a: "map_sql_hosts seqs (cc_host cc) hosts = Inr (hs, hosts1)"
    and b: "map_classes seqs ccs hosts1 = Inr (ccs1, hosts')" and ccs': "ccs' = cc\<lparr>cc_host := hs\<rparr> # ccs1"
    by (auto simp: bind_result_eq_Inr)
  from map_sql_hosts_mapped [OF a Cons.prems(2)] Cons.IH [OF b] ccs' show ?case by simp
qed simp

text \<open>
  C13. The suffix every collection gets: for a host whose tables were loaded, its premap suffix when
  the collection has no mapping, and otherwise the premap suffix sent through the value tables of
  the sequence's OIDs one after the other, or empty as soon as one table lacks the value. The
  empty tables that the lookups leave behind change no later result, and a host whose tables
  were not loaded keeps its collections unchanged.
\<close>

theorem map_collection_suffixes_result:
  assumes "map_collection_suffixes c = Inr c'"
  shows "collection_class c' =
    map (\<lambda>cc. cc\<lparr>cc_host := map (host_mapped (sequence_db c) (host (host_table c))) (cc_host cc)\<rparr>)
      (collection_class c)"
proof -
  from assms obtain ccs hosts where
    "map_classes (sequence_db c) (collection_class c) (host (host_table c)) = Inr (ccs, hosts)"
    "collection_class c' = ccs"
    by (auto simp: map_collection_suffixes_def bind_result_eq_Inr)
  with map_classes_mapped [OF this(1), of "host (host_table c)"] show ?thesis
    by (simp add: list_all2_refl)
qed

text \<open>
  A collection without a mapping loses its suffix when the tables of its host were not loaded:
  the suffix stays empty, the collection does not count as failed, and every request asks for the
  bare OID prefix of the class instead of the row the collection names.
\<close>

theorem unmapped_collection_loses_suffix:
  assumes "sh_host h = Some i" "mapping_done (hosts ! i) \<noteq> 1" "i < length hosts"
    and "x \<in> set (collection h)" "oid_mapping_sequence_db_id x = - 1" "post_mapping_oid_suffix x = []"
  shows "map_sql_host seqs h hosts = Inr (h, hosts) \<and> \<not> mapping_failed x \<and> oid_string x oc = oid_prefix oc"
  using assms by (simp add: map_sql_host_def vector_at_def mapping_failed_def oid_string_def)

section \<open>Missing directories\<close>

text \<open>
  A directory whose parent is missing is never created, and the call reports failure even when
  it has created the parent: whatever the file system does, if the first \<^verbatim>\<open>mkdir\<close> fails with
  \<^verbatim>\<open>ENOENT\<close> the value returned is -1, and the file system is left as the recursive call for the
  parent leaves it (the second attempt in the code is unreachable).
\<close>

theorem dir_with_missing_parent_not_created:
  assumes "mkdir fs (c_str d) = (Mk_enoent, fs1)" "recursive_dir_create mkdir fs d = Some (r, fs')"
  shows "r = - 1 \<and> (\<exists>r'. recursive_dir_create mkdir fs1 (parent_dir d) = Some (r', fs'))"
  using assms(2) unfolding recursive_dir_create.simps [of mkdir fs d]
  by (cases "recursive_dir_create mkdir fs1 (parent_dir d)") (auto simp: assms(1))

text \<open>A file system that is a list of directories.\<close>

definition list_mkdir :: "string list \<Rightarrow> string \<Rightarrow> mkdir_result \<times> string list" where
  "list_mkdir dirs d =
     (if d \<in> set dirs then (Mk_eexist, dirs)
      else if CHR ''/'' \<in> set d \<and> parent_dir d \<in> set dirs then (Mk_ok, d # dirs) else (Mk_enoent, dirs))"

lemma demo_dirs: "recursive_dir_create list_mkdir [''/srv''] ''/srv/a/b'' = Some (- 1, [''/srv/a'', ''/srv''])"
  by (subst recursive_dir_create.simps, subst recursive_dir_create.simps)
    (simp add: list_mkdir_def parent_dir_def rfind_char_def)

theorem dir_with_missing_parent_not_created_witness:
  "\<exists>r fs'. recursive_dir_create list_mkdir [''/srv''] ''/srv/a/b'' = Some (r, fs') \<and> r = - 1 \<and> ''/srv/a/b'' \<notin> set fs'"
  using dir_with_missing_parent_not_created [OF _ demo_dirs, of "[''/srv'']"] demo_dirs
  by (simp add: list_mkdir_def parent_dir_def rfind_char_def)

section \<open>Arguments of a new RRD file\<close>

lemma no_space_show_nat: "CHR '' '' \<notin> set (show_nat n)"
  using show_nat_digits [of n] by (auto simp: is_digit_def)

lemma no_space_show_d: "CHR '' '' \<notin> set (show_d w)"
  using no_space_show_nat by (simp add: show_d_def show_int_def)

lemma append_pieces_fits:
  "\<forall>s \<in> set ss. length s < 126 \<Longrightarrow>
   length acc + sum_list (map (\<lambda>s. length s + 1) ss) < CONFIG_SYS_STR_SIZE \<Longrightarrow>
   append_pieces acc ss = Inr (acc @ concat (map (\<lambda>s. s @ '' '') ss))"
proof (induction ss arbitrary: acc)
  case (Cons s ss)
  then have "length s < 126" by simp
  then have "into_buf (s @ '' '') = s @ '' ''" by (simp add: into_buf_def take_Cons')
  with Cons.prems have "strncat CONFIG_SYS_STR_SIZE acc (into_buf (s @ '' '')) (CONFIG_SYS_STR_SIZE - 1) = Inr (acc @ s @ '' '')"
    by (simp add: strncat_def)
  with Cons show ?case by simp
qed simp

lemma append_pieces_append:
  "append_pieces acc (as @ bs) = bind_result (append_pieces acc as) (\<lambda>acc'. append_pieces acc' bs)"
  by (induction as arbitrary: acc) (auto simp: bind_result_def split: sum.split)

lemma tokens_pieces:
  "\<forall>s \<in> set ss. s \<noteq> [] \<and> CHR '' '' \<notin> set s \<Longrightarrow>
   tokens (length ss) (concat (map (\<lambda>s. s @ '' '') ss)) = Inr ss"
proof (induction ss)
  case (Cons s ss)
  then have "strtok_r (s @ CHR '' '' # concat (map (\<lambda>s. s @ '' '') ss)) {CHR '' ''} =
      Some (s, concat (map (\<lambda>s. s @ '' '') ss))"
    by (intro strtok_r_sep) auto
  with Cons show ?case by simp
qed simp

text \<open>What the class asks RRD for: one data source per OID, one archive per definition.\<close>

definition rows_of :: "32 word \<Rightarrow> rra_definition \<Rightarrow> 32 word" where
  "rows_of intv a = numdays a * 3600 * 24 div (intv * steps a)"

definition wanted_arguments :: "sql_collection_class \<Rightarrow> string list" where
  "wanted_arguments cc =
     map (ds_text (interval cc)) (cc_oid cc) @ map (\<lambda>a. rra_text a (rows_of (interval cc) a)) (cc_rra cc)"

lemma rra_fold_pieces:
  "\<forall>a \<in> set as. intv * steps a \<noteq> 0 \<Longrightarrow>
   foldl (\<lambda>acc a. bind_result acc (\<lambda>s. bind_result (numrows intv a) (\<lambda>n. append_pieces s [rra_text a n]))) (Inr ds) as =
   append_pieces ds (map (\<lambda>a. rra_text a (rows_of intv a)) as)"
proof (induction as rule: rev_induct)
  case (snoc a as)
  then show ?case by (simp add: append_pieces_append numrows_def rows_of_def)
qed simp

text \<open>
  C37. The arguments of a new RRD file: when no name holds a blank, every text is shorter than 126
  characters, all together fit the 1024-byte buffer and no archive has a zero divisor, RRD gets
  exactly one \<^verbatim>\<open>DS\<close> text per OID and one \<^verbatim>\<open>RRA\<close> text per archive, in order, none cut or merged.
\<close>

theorem rrd_arguments_exact:
  assumes "\<forall>s \<in> set (wanted_arguments cc). s \<noteq> [] \<and> CHR '' '' \<notin> set s \<and> length s < 126"
    and "sum_list (map (\<lambda>s. length s + 1) (wanted_arguments cc)) < CONFIG_SYS_STR_SIZE"
    and "\<forall>a \<in> set (cc_rra cc). interval cc * steps a \<noteq> 0"
  shows "rrd_arguments cc = Inr (wanted_arguments cc)"
proof -
  let ?ds = "map (ds_text (interval cc)) (cc_oid cc)"
  let ?rras = "map (\<lambda>a. rra_text a (rows_of (interval cc) a)) (cc_rra cc)"
  have all: "append_pieces [] (?ds @ ?rras) = Inr (concat (map (\<lambda>s. s @ '' '') (?ds @ ?rras)))"
    using assms by (subst append_pieces_fits) (auto simp: wanted_arguments_def)
  have "bind_result (append_pieces [] ?ds) (\<lambda>ds. append_pieces ds ?rras) =
      Inr (concat (map (\<lambda>s. s @ '' '') (?ds @ ?rras)))"
    using all by (simp only: append_pieces_append)
  then obtain ds where ds: "append_pieces [] ?ds = Inr ds"
    "append_pieces ds ?rras = Inr (concat (map (\<lambda>s. s @ '' '') (?ds @ ?rras)))"
    by (auto simp only: bind_result_eq_Inr)
  have "rrd_arguments cc = tokens (length (cc_oid cc) + length (cc_rra cc)) (concat (map (\<lambda>s. s @ '' '') (?ds @ ?rras)))"
    unfolding rrd_arguments_def rra_fold_pieces [OF assms(3)] ds(1) bind_result_simps ds(2) ..
  also have "\<dots> = tokens (length (wanted_arguments cc)) (concat (map (\<lambda>s. s @ '' '') (wanted_arguments cc)))"
    by (simp add: wanted_arguments_def)
  finally show ?thesis using assms(1) by (simp add: tokens_pieces)
qed

definition demo_class :: sql_collection_class where
  "demo_class =
     \<lparr>cc_db_id = 1, interval = 60, cc_name = ''c'',
      cc_oid = [\<lparr>oid_prefix = ''1'', ds_datatype = ''COUNTER'', ds_name = ''in''\<rparr>],
      cc_rra = [\<lparr>steps = 1, cf = ''AVERAGE'', numdays = 2, xff = ''0.500000''\<rparr>],
      cc_host = [\<lparr>collection =
        [\<lparr>premaping_oid_suffix = ''eth'', post_mapping_oid_suffix = [], oid_mapping_sequence_db_id = 3, rrd_filename = ''e.rrd''\<rparr>],
        sh_host = Some 0, timeticks = 0, mytime = 0\<rparr>]\<rparr>"

lemma demo_arguments: "wanted_arguments demo_class = [''DS:in:COUNTER:120:0:1e11'', ''RRA:AVERAGE:0.500000:1:2880'']"
  by code_simp

theorem rrd_arguments_exact_witness:
  "rrd_arguments demo_class = Inr [''DS:in:COUNTER:120:0:1e11'', ''RRA:AVERAGE:0.500000:1:2880'']"
proof -
  have "\<forall>a \<in> set (cc_rra demo_class). interval demo_class * steps a \<noteq> 0" by (simp add: demo_class_def)
  with rrd_arguments_exact [of demo_class] show ?thesis by (simp add: demo_arguments)
qed

definition demo_config :: snapp_config where
  "demo_config =
     \<lparr>host_table = \<lparr>host = [(new_host_info 1)\<lparr>oid_table :=
          [(''1.2'', \<lparr>vt_oid = ''1.2'', suffix_of = [(''eth'', ''5'')], value_of = [(''5'', ''eth'')]\<rparr>)]\<rparr>],
        db_id_to_index = (\<lambda>_. Some 0)\<rparr>,
      sequence_db = fst (insert_new_sequence empty_sequence_db \<lparr>ms_name = ''m'', ms_db_id = 3, ms_oid = [''1.2'']\<rparr>),
      collection_class = [demo_class], rrd_dir = ''/d/'', sc_xml = blank_xml_config\<rparr>"

theorem map_collection_suffixes_result_witness:
  "\<exists>c'. map_collection_suffixes demo_config = Inr c' \<and>
     map (\<lambda>cc. map (\<lambda>h. map post_mapping_oid_suffix (collection h)) (cc_host cc)) (collection_class c') = [[[''5'']]]"
proof -
  note defs = demo_config_def demo_class_def new_host_info_def insert_new_sequence_def empty_sequence_db_def
    get_sequence_by_db_id_def vector_at_def suffix_lookup_def
  have "\<not> isl (map_collection_suffixes demo_config)"
    by (simp add: defs map_collection_suffixes_def map_sql_host_def map_collection_def touch_table_def)
  then obtain c' where c': "map_collection_suffixes demo_config = Inr c'"
    by (cases "map_collection_suffixes demo_config") auto
  from map_collection_suffixes_result [OF c'] show ?thesis
    using c' by (intro exI [of _ c'] conjI) (simp_all add: defs host_mapped_def resolved_def)
qed

theorem unmapped_collection_loses_suffix_witness:
  "map_sql_host empty_sequence_db
      \<lparr>collection = [\<lparr>premaping_oid_suffix = ''5'', post_mapping_oid_suffix = [], oid_mapping_sequence_db_id = - 1, rrd_filename = ''e.rrd''\<rparr>],
        sh_host = Some 0, timeticks = 0, mytime = 0\<rparr> [new_host_info 0] =
    Inr (\<lparr>collection = [\<lparr>premaping_oid_suffix = ''5'', post_mapping_oid_suffix = [], oid_mapping_sequence_db_id = - 1, rrd_filename = ''e.rrd''\<rparr>],
        sh_host = Some 0, timeticks = 0, mytime = 0\<rparr>, [new_host_info 0]) \<and>
   oid_string \<lparr>premaping_oid_suffix = ''5'', post_mapping_oid_suffix = [], oid_mapping_sequence_db_id = - 1, rrd_filename = ''e.rrd''\<rparr>
     \<lparr>oid_prefix = ''1.2'', ds_datatype = [], ds_name = []\<rparr> = ''1.2''"
  using unmapped_collection_loses_suffix [of "\<lparr>collection = [\<lparr>premaping_oid_suffix = ''5'', post_mapping_oid_suffix = [],
       oid_mapping_sequence_db_id = - 1, rrd_filename = ''e.rrd''\<rparr>], sh_host = Some 0, timeticks = 0, mytime = 0\<rparr>" 0
     "[new_host_info 0]" "\<lparr>premaping_oid_suffix = ''5'', post_mapping_oid_suffix = [], oid_mapping_sequence_db_id = - 1,
       rrd_filename = ''e.rrd''\<rparr>" empty_sequence_db "\<lparr>oid_prefix = ''1.2'', ds_datatype = [], ds_name = []\<rparr>"]
  by (simp add: new_host_info_def)

end
