(* ===== verification/Snapp_Control.thy ===== *)
theory Snapp_Control
  imports Config_Init Rrd_Writer Util_Log
begin

text \<open>
  \<^verbatim>\<open>snapp_control.cpp\<close>: the control port. A connection is the list of texts its \<^verbatim>\<open>recv\<close> calls
  return (at most 1023 characters each; an empty one, or the end of the list, is a closed
  connection); whether the k-th \<^verbatim>\<open>send\<close> is complete, the running configuration and the writer's
  statistics at that moment, and the outcome of a reload are parameters. The second part is the
  queue of accepted connections and its workers.
\<close>

section \<open>Commands\<close>

datatype connection_state = State_connected | State_username_received | State_authenticated

datatype command =
  Quit | User string | Pass string | Reload | Status | Help | Logregexp string | No_command

definition received_line :: "string \<Rightarrow> string" where
  "received_line recv_buf =
     c_str (map (\<lambda>c. if c = CHR 0x0A \<or> c = CHR 0x0D then nul else c) recv_buf)"

definition parse_command :: "string \<Rightarrow> command" where
  "parse_command recv_buf =
     (if strcase_prefix ''quit'' recv_buf then Quit
      else if strcasecmp_eq recv_buf ''reload'' then Reload
      else if strcase_prefix ''status'' recv_buf then Status
      else if strcase_prefix ''help'' recv_buf then Help
      else if strcase_prefix ''user '' recv_buf then
        (if length recv_buf \<ge> 8 then User (drop 5 recv_buf) else No_command)
      else if strcase_prefix ''pass '' recv_buf then
        (if length recv_buf \<ge> 8 then Pass (drop 5 recv_buf) else No_command)
      else if strcase_prefix ''logregexp '' recv_buf then
        (if length recv_buf \<ge> 10 then Logregexp (drop 10 recv_buf) else No_command)
      else No_command)"

abbreviation command_of :: "string \<Rightarrow> command" where
  "command_of chunk \<equiv> parse_command (received_line chunk)"

section \<open>A connection\<close>

record control_env =
  control_password :: string
  version :: string
  send_ok :: "nat \<Rightarrow> bool"
  config_now :: "nat \<Rightarrow> snapp_config"
  writer_now :: "nat \<Rightarrow> rrd_writer"
  reload_seen :: "nat \<Rightarrow> nat \<Rightarrow> bool"
  reload_secs :: "nat \<Rightarrow> int"

text \<open>
  The state of a connection: where it is in the login, what was sent, how many times SIGHUP was
  sent to the signal thread, and the log, whose match expression a client may replace.
\<close>

record 're connection =
  connection_state :: connection_state
  sent :: "string list"
  sighups :: nat
  conn_log :: "'re log_state"

definition crlf :: string where "crlf = [CHR 0x0D, CHR 0x0A]"

definition send :: "control_env \<Rightarrow> string \<Rightarrow> 're connection \<Rightarrow> bool \<times> 're connection" where
  "send env msg c = (send_ok env (length (sent c)), c\<lparr>sent := sent c @ [take 1022 msg]\<rparr>)"

fun send_all :: "control_env \<Rightarrow> string list \<Rightarrow> 're connection \<Rightarrow> bool \<times> 're connection" where
  "send_all env [] c = (True, c)"
| "send_all env (m # ms) c =
     (case send env m c of (ok, c') \<Rightarrow> if ok then send_all env ms c' else (False, c'))"

definition send_help :: "control_env \<Rightarrow> 're connection \<Rightarrow> bool \<times> 're connection" where
  "send_help env = send_all env
     [''Commands are: '' @ crlf @ crlf,
      ''help  logregexp  pass    quit   reload    status   user  '' @ crlf]"

definition status_lines :: "snapp_config \<Rightarrow> writer_status \<Rightarrow> string list" where
  "status_lines cfg w =
     (let num_collections = sum_list (map (\<lambda>cc. sum_list (map (\<lambda>h. length (collection h)) (cc_host cc))) (collection_class cfg))
      in [''211 System Status'' @ crlf,
          ''Number of running collection classes: '' @ show_nat (length (collection_class cfg)) @ crlf,
          ''Total number of collection hosts: '' @ show_nat (length (host (host_table cfg))) @ crlf,
          ''Total number of collections: '' @ show_nat num_collections @ crlf,
          ''avg queue len 1 min: '' @ show_nat (unat (avg_queue_len_1min w)) @ crlf,
          ''avg queue len 5 min: '' @ show_nat (unat (avg_queue_len_5min w)) @ crlf])"

definition send_status :: "control_env \<Rightarrow> 're connection \<Rightarrow> bool \<times> 're connection" where
  "send_status env c =
     (let k = length (sent c)
      in send_all env (status_lines (config_now env k) (snd (get_writer_status (writer_now env k)))) c)"

definition wait_secs :: nat where "wait_secs = 55"

text \<open>The configuration pointer is looked at once a second, up to 55 times.\<close>

definition do_reload :: "control_env \<Rightarrow> 're connection \<Rightarrow> 're connection" where
  "do_reload env c =
     (let k = length (sent c);
          msg = (if \<exists>i \<in> set [0..<wait_secs]. reload_seen env k i
                 then ''200 Reload sucessful ('' @ show_int (reload_secs env k) @ '' secs for reload)'' @ crlf
                 else ''550 Reload failed afer '' @ show_nat wait_secs @ '' secs'' @ crlf)
      in snd (send env msg (c\<lparr>sighups := sighups c + 1\<rparr>)))"

definition do_regexp :: "(string \<Rightarrow> 're option) \<Rightarrow> string \<Rightarrow> 're log_state \<Rightarrow> 're log_state" where
  "do_regexp compile arg st = st\<lparr>log_re := (if 2 \<le> length arg then compile arg else None)\<rparr>"

text \<open>One turn of the switch; the flag tells whether the loop goes on.\<close>

definition run_command :: "control_env \<Rightarrow> (string \<Rightarrow> 're option) \<Rightarrow> command \<Rightarrow> 're connection \<Rightarrow> bool \<times> 're connection" where
  "run_command env compile cmd c =
     (case (cmd, connection_state c) of
        (Quit, _) \<Rightarrow> (False, snd (send env (''200 Goodbye'' @ crlf) c))
      | (User _, State_connected) \<Rightarrow>
          (True, snd (send env (''331 Please specify the password'' @ crlf)
             (c\<lparr>connection_state := State_username_received\<rparr>)))
      | (Pass arg, State_username_received) \<Rightarrow>
          if control_password env = arg
          then (True, snd (send env (''230 Login Sucessful'' @ crlf) (c\<lparr>connection_state := State_authenticated\<rparr>)))
          else (True, snd (send env (''530 Login Failure'' @ crlf) c))
      | (Reload, State_authenticated) \<Rightarrow> (True, do_reload env c)
      | (Logregexp arg, State_authenticated) \<Rightarrow> (True, c\<lparr>conn_log := do_regexp compile arg (conn_log c)\<rparr>)
      | (Status, _) \<Rightarrow> send_status env c
      | (Help, _) \<Rightarrow> send_help env c
      | (Reload, _) \<Rightarrow> (True, snd (send env (''530 Not logged in'' @ crlf) c))
      | _ \<Rightarrow> send env (''500 Command not recognized'' @ crlf) c)"

fun serve :: "control_env \<Rightarrow> (string \<Rightarrow> 're option) \<Rightarrow> string list \<Rightarrow> 're connection \<Rightarrow> 're connection" where
  "serve env compile [] c = snd (send env ''snapp> '' c)"
| "serve env compile (recv_buf # rest) c =
     (case send env ''snapp> '' c of (ok, c1) \<Rightarrow>
        if \<not> ok \<or> recv_buf = [] then c1
        else case run_command env compile (command_of recv_buf) c1 of (continue, c2) \<Rightarrow>
          if continue then serve env compile rest c2 else c2)"

definition handle_connection :: "control_env \<Rightarrow> (string \<Rightarrow> 're option) \<Rightarrow> string list \<Rightarrow> 're log_state \<Rightarrow> 're connection" where
  "handle_connection env compile chunks log =
     (case send env (''220 SNAPP server ('' @ version env @ '') ready'' @ crlf)
        \<lparr>connection_state = State_connected, sent = [], sighups = 0, conn_log = log\<rparr> of
      (ok, c) \<Rightarrow> if ok then serve env compile chunks c else c)"

section \<open>Who may do what\<close>

text \<open>Histories of received texts: a user name was given; then the right password; then a command.\<close>

definition named :: "string list \<Rightarrow> bool" where
  "named h \<longleftrightarrow> (\<exists>u \<in> set h. \<exists>n. command_of u = User n)"

definition logged_in :: "string \<Rightarrow> string list \<Rightarrow> bool" where
  "logged_in pw h \<longleftrightarrow> (\<exists>h1 p h2. h = h1 @ p # h2 \<and> command_of p = Pass pw \<and> named h1)"

definition privileged :: "command \<Rightarrow> bool" where
  "privileged cmd \<longleftrightarrow> cmd = Reload \<or> (\<exists>a. cmd = Logregexp a)"

definition acted :: "string \<Rightarrow> string list \<Rightarrow> bool" where
  "acted pw h \<longleftrightarrow> (\<exists>h1 r h2. h = h1 @ r # h2 \<and> privileged (command_of r) \<and> logged_in pw h1)"

lemma named_append: "named h \<Longrightarrow> named (h @ h')"
  by (auto simp: named_def)

lemma logged_in_append: "logged_in pw h \<Longrightarrow> logged_in pw (h @ h')"
  unfolding logged_in_def by (elim exE conjE) (metis append.assoc append_Cons)

lemma acted_append: "acted pw h \<Longrightarrow> acted pw (h @ h')"
  unfolding acted_def by (elim exE conjE) (metis append.assoc append_Cons)

lemma named_snoc: "command_of u = User n \<Longrightarrow> named (h @ [u])"
  by (auto simp: named_def)

lemma logged_in_snoc: "named h \<Longrightarrow> command_of p = Pass pw \<Longrightarrow> logged_in pw (h @ [p])"
  unfolding logged_in_def by (intro exI [of _ h] exI [of _ p] exI [of _ "[]"]) simp

lemma acted_snoc: "logged_in pw h \<Longrightarrow> privileged (command_of r) \<Longrightarrow> acted pw (h @ [r])"
  unfolding acted_def by (intro exI [of _ h] exI [of _ r] exI [of _ "[]"]) simp

lemmas history_append = named_append logged_in_append acted_append
lemmas history_snoc = named_snoc logged_in_snoc acted_snoc

definition conn_ok :: "string \<Rightarrow> 're log_state \<Rightarrow> string list \<Rightarrow> 're connection \<Rightarrow> bool" where
  "conn_ok pw log h c \<longleftrightarrow>
     (connection_state c \<noteq> State_connected \<longrightarrow> named h) \<and>
     (connection_state c = State_authenticated \<longrightarrow> logged_in pw h) \<and>
     (sighups c \<noteq> 0 \<or> conn_log c \<noteq> log \<longrightarrow> acted pw h)"

text \<open>What a command may touch, and when.\<close>

lemma send_fields [simp]:
  "connection_state (snd (send env m c)) = connection_state c"
  "sighups (snd (send env m c)) = sighups c" "conn_log (snd (send env m c)) = conn_log c"
  "sent (snd (send env m c)) = sent c @ [take 1022 m]" "fst (send env m c) = send_ok env (length (sent c))"
  by (simp_all add: send_def)

lemma send_all_fields [simp]:
  "connection_state (snd (send_all env ms c)) = connection_state c"
  "sighups (snd (send_all env ms c)) = sighups c" "conn_log (snd (send_all env ms c)) = conn_log c"
  by (induction ms arbitrary: c) (auto simp: send_def)

lemma send_status_fields [simp]:
  "connection_state (snd (send_status env c)) = connection_state c"
  "sighups (snd (send_status env c)) = sighups c" "conn_log (snd (send_status env c)) = conn_log c"
  by (simp_all add: send_status_def Let_def del: send_all.simps)

lemma send_help_fields [simp]:
  "connection_state (snd (send_help env c)) = connection_state c"
  "sighups (snd (send_help env c)) = sighups c" "conn_log (snd (send_help env c)) = conn_log c"
  by (simp_all add: send_help_def del: send_all.simps)

lemma do_reload_fields [simp]:
  "connection_state (do_reload env c) = connection_state c" "sighups (do_reload env c) = Suc (sighups c)"
  "conn_log (do_reload env c) = conn_log c"
  by (simp_all add: do_reload_def Let_def)

lemma run_command_privileged:
  assumes "snd (run_command env compile cmd c) = c'"
  shows "(sighups c' \<noteq> sighups c \<or> conn_log c' \<noteq> conn_log c \<longrightarrow>
      privileged cmd \<and> connection_state c = State_authenticated) \<and>
    (connection_state c' \<noteq> connection_state c \<longrightarrow>
      (\<exists>n. cmd = User n \<and> connection_state c' = State_username_received) \<or>
      (cmd = Pass (control_password env) \<and> connection_state c = State_username_received))"
  using assms
  by (auto simp: run_command_def privileged_def
      split: command.splits connection_state.splits if_splits)

lemma run_command_ok:
  assumes ok: "conn_ok (control_password env) log h c" and cmd: "command_of u = cmd"
  shows "conn_ok (control_password env) log (h @ [u]) (snd (run_command env compile cmd c))"
proof -
  define c' where "c' = snd (run_command env compile cmd c)"
  define pw where "pw = control_password env"
  have p: "sighups c' \<noteq> sighups c \<or> conn_log c' \<noteq> conn_log c \<longrightarrow>
      privileged cmd \<and> connection_state c = State_authenticated"
    and q: "connection_state c' \<noteq> connection_state c \<longrightarrow>
      (\<exists>n. cmd = User n \<and> connection_state c' = State_username_received) \<or>
      (cmd = Pass pw \<and> connection_state c = State_username_received)"
    using run_command_privileged [of env compile cmd c c'] by (simp_all add: c'_def pw_def)
  from ok have h: "connection_state c \<noteq> State_connected \<longrightarrow> named h"
    "connection_state c = State_authenticated \<longrightarrow> logged_in pw h"
    "sighups c \<noteq> 0 \<or> conn_log c \<noteq> log \<longrightarrow> acted pw h" by (simp_all add: conn_ok_def pw_def)
  have "named (h @ [u])" if "connection_state c' \<noteq> State_connected"
  proof (cases "connection_state c = State_connected")
    case True
    with q that obtain n where "cmd = User n" by auto
    with cmd show ?thesis by (blast intro: named_snoc)
  next
    case False
    with h(1) show ?thesis by (blast intro: named_append)
  qed
  moreover have "logged_in pw (h @ [u])" if "connection_state c' = State_authenticated"
  proof (cases "connection_state c = State_authenticated")
    case True
    with h(2) show ?thesis by (blast intro: logged_in_append)
  next
    case False
    with q that have "cmd = Pass pw" "connection_state c = State_username_received" by auto
    with h(1) cmd show ?thesis by (intro logged_in_snoc) simp_all
  qed
  moreover have "acted pw (h @ [u])" if "sighups c' \<noteq> 0 \<or> conn_log c' \<noteq> log"
  proof (cases "sighups c' = sighups c \<and> conn_log c' = conn_log c")
    case True
    with that h(3) show ?thesis by (intro acted_append) simp
  next
    case False
    with p h(2) cmd show ?thesis by (intro acted_snoc) blast+
  qed
  ultimately show ?thesis by (simp add: conn_ok_def c'_def pw_def)
qed

lemma conn_ok_send [simp]: "conn_ok pw log h (snd (send env m c)) = conn_ok pw log h c"
  by (simp add: conn_ok_def)

lemma conn_ok_append: "conn_ok pw log h c \<Longrightarrow> conn_ok pw log (h @ h') c"
  by (auto simp: conn_ok_def intro: history_append)

lemma serve_ok:
  "conn_ok (control_password env) log h c \<Longrightarrow>
   conn_ok (control_password env) log (h @ chunks) (serve env compile chunks c)"
proof (induction chunks arbitrary: h c)
  case Nil
  then show ?case by simp
next
  case (Cons chunk chunks)
  let ?c1 = "snd (send env ''snapp> '' c)"
  let ?r = "run_command env compile (command_of chunk) ?c1"
  have "conn_ok (control_password env) log (h @ [chunk]) (snd ?r)"
    using Cons.prems by (intro run_command_ok) simp_all
  note after = this Cons.IH [OF this]
  have eq: "serve env compile (chunk # chunks) c =
      (if \<not> fst (send env ''snapp> '' c) \<or> chunk = [] then ?c1
       else if fst ?r then serve env compile chunks (snd ?r) else snd ?r)"
    by (simp add: case_prod_beta)
  show ?case
    unfolding eq using after Cons.prems conn_ok_append [OF after(1), of chunks] conn_ok_append
    by (auto split: if_splits)
qed

lemma handle_connection_ok:
  "conn_ok (control_password env) log chunks (handle_connection env compile chunks log)"
proof -
  let ?c = "\<lparr>connection_state = State_connected, sent = [], sighups = 0, conn_log = log\<rparr>"
  let ?c0 = "snd (send env (''220 SNAPP server ('' @ version env @ '') ready'' @ crlf) ?c)"
  have "conn_ok (control_password env) log [] ?c" by (simp add: conn_ok_def)
  then have c0: "conn_ok (control_password env) log [] ?c0" by (simp only: conn_ok_send)
  from serve_ok [OF c0, of chunks compile] conn_ok_append [OF c0, of chunks] show ?thesis
    unfolding handle_connection_def case_prod_beta by (simp only: append_Nil split: if_split) blast
qed

text \<open>
  C23. A client changes something (has the configuration reloaded, or replaces the log
  expression) only by sending, in this order, a user name, the control password and then the
  command; no sequence of texts, however it is cut, repeated or cased, gets around the login.
\<close>

theorem control_needs_login:
  assumes "sighups (handle_connection env compile chunks log) \<noteq> 0 \<or>
    conn_log (handle_connection env compile chunks log) \<noteq> log"
  shows "\<exists>h1 u h2 p h3 r h4 n. chunks = h1 @ u # h2 @ p # h3 @ r # h4 \<and> command_of u = User n \<and>
    command_of p = Pass (control_password env) \<and> privileged (command_of r)"
proof -
  from handle_connection_ok [of env log chunks compile] assms have "acted (control_password env) chunks"
    by (auto simp: conn_ok_def)
  then obtain g1 r g2 where "chunks = g1 @ r # g2" "privileged (command_of r)" "logged_in (control_password env) g1"
    by (auto simp: acted_def)
  moreover then obtain f1 p f2 where "g1 = f1 @ p # f2" "command_of p = Pass (control_password env)" "named f1"
    by (auto simp: logged_in_def)
  moreover then obtain u n where "u \<in> set f1" "command_of u = User n" by (auto simp: named_def)
  moreover then obtain e1 e2 where "f1 = e1 @ u # e2" by (meson split_list)
  ultimately show ?thesis by (metis append.assoc append_Cons)
qed

lemma pass_length: "command_of p = Pass a \<Longrightarrow> 3 \<le> length a"
  by (auto simp: parse_command_def split: if_splits)

text \<open>
  A control password of one or two characters (or none) locks everybody out: the command
  needs eight characters, five of them before the password, so no connection can change anything.
\<close>

theorem short_password_never_works:
  assumes "length (control_password env) < 3"
  shows "sighups (handle_connection env compile chunks log) = 0 \<and>
    conn_log (handle_connection env compile chunks log) = log"
proof -
  have "\<not> acted (control_password env) chunks"
    using assms pass_length by (fastforce simp: acted_def logged_in_def)
  with handle_connection_ok [of env log chunks compile] show ?thesis by (auto simp: conn_ok_def)
qed

definition plain :: "string \<Rightarrow> bool" where
  "plain s \<longleftrightarrow> no_nul s \<and> CHR 0x0A \<notin> set s \<and> CHR 0x0D \<notin> set s"

lemma received_plain: "plain s \<Longrightarrow> received_line (s @ crlf) = s"
proof -
  assume "plain s"
  then have "map (\<lambda>c. if c = CHR 0x0A \<or> c = CHR 0x0D then nul else c) s = s" "no_nul s"
    by (auto simp: plain_def intro: map_idI)
  then show ?thesis by (simp add: received_line_def crlf_def)
qed

lemma parse_user: "3 \<le> length n \<Longrightarrow> parse_command (''user '' @ n) = User n"
  by (simp add: parse_command_def strcase_prefix_def strcasecmp_eq_def to_lower_def)

lemma parse_pass: "3 \<le> length n \<Longrightarrow> parse_command (''pass '' @ n) = Pass n"
  by (simp add: parse_command_def strcase_prefix_def strcasecmp_eq_def to_lower_def)

lemma parse_reload: "parse_command ''reload'' = Reload"
  by (simp add: parse_command_def strcase_prefix_def strcasecmp_eq_def to_lower_def)

lemma command_user: "plain n \<Longrightarrow> 3 \<le> length n \<Longrightarrow> command_of ((''user '' @ n) @ crlf) = User n"
  by (subst received_plain) (simp_all only: parse_user, simp add: plain_def)

lemma command_pass: "plain n \<Longrightarrow> 3 \<le> length n \<Longrightarrow> command_of ((''pass '' @ n) @ crlf) = Pass n"
  by (subst received_plain) (simp_all only: parse_pass, simp add: plain_def)

lemma command_reload: "command_of (''reload'' @ crlf) = Reload"
  by (subst received_plain) (simp_all only: parse_reload, simp add: plain_def)

lemma serve_step:
  assumes "\<forall>k. send_ok env k" "chunk \<noteq> []"
    "run_command env compile (command_of chunk) (snd (send env ''snapp> '' c)) = (True, c')"
  shows "serve env compile (chunk # chunks) c = serve env compile chunks c'"
  using assms by (simp add: case_prod_beta)

text \<open>The intended dialogue works: on a connection whose replies get through, a user name of at least
  three characters, the control password (also at least three) and \<^verbatim>\<open>reload\<close>, each ended by CR LF,
  make the server ask for the password, accept the login and send exactly one SIGHUP.
\<close>

theorem login_then_reload:
  assumes "\<forall>k. send_ok env k" "plain n" "3 \<le> length n" "plain pw" "3 \<le> length pw" "control_password env = pw"
  shows "\<exists>c hello r. handle_connection env compile
      [(''user '' @ n) @ crlf, (''pass '' @ pw) @ crlf, ''reload'' @ crlf] log = c \<and>
    sighups c = 1 \<and> connection_state c = State_authenticated \<and> conn_log c = log \<and>
    sent c = [hello, ''snapp> '', ''331 Please specify the password'' @ crlf, ''snapp> '',
      ''230 Login Sucessful'' @ crlf, ''snapp> '', r, ''snapp> '']"
proof -
  define c0 where "c0 = snd (send env (''220 SNAPP server ('' @ version env @ '') ready'' @ crlf)
    \<lparr>connection_state = State_connected, sent = [], sighups = 0, conn_log = log\<rparr>)"
  let ?prompt = "\<lambda>c. snd (send env ''snapp> '' c)"
  define c1 where "c1 = snd (send env (''331 Please specify the password'' @ crlf)
    ((?prompt c0)\<lparr>connection_state := State_username_received\<rparr>))"
  define c2 where "c2 = snd (send env (''230 Login Sucessful'' @ crlf)
    ((?prompt c1)\<lparr>connection_state := State_authenticated\<rparr>))"
  define c3 where "c3 = do_reload env (?prompt c2)"
  have st: "connection_state c0 = State_connected" "connection_state c1 = State_username_received"
    "connection_state c2 = State_authenticated"
    by (simp_all add: c0_def c1_def c2_def)
  have 1: "run_command env compile (User n) (?prompt c0) = (True, c1)"
    using st by (simp add: run_command_def c1_def)
  have 2: "run_command env compile (Pass pw) (?prompt c1) = (True, c2)"
    using st assms(6) by (simp add: run_command_def c2_def)
  have 3: "run_command env compile Reload (?prompt c2) = (True, c3)"
    using st by (simp add: run_command_def c3_def)
  have "handle_connection env compile [(''user '' @ n) @ crlf, (''pass '' @ pw) @ crlf, ''reload'' @ crlf] log =
      serve env compile [(''user '' @ n) @ crlf, (''pass '' @ pw) @ crlf, ''reload'' @ crlf] c0"
    using assms(1) by (simp add: handle_connection_def case_prod_beta c0_def del: serve.simps)
  also have "\<dots> = serve env compile [(''pass '' @ pw) @ crlf, ''reload'' @ crlf] c1"
    using assms(1) by (rule serve_step) (simp, simp only: command_user [OF assms(2, 3)] 1)
  also have "\<dots> = serve env compile [''reload'' @ crlf] c2"
    using assms(1) by (rule serve_step) (simp, simp only: command_pass [OF assms(4, 5)] 2)
  also have "\<dots> = serve env compile [] c3"
    using assms(1) by (rule serve_step) (simp, simp only: command_reload 3)
  finally have "handle_connection env compile [(''user '' @ n) @ crlf, (''pass '' @ pw) @ crlf, ''reload'' @ crlf] log =
      ?prompt c3" by simp
  moreover have "\<exists>hello r. sent (?prompt c3) = [hello, ''snapp> '', ''331 Please specify the password'' @ crlf, ''snapp> '',
      ''230 Login Sucessful'' @ crlf, ''snapp> '', r, ''snapp> '']"
    by (simp add: c3_def c2_def c1_def c0_def do_reload_def Let_def crlf_def)
  ultimately show ?thesis using st by (auto simp: c3_def c2_def c1_def c0_def)
qed

definition demo_env :: "string \<Rightarrow> control_env" where
  "demo_env pw = \<lparr>control_password = pw, version = ''3.1'', send_ok = (\<lambda>_. True), config_now = (\<lambda>_. demo_config),
     writer_now = (\<lambda>_. two_queue_writer), reload_seen = (\<lambda>_ i. i = 3), reload_secs = (\<lambda>_. 4)\<rparr>"

theorem login_then_reload_witness:
  "sighups (handle_connection (demo_env ''abc'') (\<lambda>_. None :: unit option)
     [(''user '' @ ''root'') @ crlf, (''pass '' @ ''abc'') @ crlf, ''reload'' @ crlf] initial_log) = 1"
  using login_then_reload [of "demo_env ''abc''" "''root''" "''abc''" "\<lambda>_. None :: unit option" initial_log]
  by (auto simp: demo_env_def plain_def)

theorem control_needs_login_witness:
  "\<exists>h1 u h2 p h3 r h4 n.
     [(''user '' @ ''root'') @ crlf, (''pass '' @ ''abc'') @ crlf, ''reload'' @ crlf] = h1 @ u # h2 @ p # h3 @ r # h4 \<and>
     command_of u = User n \<and> command_of p = Pass ''abc'' \<and> privileged (command_of r)"
proof -
  let ?chunks = "[(''user '' @ ''root'') @ crlf, (''pass '' @ ''abc'') @ crlf, ''reload'' @ crlf]"
  have "sighups (handle_connection (demo_env ''abc'') (\<lambda>_. None :: unit option) ?chunks initial_log) \<noteq> 0"
    by code_simp
  from control_needs_login [OF disjI1, OF this] show ?thesis by (simp add: demo_env_def)
qed

theorem short_password_never_works_witness:
  "sighups (handle_connection (demo_env ''ab'') (\<lambda>_. None :: unit option)
     [(''user '' @ ''root'') @ crlf, (''pass '' @ ''ab'') @ crlf, ''reload'' @ crlf] initial_log) = 0"
  using short_password_never_works [of "demo_env ''ab''" "\<lambda>_. None :: unit option"] by (simp add: demo_env_def)

section \<open>Accepted connections\<close>

text \<open>
  The listening thread pushes a descriptor under the lock and posts after unlocking; five workers
  wait, pop and serve. \<open>to_post\<close> is the listener between the two.
\<close>

datatype control_pc = C_wait | C_lock | C_serve int

record control_pool =
  pending_fd :: "int list"
  pending_semaphore :: nat
  to_post :: bool
  control_workers :: "control_pc list"

datatype control_label = C_accept int | C_pop nat int | C_tau

definition control_init :: control_pool where
  "control_init = \<lparr>pending_fd = [], pending_semaphore = 0, to_post = False, control_workers = replicate 5 C_wait\<rparr>"

definition at_control :: "control_pool \<Rightarrow> nat \<Rightarrow> control_pc \<Rightarrow> bool" where
  "at_control s i pc \<longleftrightarrow> i < length (control_workers s) \<and> control_workers s ! i = pc"

inductive control_step :: "control_pool \<Rightarrow> control_label \<Rightarrow> control_pool \<Rightarrow> bool" where
  k_accept: "\<not> to_post s \<Longrightarrow> new_fd \<noteq> - 1 \<Longrightarrow>
     control_step s (C_accept new_fd) (s\<lparr>pending_fd := pending_fd s @ [new_fd], to_post := True\<rparr>)"
| k_post: "to_post s \<Longrightarrow>
     control_step s C_tau (s\<lparr>pending_semaphore := Suc (pending_semaphore s), to_post := False\<rparr>)"
| k_wait: "at_control s i C_wait \<Longrightarrow> 0 < pending_semaphore s \<Longrightarrow>
     control_step s C_tau (s\<lparr>pending_semaphore := pending_semaphore s - 1,
       control_workers := (control_workers s)[i := C_lock]\<rparr>)"
| k_pop: "at_control s i C_lock \<Longrightarrow> pending_fd s = fd # q \<Longrightarrow>
     control_step s (C_pop i fd) (s\<lparr>pending_fd := q, control_workers := (control_workers s)[i := C_serve fd]\<rparr>)"
| k_close: "at_control s i (C_serve fd) \<Longrightarrow>
     control_step s C_tau (s\<lparr>control_workers := (control_workers s)[i := C_wait]\<rparr>)"

definition control_claims :: "control_pool \<Rightarrow> nat" where
  "control_claims s = length (filter (\<lambda>pc. pc = C_lock) (control_workers s))"

definition control_credit :: "control_pool \<Rightarrow> nat" where
  "control_credit s = pending_semaphore s + control_claims s + (if to_post s then 1 else 0)"

fun control_view :: "control_label \<Rightarrow> int qop" where
  "control_view (C_accept fd) = Enqueue fd"
| "control_view (C_pop i fd) = Dequeue fd"
| "control_view C_tau = Other"

lemmas control_defs = control_credit_def control_claims_def at_control_def

interpretation cq: sem_queue pending_fd control_credit control_claims control_step control_view "\<lambda>_. True"
proof unfold_locales
  fix s l t fd
  assume "control_step s l t" "control_view l = Enqueue fd"
  then show "pending_fd t = pending_fd s @ [fd] \<and> control_credit t \<le> Suc (control_credit s)"
    by (cases rule: control_step.cases) (auto simp: control_defs)
next
  fix s l t fd
  assume "control_step s l t" "control_view l = Dequeue fd"
  then show "pending_fd s = fd # pending_fd t \<and> Suc (control_credit t) \<le> control_credit s"
  proof (cases rule: control_step.cases)
    case (k_pop i fd q)
    with length_filter_update [of i "control_workers s" "\<lambda>pc. pc = C_lock" "C_serve fd"]
      \<open>control_view l = _\<close> show ?thesis by (auto simp: control_defs)
  qed auto
next
  fix s l t
  assume "control_step s l t" "control_view l = Other"
  then show "pending_fd t = pending_fd s \<and> control_credit t \<le> control_credit s"
  proof (cases rule: control_step.cases)
    case (k_wait i)
    with length_filter_update [of i "control_workers s" "\<lambda>pc. pc = C_lock" C_lock]
    show ?thesis by (auto simp: control_defs)
  next
    case (k_close i fd)
    with length_filter_update [of i "control_workers s" "\<lambda>pc. pc = C_lock" C_wait]
    show ?thesis by (auto simp: control_defs)
  qed (auto simp: control_defs)
qed (auto simp: control_credit_def)

text \<open>
  C31. Control connections are served in the order they are accepted, none twice and none skipped,
  and a worker past its wait always finds one, although the listener posts only after it
  released the lock.
\<close>

theorem control_connections_fifo:
  assumes "lrun control_step control_init tr s"
  shows "enqueued control_view tr = dequeued control_view tr @ pending_fd s \<and>
    (at_control s i C_lock \<longrightarrow> pending_fd s \<noteq> [])"
proof
  show "enqueued control_view tr = dequeued control_view tr @ pending_fd s"
    using cq.fifo [OF assms] by (simp add: control_init_def)
  show "at_control s i C_lock \<longrightarrow> pending_fd s \<noteq> []"
  proof
    assume "at_control s i C_lock"
    then have "C_lock \<in> set (control_workers s)" by (metis at_control_def nth_mem)
    then have "0 < control_claims s" by (auto simp: control_claims_def filter_empty_conv)
    with cq.no_underflow [OF assms] show "pending_fd s \<noteq> []"
      by (simp add: control_init_def control_defs)
  qed
qed

theorem control_connections_fifo_witness:
  "\<exists>tr s. lrun control_step control_init tr s \<and> tr = [C_accept 7] \<and>
     enqueued control_view tr = dequeued control_view tr @ pending_fd s"
proof -
  have "lrun control_step control_init [C_accept 7] (control_init\<lparr>pending_fd := [7], to_post := True\<rparr>)"
    using k_accept [of control_init 7] by (intro lrun_one) (simp add: control_init_def)
  with control_connections_fifo [OF this] show ?thesis by blast
qed

end
