(* ===== verification/Control_Fair.thy ===== *)
theory Control_Fair
  imports Snapp_Control Fair_Runs
begin

text \<open>
  The control port over time (\<^verbatim>\<open>thread_start\<close> of the listener and of its five workers in
  \<^verbatim>\<open>snapp_control.cpp\<close>): if the listener posts what it queued and the workers go on, which includes
  that the dialogues they are in come to an end, every accepted connection is handed to a worker.
\<close>

section \<open>Whose step it is\<close>

definition control_worker_goes_on :: "control_pool \<Rightarrow> control_label \<Rightarrow> control_pool \<Rightarrow> bool" where
  "control_worker_goes_on s l t \<longleftrightarrow> control_workers t \<noteq> control_workers s"

definition listener_posts :: "control_pool \<Rightarrow> control_label \<Rightarrow> control_pool \<Rightarrow> bool" where
  "listener_posts s l t \<longleftrightarrow> to_post s \<and> \<not> to_post t"

definition posted :: "control_pool \<Rightarrow> nat" where
  "posted s = pending_semaphore s + control_claims s"

text \<open>Work on the first connection: a worker goes on, or the listener posts for the only one queued.\<close>

abbreviation control_serves :: "control_pool \<Rightarrow> control_label \<Rightarrow> control_pool \<Rightarrow> bool" where
  "control_serves s l t \<equiv> control_worker_goes_on s l t \<or> (listener_posts s l t \<and> posted s = 0)"

fun steps_to_pop :: "control_pc \<Rightarrow> nat" where
  "steps_to_pop (C_serve fd) = 2"
| "steps_to_pop C_wait = 1"
| "steps_to_pop C_lock = 0"

definition pops_left :: "control_pool \<Rightarrow> nat" where
  "pops_left s = sum_list (map steps_to_pop (control_workers s)) + (if posted s = 0 then 1 else 0)"

definition control_ok :: "control_pool \<Rightarrow> bool" where
  "control_ok s \<longleftrightarrow> length (pending_fd s) = control_credit s \<and> control_workers s \<noteq> []"

lemma control_claims_set:
  assumes "at_control s i pc" "control_workers t = (control_workers s)[i := pc']"
  shows "control_claims t + (if pc = C_lock then 1 else 0) = control_claims s + (if pc' = C_lock then 1 else 0)"
  using length_filter_update [of i "control_workers s" "\<lambda>pc. pc = C_lock" pc'] assms
  by (simp add: control_claims_def at_control_def)

lemma steps_to_pop_set:
  assumes "at_control s i pc" "control_workers t = (control_workers s)[i := pc']"
  shows "sum_list (map steps_to_pop (control_workers t)) + steps_to_pop pc =
    sum_list (map steps_to_pop (control_workers s)) + steps_to_pop pc'"
proof -
  have i: "i < length (control_workers s)" "control_workers s ! i = pc" using assms(1) by (simp_all add: at_control_def)
  then have "sum_list (map steps_to_pop (control_workers s)) \<ge> steps_to_pop pc"
    by (metis length_map member_le_sum_list nth_map nth_mem zero_le)
  with i assms(2) show ?thesis by (simp add: map_update sum_list_update)
qed

lemma control_ok_step:
  assumes "control_ok s" "control_step s l t"
  shows "control_ok t"
  using assms(2)
proof (cases rule: control_step.cases)
  case (k_wait i)
  with control_claims_set [of s i C_wait t C_lock] assms(1) show ?thesis by (simp add: control_ok_def control_credit_def)
next
  case (k_pop i fd q)
  with control_claims_set [of s i C_lock t "C_serve fd"] assms(1) show ?thesis by (simp add: control_ok_def control_credit_def)
next
  case (k_close i fd)
  with control_claims_set [of s i "C_serve fd" t C_wait] assms(1) show ?thesis by (simp add: control_ok_def control_credit_def)
qed (use assms(1) in \<open>auto simp: control_ok_def control_credit_def control_claims_def\<close>)

lemma control_ok_init: "control_ok control_init"
  by (simp add: control_ok_def control_init_def control_credit_def control_claims_def)

interpretation kq: served_queue control_step control_ok pending_fd control_view control_serves pops_left
proof unfold_locales
  fix s l t
  assume ok: "control_ok s" and st: "control_step s l t"
  then show "control_ok t" by (rule control_ok_step)
  show "pending_fd s @ enqueued control_view [l] = dequeued control_view [l] @ pending_fd t"
    using st by (cases rule: control_step.cases) auto
  show "pops_left t < pops_left s" if "control_serves s l t" "dequeued control_view [l] = []"
    using st
  proof (cases rule: control_step.cases)
    case (k_wait i)
    with control_claims_set [of s i C_wait t C_lock] steps_to_pop_set [of s i C_wait t C_lock]
    show ?thesis by (simp add: pops_left_def posted_def)
  next
    case (k_close i fd)
    with control_claims_set [of s i "C_serve fd" t C_wait] steps_to_pop_set [of s i "C_serve fd" t C_wait]
    show ?thesis by (simp add: pops_left_def posted_def)
  qed (use that in \<open>auto simp: control_worker_goes_on_def listener_posts_def pops_left_def posted_def control_claims_def\<close>)
  show "dequeued control_view [l] = [] \<and> pops_left t \<le> pops_left s" if "\<not> control_serves s l t"
    using st
  proof (cases rule: control_step.cases)
    case (k_pop i fd q)
    then have "control_workers t ! i \<noteq> control_workers s ! i" by (simp add: at_control_def)
    with that show ?thesis by (auto simp: control_worker_goes_on_def)
  next
    case (k_wait i)
    then have "control_workers t ! i \<noteq> control_workers s ! i" by (simp add: at_control_def)
    with that show ?thesis by (auto simp: control_worker_goes_on_def)
  next
    case (k_close i fd)
    then have "control_workers t ! i \<noteq> control_workers s ! i" by (simp add: at_control_def)
    with that show ?thesis by (auto simp: control_worker_goes_on_def)
  qed (use that in \<open>auto simp: listener_posts_def pops_left_def posted_def control_claims_def\<close>)
qed

section \<open>Fair runs\<close>

lemma some_worker_can_go_on:
  assumes "control_ok s" "pending_fd s \<noteq> []" "0 < posted s"
  shows "\<exists>l t. control_step s l t \<and> control_worker_goes_on s l t"
proof (cases "0 < control_claims s")
  case True
  then obtain i where i: "at_control s i C_lock"
    by (auto simp: control_claims_def at_control_def filter_empty_conv in_set_conv_nth)
  moreover obtain fd q where "pending_fd s = fd # q" using assms(2) by (cases "pending_fd s") auto
  ultimately have "control_step s (C_pop i fd) (s\<lparr>pending_fd := q, control_workers := (control_workers s)[i := C_serve fd]\<rparr>)"
    by (rule control_step.k_pop)
  moreover have "(control_workers s)[i := C_serve fd] \<noteq> control_workers s"
    using i by (metis at_control_def control_pc.distinct(5) nth_list_update_eq)
  ultimately show ?thesis by (fastforce simp: control_worker_goes_on_def)
next
  case False
  with assms(3) have sem: "0 < pending_semaphore s" by (simp add: posted_def)
  obtain i where i: "i < length (control_workers s)" using assms(1) by (auto simp: control_ok_def)
  show ?thesis
  proof (cases "control_workers s ! i")
    case C_wait
    then have at: "at_control s i C_wait" using i by (simp add: at_control_def)
    moreover have "(control_workers s)[i := C_lock] \<noteq> control_workers s"
      using at by (metis at_control_def control_pc.distinct(1) nth_list_update_eq)
    ultimately show ?thesis using control_step.k_wait [OF at sem] by (fastforce simp: control_worker_goes_on_def)
  next
    case C_lock
    with i False show ?thesis by (force simp: control_claims_def filter_empty_conv)
  next
    case (C_serve fd)
    then have at: "at_control s i (C_serve fd)" using i by (simp add: at_control_def)
    moreover have "(control_workers s)[i := C_wait] \<noteq> control_workers s"
      using at by (metis at_control_def control_pc.distinct(3) nth_list_update_eq)
    ultimately show ?thesis using control_step.k_close [OF at] by (fastforce simp: control_worker_goes_on_def)
  qed
qed

text \<open>While no worker goes on, only the listener changes what is posted.\<close>

lemma posted_step:
  assumes "control_step s l t" "\<not> control_worker_goes_on s l t"
  shows "posted t = posted s + (if listener_posts s l t then 1 else 0)"
proof -
  have "(control_workers s)[i := pc'] \<noteq> control_workers s" if "at_control s i pc" "pc' \<noteq> pc" for i pc pc'
    using that by (metis at_control_def nth_list_update_eq)
  with assms show ?thesis
    by (cases rule: control_step.cases)
      (auto simp: control_worker_goes_on_def listener_posts_def posted_def control_claims_def)
qed

lemma control_attended:
  assumes ir: "inf_run control_step run ls"
    and fair: "weakly_fair control_step control_worker_goes_on run ls" "weakly_fair control_step listener_posts run ls"
  shows "kq.attended run ls"
  unfolding kq.attended_def
proof (intro allI impI)
  fix N
  assume all: "\<forall>m\<ge>N. control_ok (run m) \<and> pending_fd (run m) \<noteq> []"
  show "\<exists>m\<ge>N. control_serves (run m) (ls m) (run (Suc m))"
  proof (rule ccontr)
    assume "\<not> ?thesis"
    then have no: "\<not> control_worker_goes_on (run m) (ls m) (run (Suc m))"
      "listener_posts (run m) (ls m) (run (Suc m)) \<Longrightarrow> posted (run m) \<noteq> 0" if "m \<ge> N" for m using that by auto
    note ps = posted_step [OF inf_run_step [OF ir] no(1)]
    show False
    proof (cases "posted (run N) = 0")
      case True
      have zero: "posted (run m) = 0" if "m \<ge> N" for m
        using that
      proof (induction rule: dec_induct)
        case (step m)
        with ps [of m] no(2) [of m] show ?case by auto
      qed (rule True)
      have "\<exists>l t. control_step (run m) l t \<and> listener_posts (run m) l t" if m: "m \<ge> N" for m
      proof -
        have "to_post (run m)" using all m zero [OF m]
          by (auto simp: control_ok_def control_credit_def posted_def simp flip: length_greater_0_conv split: if_splits)
        from control_step.k_post [OF this] this show ?thesis by (force simp: listener_posts_def)
      qed
      then obtain m where "m \<ge> N" "listener_posts (run m) (ls m) (run (Suc m))"
        using fair(2) unfolding weakly_fair_def by blast
      with no(2) zero show False by blast
    next
      case False
      have "0 < posted (run m)" if "m \<ge> N" for m
        using that
      proof (induction rule: dec_induct)
        case (step m)
        with ps [of m] show ?case by simp
      qed (use False in simp)
      then have "\<exists>m\<ge>N. control_worker_goes_on (run m) (ls m) (run (Suc m))"
        using fair(1) all some_worker_can_go_on unfolding weakly_fair_def by blast
      with no(1) show False by blast
    qed
  qed
qed

section \<open>Properties\<close>

text \<open>
  C30. Every client gets its turn: in each infinite run of the control port in which the listener and the
  workers go on whenever they can (a dialogue is one step, so it is taken to end), the connections
  accepted by any moment have at some later one been handed to workers, in the order they were accepted,
  however many more arrive meanwhile.
\<close>

theorem connections_are_served:
  assumes "run 0 = control_init" "inf_run control_step run ls"
    and "weakly_fair control_step control_worker_goes_on run ls" "weakly_fair control_step listener_posts run ls"
  shows "\<exists>m\<ge>n. dequeued control_view (segment ls 0 m) = enqueued control_view (segment ls 0 n)"
proof -
  have ok0: "control_ok (run 0)" "pending_fd (run 0) = []"
    using assms(1) control_ok_init by (simp_all add: control_init_def)
  have n: "control_ok (run n)" "enqueued control_view (segment ls 0 n) = dequeued control_view (segment ls 0 n) @ pending_fd (run n)"
    using kq.account_run [OF inf_run_lrun [OF assms(2), of 0 n] ok0(1)] ok0(2) by simp_all
  obtain m where "m \<ge> n" "dequeued control_view (segment ls n m) = pending_fd (run n)"
    using kq.all_served [OF assms(2) control_attended [OF assms(2-4)] n(1)] by blast
  with n(2) dequeued_segment [of n m control_view ls] show ?thesis by (intro exI [of _ m]) simp
qed

text \<open>One client after the other, each served by the first worker.\<close>

definition one_client :: "int list \<Rightarrow> nat \<Rightarrow> bool \<Rightarrow> control_pc \<Rightarrow> control_pool" where
  "one_client fds sem post pc = \<lparr>pending_fd = fds, pending_semaphore = sem, to_post = post,
     control_workers = pc # replicate 4 C_wait\<rparr>"

definition one_client_states :: "control_pool list" where
  "one_client_states = [one_client [] 0 False C_wait, one_client [7] 0 True C_wait, one_client [7] 1 False C_wait,
     one_client [7] 0 False C_lock, one_client [] 0 False (C_serve 7)]"

definition one_client_labels :: "control_label list" where
  "one_client_labels = [C_accept 7, C_tau, C_tau, C_pop 0 7, C_tau]"

lemma one_client_steps:
  "control_step (one_client [] 0 False C_wait) (C_accept 7) (one_client [7] 0 True C_wait)"
  "control_step (one_client [7] 0 True C_wait) C_tau (one_client [7] 1 False C_wait)"
  "control_step (one_client [7] 1 False C_wait) C_tau (one_client [7] 0 False C_lock)"
  "control_step (one_client [7] 0 False C_lock) (C_pop 0 7) (one_client [] 0 False (C_serve 7))"
  "control_step (one_client [] 0 False (C_serve 7)) C_tau (one_client [] 0 False C_wait)"
  using control_step.k_accept [of "one_client [] 0 False C_wait" 7] control_step.k_post [of "one_client [7] 0 True C_wait"]
    control_step.k_wait [of "one_client [7] 1 False C_wait" 0] control_step.k_pop [of "one_client [7] 0 False C_lock" 0 7 "[]"]
    control_step.k_close [of "one_client [] 0 False (C_serve 7)" 0 7]
  by (simp_all add: one_client_def at_control_def)

lemma one_client_run: "inf_run control_step (cycle one_client_states) (cycle one_client_labels)"
proof (rule cycle_run)
  fix i
  assume "i < length one_client_states"
  then have "i \<in> {0, 1, 2, 3, 4}" by (auto simp: one_client_states_def)
  then show "control_step (one_client_states ! i) (one_client_labels ! i) (one_client_states ! (Suc i mod length one_client_states))"
    using one_client_steps by (auto simp: one_client_states_def one_client_labels_def)
qed (simp_all add: one_client_states_def one_client_labels_def)

theorem connections_are_served_witness:
  "\<exists>m\<ge>6. dequeued control_view (segment (cycle one_client_labels) 0 m) = [7, 7]"
proof -
  have len: "length one_client_states = 5" "length one_client_labels = 5"
    by (simp_all add: one_client_states_def one_client_labels_def)
  have "weakly_fair control_step control_worker_goes_on (cycle one_client_states) (cycle one_client_labels)"
    using len by (intro cycle_weakly_fair [of _ _ 2])
      (simp_all add: control_worker_goes_on_def one_client_states_def one_client_def)
  moreover have "weakly_fair control_step listener_posts (cycle one_client_states) (cycle one_client_labels)"
    using len by (intro cycle_weakly_fair [of _ _ 1])
      (simp_all add: listener_posts_def one_client_states_def one_client_def)
  moreover have "cycle one_client_states 0 = control_init"
    by (simp add: cycle_def len) (simp add: one_client_states_def one_client_def control_init_def numeral_eq_Suc)
  moreover have "enqueued control_view (segment (cycle one_client_labels) 0 6) = [7, 7]"
    by (simp add: segment_def cycle_def len upt_rec) (simp add: one_client_labels_def)
  ultimately show ?thesis using connections_are_served [OF _ one_client_run, of 6] by simp
qed

end
