(* ===== verification/Config_Wf.thy ===== *)
theory Config_Wf
  imports Config_Init
begin

text \<open>
  The shape of a configuration: both tables agree with their indexes, every host of a class points
  into the host table, and every mapping a collection names exists. Loading establishes it, whatever
  rows the database holds; on a configuration of that shape the suffix mapping meets none of its
  assertions and follows no dangling pointer, and keeps the shape.
\<close>

definition collection_wf :: "oid_mapping_sequence_db \<Rightarrow> sql_collection \<Rightarrow> bool" where
  "collection_wf seqs c \<longleftrightarrow> oid_mapping_sequence_db_id c = - 1 \<or>
     (\<exists>seq. get_sequence_by_db_id seqs (word_of_int (sint (oid_mapping_sequence_db_id c))) = Inr (Some seq))"

definition sql_host_wf :: "oid_mapping_sequence_db \<Rightarrow> nat \<Rightarrow> sql_host \<Rightarrow> bool" where
  "sql_host_wf seqs n h \<longleftrightarrow> (\<exists>i < n. sh_host h = Some i) \<and> list_all (collection_wf seqs) (collection h)"

definition classes_wf :: "oid_mapping_sequence_db \<Rightarrow> nat \<Rightarrow> sql_collection_class list \<Rightarrow> bool" where
  "classes_wf seqs n ccs \<longleftrightarrow> list_all (\<lambda>cc. list_all (sql_host_wf seqs n) (cc_host cc)) ccs"

definition config_wf :: "snapp_config \<Rightarrow> bool" where
  "config_wf c \<longleftrightarrow> host_table_ok (host_table c) \<and> sequence_db_ok (sequence_db c) \<and>
     classes_wf (sequence_db c) (length (host (host_table c))) (collection_class c)"

section \<open>Loading\<close>

lemma load_host_rows_inserts:
  "load_host_rows garbage rs t = Inr t' \<Longrightarrow> \<exists>hs. length hs = length rs \<and> t' = insert_hosts t hs"
proof (induction rs arbitrary: t)
  case (Cons r rs)
  then obtain h where "load_host_rows garbage rs (fst (insert_new_host t h)) = Inr t'"
    by (auto simp: bind_result_eq_Inr)
  with Cons.IH obtain hs where "length hs = length rs" "t' = insert_hosts (fst (insert_new_host t h)) hs" by blast
  then show ?case by (intro exI [of _ "h # hs"]) (simp add: insert_hosts_def)
qed (simp add: insert_hosts_def)

lemma load_mapping_rows_inserts:
  "load_mapping_rows db rs t = Inr t' \<Longrightarrow> \<exists>ss. length ss = length rs \<and> t' = insert_sequences t ss"
proof (induction rs arbitrary: t)
  case (Cons r rs)
  then obtain s where "load_mapping_rows db rs (fst (insert_new_sequence t s)) = Inr t'"
    by (auto simp: bind_result_eq_Inr)
  with Cons.IH obtain ss where "length ss = length rs" "t' = insert_sequences (fst (insert_new_sequence t s)) ss" by blast
  then show ?case by (intro exI [of _ "s # ss"]) (simp add: insert_sequences_def)
qed (simp add: insert_sequences_def)

lemma db_id_oid_table_update [simp]:
  "db_id (xs[i := (xs ! i)\<lparr>oid_table := v\<rparr>] ! j) = db_id (xs ! j)"
  by (cases "i < length xs"; cases "i = j") (simp_all add: list_update_beyond)

lemma host_table_ok_add_tables:
  "host_table_ok t \<Longrightarrow> host_table_ok (add_tables oids i t) \<and> length (host (add_tables oids i t)) = length (host t)"
  by (auto simp: host_table_ok_def add_tables_def)

lemma mapping_id_roundtrip: "(scast (scast m :: 64 word) :: 32 word) = m"
  by (rule scast_up_scast_id) (simp add: is_up)

lemma row_mapping_wf:
  assumes "row_mapping seqs r = Inr (Some (m, oids))"
  shows "collection_wf seqs (c\<lparr>oid_mapping_sequence_db_id := m\<rparr>)"
  using assms
  by (auto simp: row_mapping_def bind_opt_eq_Some collection_wf_def mapping_id_roundtrip split: option.splits)

definition loader_wf :: "oid_mapping_sequence_db \<Rightarrow> nat \<Rightarrow> class_loader \<Rightarrow> bool" where
  "loader_wf seqs n st \<longleftrightarrow> host_table_ok (cl_hosts st) \<and> length (host (cl_hosts st)) = n \<and> classes_wf seqs n (cl_classes st)"

lemma classes_wf_update_last:
  "classes_wf seqs n ccs \<Longrightarrow> ccs \<noteq> [] \<Longrightarrow> list_all (sql_host_wf seqs n) (cc_host (f (last ccs))) \<Longrightarrow>
   classes_wf seqs n (update_last f ccs)"
  by (cases ccs rule: rev_cases) (auto simp: classes_wf_def)

lemma classes_wf_last: "classes_wf seqs n ccs \<Longrightarrow> ccs \<noteq> [] \<Longrightarrow> list_all (sql_host_wf seqs n) (cc_host (last ccs))"
  by (cases ccs rule: rev_cases) (auto simp: classes_wf_def)

lemma enter_class_wf: "loader_wf seqs n st \<Longrightarrow> enter_class r st = Inr st' \<Longrightarrow> loader_wf seqs n st'"
  by (auto simp: enter_class_def loader_wf_def classes_wf_def class_of_row_def bind_result_eq_Inr split: if_splits)

lemma enter_host_wf:
  assumes "loader_wf seqs n st" "enter_host junk r st = Inr (Some st')"
  shows "loader_wf seqs n st'"
proof (cases "last_host_id st = cr_host_id r")
  case True
  with assms show ?thesis by (simp add: enter_host_def)
next
  case False
  with assms(2) obtain i where i: "get_host_for_db_id (cl_hosts st) (cr_host_id r) = Inr (Some i)" "cl_classes st \<noteq> []"
    and st': "st' = st\<lparr>cl_classes := update_last (\<lambda>c. c\<lparr>cc_host := cc_host (last (cl_classes st)) @
        [\<lparr>collection = [], sh_host = Some i, timeticks = fst junk, mytime = snd junk\<rparr>]\<rparr>) (cl_classes st),
        host_index := int (length (cc_host (last (cl_classes st)))), last_host_id := cr_host_id r\<rparr>"
    by (auto simp: enter_host_def bind_result_eq_Inr Let_def split: option.splits if_splits)
  have "i < n"
    using assms(1) i(1) ht.invar_position [of "cl_hosts st" "cr_host_id r" i] get_host_lookup [of "cl_hosts st"]
    by (auto simp: loader_wf_def)
  then have "list_all (sql_host_wf seqs n) (cc_host (last (cl_classes st)) @
      [\<lparr>collection = [], sh_host = Some i, timeticks = fst junk, mytime = snd junk\<rparr>])"
    using assms(1) i(2) classes_wf_last by (auto simp: loader_wf_def sql_host_wf_def)
  with assms(1) i(2) st' show ?thesis by (auto simp: loader_wf_def intro!: classes_wf_update_last)
qed

lemma push_collection_wf:
  assumes "list_all (sql_host_wf seqs n) (cc_host cc)" "collection_wf seqs c" "j < length (cc_host cc)"
  shows "list_all (sql_host_wf seqs n) (cc_host (push_collection j c cc))"
  using assms by (auto simp: push_collection_def list_all_length nth_list_update sql_host_wf_def nth_append)

lemma add_collection_wf:
  assumes wf: "loader_wf seqs n st" and add: "add_collection seqs r st = Inr (Some st')"
  shows "loader_wf seqs n st'"
proof -
  from add obtain rrdfile premap m oids where
    strs: "cr_rrdfile r = Some rrdfile" "cr_premap r = Some premap" and m: "row_mapping seqs r = Inr (Some (m, oids))"
    and idx: "cl_classes st \<noteq> []" "0 \<le> host_index st" "host_index st < int (length (cc_host (last (cl_classes st))))"
    by (auto simp: add_collection_def bind_result_eq_Inr bind_opt_eq_Some get_string_def
        split: option.splits if_splits)
  have st': "cl_hosts st' = cl_hosts st \<or> (\<exists>i. cl_hosts st' = add_tables oids i (cl_hosts st))"
      "cl_classes st' = update_last (push_collection (nat (host_index st))
        \<lparr>premaping_oid_suffix = premap, post_mapping_oid_suffix = [], oid_mapping_sequence_db_id = m,
         rrd_filename = rrdfile\<rparr>) (cl_classes st)"
    using add strs m by (auto simp: add_collection_def Let_def split: option.splits if_splits)
  have "collection_wf seqs \<lparr>premaping_oid_suffix = premap, post_mapping_oid_suffix = [],
      oid_mapping_sequence_db_id = m, rrd_filename = rrdfile\<rparr>"
    using row_mapping_wf [OF m] by (simp add: collection_wf_def)
  then have "classes_wf seqs n (update_last (push_collection (nat (host_index st))
        \<lparr>premaping_oid_suffix = premap, post_mapping_oid_suffix = [], oid_mapping_sequence_db_id = m,
         rrd_filename = rrdfile\<rparr>) (cl_classes st))"
    using wf idx by (intro classes_wf_update_last push_collection_wf classes_wf_last) (auto simp: loader_wf_def)
  with wf st' host_table_ok_add_tables show ?thesis by (auto simp: loader_wf_def)
qed

lemma load_rows_wf:
  "loader_wf seqs n st \<Longrightarrow> load_rows junk seqs rs st = Inr (Some st') \<Longrightarrow> loader_wf seqs n st'"
proof (induction rs arbitrary: st)
  case (Cons r rs)
  then obtain st1 a b where "enter_class r st = Inr a" "enter_host junk r a = Inr (Some b)"
      "add_collection seqs r b = Inr (Some st1)" and rest: "load_rows junk seqs rs st1 = Inr (Some st')"
    by (auto simp: load_row_def bind_result_eq_Inr bind_opt_eq_Some)
  with Cons.prems(1) have "loader_wf seqs n st1"
    by (meson enter_class_wf enter_host_wf add_collection_wf)
  with rest show ?case using Cons.IH by blast
qed simp

lemma load_blocks_wf:
  assumes "load_blocks junk db seqs k st = Some r"
  shows "loader_wf seqs n st \<longrightarrow> (\<forall>st'. r = Inr (Some st') \<longrightarrow> loader_wf seqs n st')"
proof (rule load_blocks.raw_induct
    [where P = "\<lambda>junk db seqs k st r. loader_wf seqs n st \<longrightarrow> (\<forall>st'. r = Inr (Some st') \<longrightarrow> loader_wf seqs n st')",
      OF _ assms], intro impI allI)
  fix f :: "32 word \<times> 32 word \<Rightarrow> database \<Rightarrow> oid_mapping_sequence_db \<Rightarrow> nat \<Rightarrow> class_loader \<Rightarrow> class_loader option result option"
    and junk db seqs k st r st'
  assume IH: "\<And>junk db seqs k st r. f junk db seqs k st = Some r \<Longrightarrow>
      loader_wf seqs n st \<longrightarrow> (\<forall>st'. r = Inr (Some st') \<longrightarrow> loader_wf seqs n st')"
    and step: "(case load_collection_class_block junk db seqs row_limit k st of
        Inl e \<Rightarrow> Some (Inl e)
      | Inr None \<Rightarrow> Some (Inr None)
      | Inr (Some (affected_rows, st')) \<Rightarrow>
          if row_limit = affected_rows then f junk db seqs (k + affected_rows) st'
          else Some (Inr (Some st'))) = Some r"
    and wf: "loader_wf seqs n st" and r: "r = Inr (Some st')"
  from step r obtain m st1 where block: "load_collection_class_block junk db seqs row_limit k st = Inr (Some (m, st1))"
    and cont: "(if row_limit = m then f junk db seqs (k + m) st1 else Some (Inr (Some st1))) = Some r"
    by (auto split: sum.splits option.splits)
  from block wf have "loader_wf seqs n st1"
    by (auto simp: load_collection_class_block_def bind_opt_eq_Some split: option.splits intro: load_rows_wf)
  with cont r IH [of junk db seqs "k + m" st1 r] show "loader_wf seqs n st'" by (auto split: if_splits)
qed

text \<open>Loading the OIDs and the archives of the classes leaves their ids and hosts as they are.\<close>

abbreviation ids_and_hosts :: "sql_collection_class list \<Rightarrow> (32 word \<times> sql_host list) list" where
  "ids_and_hosts ccs \<equiv> map (\<lambda>cc. (cc_db_id cc, cc_host cc)) ccs"

lemma load_classes_oid_hosts:
  "load_classes_oid db ccs = Inr (Some ccs') \<Longrightarrow> ids_and_hosts ccs' = ids_and_hosts ccs"
  by (induction ccs arbitrary: ccs') (auto simp: bind_result_eq_Inr bind_opt_eq_Some split: option.splits)

lemma load_classes_rra_hosts:
  "load_classes_rra db ccs = Inr (Some ccs') \<Longrightarrow> ids_and_hosts ccs' = ids_and_hosts ccs"
  by (induction ccs arbitrary: ccs') (auto simp: bind_result_eq_Inr bind_opt_eq_Some split: option.splits)

lemma classes_wf_hosts: "ids_and_hosts ccs' = ids_and_hosts ccs \<Longrightarrow> classes_wf seqs n ccs' = classes_wf seqs n ccs"
proof -
  assume "ids_and_hosts ccs' = ids_and_hosts ccs"
  then have "map snd (ids_and_hosts ccs') = map snd (ids_and_hosts ccs)" by (rule arg_cong)
  then have "map cc_host ccs' = map cc_host ccs" by (simp add: comp_def)
  moreover have "classes_wf seqs n ccs = list_all (list_all (sql_host_wf seqs n)) (map cc_host ccs)" for ccs
    by (simp add: classes_wf_def list.pred_map comp_def)
  ultimately show ?thesis by simp
qed

lemma then_opt_eq_Some:
  "then_opt r f = Some (Inr (Some y)) \<longleftrightarrow> (\<exists>x. r = Some (Inr (Some x)) \<and> f x = Some (Inr (Some y)))"
  by (auto simp: then_opt_def split: option.splits sum.splits)

text \<open>The stages of a load that succeeds, from an empty configuration.\<close>

definition fresh_start :: "database \<Rightarrow> snapp_config \<Rightarrow> bool" where
  "fresh_start db c0 \<longleftrightarrow> host_table c0 = empty_host_table \<and> sequence_db c0 = empty_sequence_db \<and>
     (\<forall>rs. host_rows db = Some rs \<longrightarrow> length rs \<le> 2 ^ 32) \<and> (\<forall>rs. mapping_rows db = Some rs \<longrightarrow> length rs \<le> 2 ^ 32)"

lemma load_config_stages:
  assumes "load_config garbage junk doc db c0 = Some (Inr (Some c))" "fresh_start db c0"
  shows "\<exists>t q st. host_table_ok t \<and> sequence_db_ok q \<and>
    load_blocks junk db q 0 \<lparr>cl_classes = [], cl_hosts = t, last_db_id = - 1, last_host_id = - 1, host_index = - 1\<rparr> =
      Some (Inr (Some st)) \<and>
    host_table c = cl_hosts st \<and> sequence_db c = q \<and> ids_and_hosts (collection_class c) = ids_and_hosts (cl_classes st)"
proof -
  from assms(1) obtain x c1 c2 c3 c4 c5 where
    c1: "load_hosts garbage db (c0\<lparr>sc_xml := x\<rparr>) = Inr (Some c1)" and
    c2: "load_mapping_sequences db c1 = Inr (Some c2)" and
    c3: "load_collection_classes junk db c2 = Some (Inr (Some c3))" and
    c4: "load_colection_classes_oid db c3 = Inr (Some c4)" and
    c5: "load_colection_classes_rra db c4 = Inr (Some c5)" and
    c: "load_globals db c5 = Inr (Some c)"
    by (auto simp: load_config_def then_opt_eq_Some bind_result_eq_Inr split: sum.splits if_splits)
  from c1 obtain hrs t where hrs: "host_rows db = Some hrs" "load_host_rows garbage hrs empty_host_table = Inr t"
    "c1 = c0\<lparr>sc_xml := x, host_table := t\<rparr>"
    using assms(2) by (auto simp: fresh_start_def load_hosts_def bind_result_eq_Inr split: option.splits)
  with load_host_rows_inserts [of garbage hrs empty_host_table t] assms(2) have t: "host_table_ok t"
    using ht.insert_all_invar [of empty_host_table] by (auto simp: fresh_start_def insert_hosts_all)
  from c2 hrs obtain mrs q where mrs: "mapping_rows db = Some mrs" "load_mapping_rows db mrs empty_sequence_db = Inr q"
    "c2 = c1\<lparr>sequence_db := q\<rparr>"
    using assms(2) by (auto simp: fresh_start_def load_mapping_sequences_def bind_result_eq_Inr split: option.splits)
  with load_mapping_rows_inserts [of db mrs empty_sequence_db q] assms(2) have q: "sequence_db_ok q"
    by (auto simp: fresh_start_def intro: insert_sequences_ok)
  from c3 obtain st where st: "load_blocks junk db (sequence_db c2) 0
      \<lparr>cl_classes = [], cl_hosts = host_table c2, last_db_id = - 1, last_host_id = - 1, host_index = - 1\<rparr> = Some (Inr (Some st))"
    "c3 = c2\<lparr>collection_class := cl_classes st, host_table := cl_hosts st\<rparr>"
    by (auto simp: load_collection_classes_def bind_opt_eq_Some split: if_splits)
  from c4 obtain ccs4 where ccs4: "load_classes_oid db (collection_class c3) = Inr (Some ccs4)"
    "c4 = c3\<lparr>collection_class := ccs4\<rparr>"
    by (auto simp: load_colection_classes_oid_def bind_opt_eq_Some)
  from c5 obtain ccs5 where ccs5: "load_classes_rra db (collection_class c4) = Inr (Some ccs5)"
    "c5 = c4\<lparr>collection_class := ccs5\<rparr>"
    by (auto simp: load_colection_classes_rra_def bind_opt_eq_Some)
  from ccs4 ccs5 load_classes_oid_hosts [OF ccs4(1)] load_classes_rra_hosts [OF ccs5(1)]
  have "ids_and_hosts (collection_class c5) = ids_and_hosts (collection_class c3)" by simp
  moreover from c have "\<exists>dir. c = c5\<lparr>rrd_dir := dir\<rparr>"
    by (auto simp: load_globals_def bind_result_eq_Inr split: option.splits)
  ultimately have "host_table c = cl_hosts st" "sequence_db c = q"
    "ids_and_hosts (collection_class c) = ids_and_hosts (cl_classes st)"
    using st(2) ccs4(2) ccs5(2) mrs(3) by auto
  with t q st(1) mrs(3) hrs(3) show ?thesis by (intro exI [of _ t] exI [of _ q] exI [of _ st]) simp
qed

lemma load_config_wf:
  assumes "load_config garbage junk doc db c0 = Some (Inr (Some c))" "fresh_start db c0"
  shows "config_wf c"
proof -
  from load_config_stages [OF assms] obtain t q st where ok: "host_table_ok t" "sequence_db_ok q"
    and st: "load_blocks junk db q 0
        \<lparr>cl_classes = [], cl_hosts = t, last_db_id = - 1, last_host_id = - 1, host_index = - 1\<rparr> = Some (Inr (Some st))"
    and c: "host_table c = cl_hosts st" "sequence_db c = q" "ids_and_hosts (collection_class c) = ids_and_hosts (cl_classes st)"
    by blast
  from load_blocks_wf [OF st, of "length (host t)"] ok have "loader_wf q (length (host t)) st"
    by (simp add: loader_wf_def classes_wf_def)
  with ok c classes_wf_hosts [OF c(3)] show ?thesis by (simp add: config_wf_def loader_wf_def)
qed

text \<open>
  C8. A loaded configuration is well formed, whatever rows the database holds: the indexes of hosts
  and of mapping sequences agree with their vectors, every host entry of a class points to an
  existing host, and every mapping a collection names is one of the loaded sequences.
\<close>

theorem loaded_config_wf:
  assumes "load_config garbage junk doc db c0 = Some (Inr (Some c))"
    and "host_table c0 = empty_host_table" "sequence_db c0 = empty_sequence_db"
    and "\<And>rs. host_rows db = Some rs \<Longrightarrow> length rs \<le> 2 ^ 32"
    and "\<And>rs. mapping_rows db = Some rs \<Longrightarrow> length rs \<le> 2 ^ 32"
  shows "config_wf c"
  using load_config_wf [OF assms(1)] assms(2-) by (simp add: fresh_start_def)

section \<open>Mapping\<close>

lemma map_sequence_db_id: "db_id (snd (map_sequence ois v hi)) = db_id hi"
  by (induction ois v hi rule: map_sequence.induct)
    (auto simp: Let_def touch_table_def split: option.split)

lemma map_collection_total:
  assumes "collection_wf seqs c"
  shows "\<exists>c' hi'. map_collection seqs c hi = Inr (c', hi') \<and> db_id hi' = db_id hi"
  using assms map_sequence_db_id [of _ "premaping_oid_suffix c" hi]
  by (auto simp: map_collection_def collection_wf_def case_prod_beta)

lemma map_collections_total:
  "list_all (collection_wf seqs) cs \<Longrightarrow> \<exists>cs' hi'. map_collections seqs cs hi = Inr (cs', hi') \<and> db_id hi' = db_id hi"
proof (induction cs arbitrary: hi)
  case (Cons c cs)
  then obtain c' hi1 where "map_collection seqs c hi = Inr (c', hi1)" "db_id hi1 = db_id hi"
    using map_collection_total [of seqs c hi] by auto
  with Cons.IH [of hi1] Cons.prems show ?case by fastforce
qed simp

lemma map_sql_host_total:
  assumes "sql_host_wf seqs (length hosts) h"
  shows "\<exists>h' hosts'. map_sql_host seqs h hosts = Inr (h', hosts') \<and> map db_id hosts' = map db_id hosts"
proof -
  from assms obtain i where i: "i < length hosts" "sh_host h = Some i"
    and wf: "list_all (collection_wf seqs) (collection h)" by (auto simp: sql_host_wf_def)
  from map_collections_total [OF wf, of "hosts ! i"] obtain cs hi where
    "map_collections seqs (collection h) (hosts ! i) = Inr (cs, hi)" "db_id hi = db_id (hosts ! i)" by blast
  with i show ?thesis
    by (simp add: map_sql_host_def vector_at_def map_update) (metis list_update_id length_map nth_map)
qed

lemma map_sql_hosts_total:
  "list_all (sql_host_wf seqs (length hosts)) hs \<Longrightarrow>
   \<exists>hs' hosts'. map_sql_hosts seqs hs hosts = Inr (hs', hosts') \<and> map db_id hosts' = map db_id hosts"
proof (induction hs arbitrary: hosts)
  case (Cons h hs)
  then obtain h' hosts1 where a: "map_sql_host seqs h hosts = Inr (h', hosts1)" "map db_id hosts1 = map db_id hosts"
    using map_sql_host_total [of seqs hosts h] by auto
  then have "length hosts1 = length hosts" by (metis length_map)
  with a Cons.IH [of hosts1] Cons.prems show ?case by fastforce
qed simp

lemma map_classes_total:
  "classes_wf seqs (length hosts) ccs \<Longrightarrow>
   \<exists>ccs' hosts'. map_classes seqs ccs hosts = Inr (ccs', hosts') \<and> map db_id hosts' = map db_id hosts"
proof (induction ccs arbitrary: hosts)
  case (Cons cc ccs)
  then obtain hs' hosts1 where a: "map_sql_hosts seqs (cc_host cc) hosts = Inr (hs', hosts1)" "map db_id hosts1 = map db_id hosts"
    using map_sql_hosts_total [of seqs hosts "cc_host cc"] by (auto simp: classes_wf_def)
  then have "length hosts1 = length hosts" by (metis length_map)
  with a Cons.IH [of hosts1] Cons.prems show ?case by (fastforce simp: classes_wf_def)
qed simp

lemma host_table_ok_db_ids:
  assumes "host_table_ok t" "map db_id hosts = map db_id (host t)"
  shows "host_table_ok (t\<lparr>host := hosts\<rparr>)"
proof -
  from assms(2) have "length hosts = length (host t)" by (metis length_map)
  moreover from assms(2) this have "i < length hosts \<Longrightarrow> db_id (hosts ! i) = db_id (host t ! i)" for i
    by (metis nth_map)
  ultimately show ?thesis using assms(1) by (auto simp: host_table_ok_def)
qed

lemma host_mapped_wf: "sql_host_wf seqs n h \<Longrightarrow> sql_host_wf seqs n (host_mapped seqs hosts h)"
  by (auto simp: sql_host_wf_def host_mapped_def list_all_iff collection_wf_def resolved_def split: option.splits)

lemma config_wf_maps:
  assumes "config_wf c"
  shows "\<exists>c'. map_collection_suffixes c = Inr c' \<and> config_wf c'"
proof -
  let ?hosts = "host (host_table c)"
  from assms map_classes_total [of "sequence_db c" ?hosts "collection_class c"] obtain ccs hosts where
    m: "map_classes (sequence_db c) (collection_class c) ?hosts = Inr (ccs, hosts)" "map db_id hosts = map db_id ?hosts"
    by (auto simp: config_wf_def)
  from m(2) have len: "length hosts = length ?hosts" by (metis length_map)
  have "ccs = map (\<lambda>cc. cc\<lparr>cc_host := map (host_mapped (sequence_db c) ?hosts) (cc_host cc)\<rparr>) (collection_class c)"
    using map_classes_mapped [OF m(1), of ?hosts] by (simp add: list_all2_refl)
  with assms have "classes_wf (sequence_db c) (length hosts) ccs"
    by (auto simp: config_wf_def classes_wf_def list_all_iff len intro: host_mapped_wf)
  with m assms host_table_ok_db_ids [OF _ m(2)] show ?thesis
    by (auto simp: map_collection_suffixes_def config_wf_def)
qed


section \<open>Witnesses\<close>

definition demo_start :: snapp_config where
  "demo_start = \<lparr>host_table = empty_host_table, sequence_db = empty_sequence_db, collection_class = [], rrd_dir = [],
     sc_xml = \<lparr>collector_name = [], control = \<lparr>control_port = 0, enable_password = []\<rparr>,
       xc_db = \<lparr>username = [], password = [], dbname = [], sqlite3_dbdir = [], db_host = [], db_port = [], driver = []\<rparr>\<rparr>\<rparr>"

definition demo_hosts :: host_info_table where
  "demo_hosts = fst (insert_new_host empty_host_table
     ((new_host_info 0)\<lparr>db_id := 7, ip_address := ''10.0.0.1'', community := ''public'', oid_table := []\<rparr>))"

lemma demo_load_hosts: "load_hosts 0 demo_db c = Inr (Some (c\<lparr>host_table := demo_hosts\<rparr>))" if "host_table c = empty_host_table"
  using that by (simp add: load_hosts_def demo_db_def host_of_row_def demo_hosts_def)

lemma demo_block:
  "\<exists>st. load_collection_class_block (0, 0) demo_db empty_sequence_db row_limit 0
     \<lparr>cl_classes = [], cl_hosts = demo_hosts, last_db_id = - 1, last_host_id = - 1, host_index = - 1\<rparr> =
       Inr (Some (2, st)) \<and> map cc_db_id (cl_classes st) = [1]"
  by (simp add: load_collection_class_block_def demo_db_def row_limit_def demo_hosts_def load_row_def enter_class_def
      enter_host_def add_collection_def get_host_for_db_id_def insert_new_host_def row_mapping_def class_of_row_def
      Let_def update_last_def push_collection_def add_tables_def)

lemma demo_blocks:
  "\<exists>st. load_blocks (0, 0) demo_db empty_sequence_db 0
     \<lparr>cl_classes = [], cl_hosts = demo_hosts, last_db_id = - 1, last_host_id = - 1, host_index = - 1\<rparr> =
       Some (Inr (Some st)) \<and> map cc_db_id (cl_classes st) = [1]"
  using demo_block by (subst load_blocks.simps) (auto simp: row_limit_def)

lemma demo_classes:
  assumes "map cc_db_id ccs = [1]"
  shows "\<exists>ccs'. load_classes_oid demo_db ccs = Inr (Some ccs') \<and> map cc_db_id ccs' = [1]"
    and "\<exists>ccs'. load_classes_rra demo_db ccs = Inr (Some ccs') \<and> map cc_db_id ccs' = [1]"
  using assms by (cases ccs; simp add: demo_db_def)+

lemma demo_start_loads:
  "\<exists>c. load_config 0 (0, 0) (Root_children []) demo_db demo_start = Some (Inr (Some c)) \<and>
     map cc_db_id (collection_class c) = [1]"
proof -
  from demo_blocks obtain st where st: "load_blocks (0, 0) demo_db empty_sequence_db 0
     \<lparr>cl_classes = [], cl_hosts = demo_hosts, last_db_id = - 1, last_host_id = - 1, host_index = - 1\<rparr> =
       Some (Inr (Some st))" "map cc_db_id (cl_classes st) = [1]" by (elim exE conjE)
  from demo_classes(1) [OF st(2)] obtain ccs1 where ccs1: "load_classes_oid demo_db (cl_classes st) = Inr (Some ccs1)"
    "map cc_db_id ccs1 = [1]" by (elim exE conjE)
  from demo_classes(2) [OF this(2)] obtain ccs2 where ccs2: "load_classes_rra demo_db ccs1 = Inr (Some ccs2)"
    "map cc_db_id ccs2 = [1]" by (elim exE conjE)
  have db: "connect_to_db demo_db d = Inr (Some ())" "start_transaction demo_db" "commit_transaction demo_db"
    "load_mapping_sequences demo_db c = Inr (Some c)" "load_globals demo_db c = Inr (Some c)" for d c
    by (simp_all add: demo_db_def connect_to_db_def load_mapping_sequences_def load_globals_def)
  show ?thesis
    using st ccs1 ccs2
    by (simp add: load_config_def demo_start_def load_xml_config_def then_opt_def demo_load_hosts db
        load_collection_classes_def load_colection_classes_oid_def load_colection_classes_rra_def)
qed

theorem loaded_config_wf_witness:
  "\<exists>c. load_config 0 (0, 0) (Root_children []) demo_db demo_start = Some (Inr (Some c)) \<and>
     map cc_db_id (collection_class c) = [1] \<and> config_wf c"
proof -
  from demo_start_loads obtain c where c: "load_config 0 (0, 0) (Root_children []) demo_db demo_start = Some (Inr (Some c))"
    "map cc_db_id (collection_class c) = [1]" by (elim exE conjE)
  have "config_wf c"
    by (rule loaded_config_wf [OF c(1)]) (auto simp: demo_start_def demo_db_def)
  with c show ?thesis by (intro exI [of _ c] conjI)
qed


end
