(* ===== verification/Config_Rows.thy ===== *)
theory Config_Rows
  imports Config_Wf
begin

text \<open>
  From the database to the requests: an abstract reading of the collection rows (which file, which
  suffix) given the hosts' value tables, and that loading, walking and mapping a configuration
  refines it. With it a full round of a started configuration is known from the rows alone.
\<close>

section \<open>What the rows ask for\<close>

definition host_with_id :: "host_info list \<Rightarrow> 32 word \<Rightarrow> host_info option" where
  "host_with_id hosts d = List.find (\<lambda>h. db_id h = d) hosts"

definition row_mapped :: "collection_row \<Rightarrow> bool" where
  "row_mapped r \<longleftrightarrow> cr_mapping_id r \<noteq> None \<and> cr_mapping_id r \<noteq> Some (- 1)"

text \<open>The value tables of a sequence, one after the other; empty when one lacks the value.\<close>

definition composed_suffix :: "oid_mapping_sequence list \<Rightarrow> host_info \<Rightarrow> 32 word \<Rightarrow> string \<Rightarrow> string" where
  "composed_suffix seqs hi m premap =
     (case List.find (\<lambda>s. ms_db_id s = m) seqs of
        None \<Rightarrow> []
      | Some s \<Rightarrow>
          (case foldl (\<lambda>v oi. Option.bind v (suffix_lookup hi oi)) (Some premap) (ms_oid s) of
             None \<Rightarrow> [] | Some v \<Rightarrow> v))"

definition row_suffix :: "oid_mapping_sequence list \<Rightarrow> host_info list \<Rightarrow> collection_row \<Rightarrow> string" where
  "row_suffix seqs hosts r =
     (case host_with_id hosts (cr_host_id r) of
        None \<Rightarrow> []
      | Some hi \<Rightarrow>
          if mapping_done hi \<noteq> 1 then []
          else if row_mapped r then composed_suffix seqs hi (the (cr_mapping_id r)) (the (cr_premap r))
          else the (cr_premap r))"

type_synonym target = "32 word \<times> 32 word \<times> string option \<times> string"

text \<open>Class, host, file and suffix of a row; and of every collection of a configuration.\<close>

definition row_target :: "oid_mapping_sequence list \<Rightarrow> host_info list \<Rightarrow> collection_row \<Rightarrow> target" where
  "row_target seqs hosts r = (cr_class_id r, cr_host_id r, cr_rrdfile r, row_suffix seqs hosts r)"

definition targets :: "snapp_config \<Rightarrow> target list" where
  "targets c = map (\<lambda>(cid, sh, file, premap, m, suff). (cid, db_id (host (host_table c) ! the sh), file, suff))
     (flatten (collection_class c))"

section \<open>Loading\<close>

lemma flatten_ids_and_hosts:
  assumes "ids_and_hosts ccs' = ids_and_hosts ccs"
  shows "flatten ccs' = flatten ccs"
proof -
  have "flatten ccs = concat (map (\<lambda>(cid, hs). concat (map (\<lambda>h. map (\<lambda>c. (cid, sh_host h, Some (rrd_filename c),
      Some (premaping_oid_suffix c), oid_mapping_sequence_db_id c, post_mapping_oid_suffix c)) (collection h)) hs))
      (ids_and_hosts ccs))" for ccs
    by (simp add: flatten_def comp_def)
  then show ?thesis by (simp only: assms)
qed

text \<open>Every row that was loaded has its file and its premap suffix, and a host.\<close>

lemma load_rows_strings:
  "load_rows junk seqs rows st = Inr (Some st') \<Longrightarrow>
   \<forall>r \<in> set rows. cr_rrdfile r \<noteq> None \<and> cr_premap r \<noteq> None"
proof (induction rows arbitrary: st)
  case (Cons r rows)
  then show ?case
    by (fastforce simp: load_row_def bind_opt_eq_Some bind_result_eq_Inr add_collection_def get_string_def
        split: option.splits)
qed simp

lemma load_config_rows:
  assumes "load_config garbage junk doc db c0 = Some (Inr (Some c))" "fresh_start db c0"
    and "\<forall>limit offset. collection_rows db limit offset = Some (take limit (drop offset rows))"
  shows "flatten (collection_class c) = map (flat_row (host_table c)) rows \<and>
    (\<forall>r \<in> set rows. cr_rrdfile r \<noteq> None \<and> cr_premap r \<noteq> None)"
proof -
  from load_config_stages [OF assms(1,2)] obtain t q st where
    blocks: "load_blocks junk db q 0
        \<lparr>cl_classes = [], cl_hosts = t, last_db_id = - 1, last_host_id = - 1, host_index = - 1\<rparr> = Some (Inr (Some st))"
    and c: "host_table c = cl_hosts st" "ids_and_hosts (collection_class c) = ids_and_hosts (cl_classes st)"
    by blast
  from blocks load_blocks_pages [OF assms(3), of junk q 0] have
    rows: "load_rows junk q rows \<lparr>cl_classes = [], cl_hosts = t, last_db_id = - 1, last_host_id = - 1, host_index = - 1\<rparr> =
      Inr (Some st)" by simp
  from load_rows_ok [OF _ _ rows] have "flatten (cl_classes st) = map (flat_row t) rows"
    "db_id_to_index (cl_hosts st) = db_id_to_index t"
    by (simp_all add: loader_ok_def)
  then have "flatten (collection_class c) = map (flat_row (host_table c)) rows"
    using flatten_ids_and_hosts [OF c(2)] c(1) by (simp add: flat_row_def)
  with load_rows_strings [OF rows] show ?thesis by blast
qed

section \<open>Walking and mapping\<close>

text \<open>The walks and the mapping leave the ids of the hosts alone.\<close>

lemma run_host_thread_db_id:
  "run_host_thread snmp pcre h = Some (Inr (h', posts)) \<Longrightarrow> db_id h' = db_id h"
  by (auto simp: run_host_thread_def host_thread_start_def load_oid_table_def bind_result_eq_Inr split: if_splits)

lemma load_host_tables_db_ids:
  "load_host_tables snmp pcre hs = Some (Inr hs') \<Longrightarrow> map db_id hs' = map db_id hs"
proof (induction hs arbitrary: hs')
  case (Cons h hs)
  then obtain h1 posts hs1 where "run_host_thread snmp pcre (h\<lparr>has_semaphore := True\<rparr>) = Some (Inr (h1, posts))"
    "load_host_tables snmp pcre hs = Some (Inr hs1)" "hs' = h1 # hs1"
    by (auto simp: bind_result_eq_Inr split: option.splits sum.splits prod.splits)
  with Cons.IH run_host_thread_db_id show ?case by fastforce
qed simp

text \<open>The suffix a loaded collection has after the mapping.\<close>

definition mapped_flat :: "oid_mapping_sequence_db \<Rightarrow> host_info list \<Rightarrow> flat_collection \<Rightarrow> flat_collection" where
  "mapped_flat seqs hosts x =
     (case x of (cid, sh, file, premap, m, suff) \<Rightarrow>
        (cid, sh, file, premap, m,
         (case sh of
            Some i \<Rightarrow> if mapping_done (hosts ! i) = 1
              then post_mapping_oid_suffix (resolved seqs (hosts ! i)
                \<lparr>premaping_oid_suffix = the premap, post_mapping_oid_suffix = suff,
                 oid_mapping_sequence_db_id = m, rrd_filename = the file\<rparr>) else suff
          | None \<Rightarrow> suff)))"

lemma resolved_fields [simp]:
  "rrd_filename (resolved seqs hi c) = rrd_filename c"
  "premaping_oid_suffix (resolved seqs hi c) = premaping_oid_suffix c"
  "oid_mapping_sequence_db_id (resolved seqs hi c) = oid_mapping_sequence_db_id c"
  by (simp_all add: resolved_def)

lemma collection_eta [simp]:
  "\<lparr>premaping_oid_suffix = premaping_oid_suffix c, post_mapping_oid_suffix = post_mapping_oid_suffix c,
    oid_mapping_sequence_db_id = oid_mapping_sequence_db_id c, rrd_filename = rrd_filename c\<rparr> = c"
  by (cases c) simp

lemma flatten_mapped:
  "flatten (map (\<lambda>cc. cc\<lparr>cc_host := map (host_mapped seqs hosts) (cc_host cc)\<rparr>) ccs) =
   map (mapped_flat seqs hosts) (flatten ccs)"
proof -
  have "map (\<lambda>c. (cid, sh_host (host_mapped seqs hosts h), Some (rrd_filename c), Some (premaping_oid_suffix c),
        oid_mapping_sequence_db_id c, post_mapping_oid_suffix c)) (collection (host_mapped seqs hosts h)) =
      map (mapped_flat seqs hosts) (map (\<lambda>c. (cid, sh_host h, Some (rrd_filename c), Some (premaping_oid_suffix c),
        oid_mapping_sequence_db_id c, post_mapping_oid_suffix c)) (collection h))" for cid h
    by (cases "sh_host h") (auto simp: host_mapped_def mapped_flat_def)
  then show ?thesis by (simp add: flatten_def map_concat comp_def)
qed

text \<open>What it is for a row, when the indexes agree with the vectors.\<close>

lemma find_distinct:
  "distinct (map f xs) \<Longrightarrow> i < length xs \<Longrightarrow> List.find (\<lambda>x. f x = f (xs ! i)) xs = Some (xs ! i)"
proof -
  assume d: "distinct (map f xs)" and i: "i < length xs"
  have "(f (xs ! j) = f (xs ! i)) = (j = i)" if "j < length xs" for j
    using d i that by (auto simp: distinct_conv_nth)
  then show ?thesis using i by (auto simp: find_Some_iff)
qed

lemma sequence_find:
  assumes "sequence_db_ok seqs"
  shows "get_sequence_by_db_id seqs m = Inr (List.find (\<lambda>s. ms_db_id s = m) (mapping seqs))"
proof (cases "map_option unat (ms_db_id_to_index seqs m)")
  case None
  then have "List.find (\<lambda>s. ms_db_id s = m) (mapping seqs) = None"
    using ms.position_None [OF assms, of m] by (auto simp: find_None_iff)
  with None show ?thesis by (auto simp: get_sequence_lookup [OF assms] ms.lookup_def)
next
  case (Some i)
  then have "i < length (mapping seqs)" "ms_db_id (mapping seqs ! i) = m"
    using ms.invar_position [OF assms, of m i] by auto
  then have "List.find (\<lambda>s. ms_db_id s = m) (mapping seqs) = Some (mapping seqs ! i)"
    using find_distinct [OF ms.distinct_keys [OF assms], of i] by simp
  with Some show ?thesis by (auto simp: get_sequence_lookup [OF assms] ms.lookup_def)
qed

lemma host_find:
  assumes "host_table_ok t" "map db_id hosts = map db_id (host t)" "map_option unat (db_id_to_index t d) = Some i"
  shows "i < length hosts \<and> db_id (hosts ! i) = d \<and> host_with_id hosts d = Some (hosts ! i)"
proof -
  from assms(1,3) have i: "i < length (host t)" "db_id (host t ! i) = d" using ht.invar_position [of t d i] by auto
  from assms(2) have "length hosts = length (host t)" by (metis length_map)
  with i assms(2) have "i < length hosts" "db_id (hosts ! i) = d" by (simp, metis nth_map)
  moreover have "distinct (map db_id hosts)" using ht.distinct_keys [OF assms(1)] assms(2) by simp
  ultimately show ?thesis using find_distinct [of db_id hosts i] by (simp add: host_with_id_def)
qed

lemma scast_minus_one: "(scast (m :: 32 word) :: 64 word) = - 1 \<longleftrightarrow> m = - 1"
proof
  assume "(scast m :: 64 word) = - 1"
  then have "(scast (scast m :: 64 word) :: 32 word) = scast (- 1 :: 64 word)" by (rule arg_cong)
  then show "m = - 1" by (simp only: mapping_id_roundtrip) simp
qed simp

lemma mapped_row:
  assumes "host_table_ok t" "map db_id hosts = map db_id (host t)" "sequence_db_ok seqs"
    and "db_id_to_index t (cr_host_id r) = Some i" "cr_rrdfile r \<noteq> None" "cr_premap r \<noteq> None"
  shows "(case mapped_flat seqs hosts (flat_row t r) of (cid, sh, file, premap, m, suff) \<Rightarrow>
      (cid, db_id (hosts ! the sh), file, suff)) = row_target (mapping seqs) hosts r"
proof -
  from assms(4) have "map_option unat (db_id_to_index t (cr_host_id r)) = Some (unat i)" by simp
  from host_find [OF assms(1,2) this] have h: "db_id (hosts ! unat i) = cr_host_id r"
    "host_with_id hosts (cr_host_id r) = Some (hosts ! unat i)" by auto
  show ?thesis
  proof (cases "cr_mapping_id r")
    case None
    with h assms(4) show ?thesis
      by (simp add: row_target_def row_suffix_def row_mapped_def flat_row_def mapped_flat_def resolved_def)
  next
    case (Some m)
    with h assms(4) sequence_find [OF assms(3), of m] show ?thesis
      by (simp add: row_target_def row_suffix_def row_mapped_def flat_row_def mapped_flat_def resolved_def
          composed_suffix_def mapping_id_roundtrip scast_minus_one split: option.split)
  qed
qed

lemma flatten_hosts_wf:
  assumes "classes_wf seqs n ccs" "(cid, sh, rest) \<in> set (flatten ccs)"
  shows "\<exists>i < n. sh = Some i"
  using assms by (auto simp: flatten_def classes_wf_def sql_host_wf_def list_all_iff)

lemma map_suffixes_shape:
  assumes "config_wf c" "map_collection_suffixes c = Inr c'"
  shows "\<exists>hosts'. map db_id hosts' = map db_id (host (host_table c)) \<and>
    c' = c\<lparr>collection_class := map (\<lambda>cc. cc\<lparr>cc_host := map (host_mapped (sequence_db c) (host (host_table c))) (cc_host cc)\<rparr>)
        (collection_class c), host_table := (host_table c)\<lparr>host := hosts'\<rparr>\<rparr>"
proof -
  let ?hosts = "host (host_table c)"
  from assms(1) map_classes_total [of "sequence_db c" ?hosts "collection_class c"] obtain ccs hosts' where
    m: "map_classes (sequence_db c) (collection_class c) ?hosts = Inr (ccs, hosts')" "map db_id hosts' = map db_id ?hosts"
    by (auto simp: config_wf_def)
  with assms(2) map_classes_mapped [OF m(1), of ?hosts] show ?thesis
    by (intro exI [of _ hosts']) (auto simp: map_collection_suffixes_def list_all2_refl)
qed

text \<open>A started configuration: the walks' hosts in its table, its suffixes mapped, a pool per class.\<close>

lemma init_config_stages:
  assumes "init_config ops snmp pcre sessions c fs = Some (Inr (Some (c', pools, fs')))"
  shows "\<exists>hosts. load_host_tables snmp pcre (host (host_table c)) = Some (Inr hosts) \<and>
    map_collection_suffixes (c\<lparr>host_table := (host_table c)\<lparr>host := hosts\<rparr>\<rparr>) = Inr c'"
  using assms by (auto simp: init_config_def then_opt_eq_Some bind_result_eq_Inr split: option.splits sum.splits)

lemma config_wf_hosts:
  assumes "config_wf c" "map db_id hosts = map db_id (host (host_table c))"
  shows "config_wf (c\<lparr>host_table := (host_table c)\<lparr>host := hosts\<rparr>\<rparr>)"
proof -
  from assms(2) have "length hosts = length (host (host_table c))" by (metis length_map)
  with assms host_table_ok_db_ids [of "host_table c" hosts] show ?thesis by (simp add: config_wf_def)
qed

lemma started_targets:
  assumes load: "load_config garbage junk doc db c0 = Some (Inr (Some c))" "fresh_start db c0"
    and pages: "\<forall>limit offset. collection_rows db limit offset = Some (take limit (drop offset rows))"
    and walk: "load_host_tables snmp pcre (host (host_table c)) = Some (Inr hosts)"
    and map: "map_collection_suffixes (c\<lparr>host_table := (host_table c)\<lparr>host := hosts\<rparr>\<rparr>) = Inr c'"
  shows "targets c' = map (row_target (mapping (sequence_db c)) hosts) rows \<and> config_wf c' \<and> rrd_dir c' = rrd_dir c \<and>
    flatten (collection_class c') = map (mapped_flat (sequence_db c) hosts \<circ> flat_row (host_table c)) rows"
proof -
  let ?c = "c\<lparr>host_table := (host_table c)\<lparr>host := hosts\<rparr>\<rparr>"
  have wf: "config_wf c" by (rule load_config_wf [OF load])
  note ids = load_host_tables_db_ids [OF walk]
  note wf1 = config_wf_hosts [OF wf ids]
  from load_config_rows [OF load pages] have rows: "flatten (collection_class c) = map (flat_row (host_table c)) rows"
    "\<forall>r \<in> set rows. cr_rrdfile r \<noteq> None \<and> cr_premap r \<noteq> None" by blast+
  from map_suffixes_shape [OF wf1 map] obtain hosts' where ids': "map db_id hosts' = map db_id hosts"
    and c': "c' = ?c\<lparr>collection_class := map (\<lambda>cc. cc\<lparr>cc_host := map (host_mapped (sequence_db c) hosts) (cc_host cc)\<rparr>)
        (collection_class c), host_table := (host_table c)\<lparr>host := hosts'\<rparr>\<rparr>"
    by auto
  have flat: "flatten (collection_class c') = map (mapped_flat (sequence_db c) hosts \<circ> flat_row (host_table c)) rows"
    using rows(1) by (simp add: c' flatten_mapped)
  have host: "\<exists>i. db_id_to_index (host_table c) (cr_host_id r) = Some i \<and> unat i < length hosts" if "r \<in> set rows" for r
  proof -
    from that have "flat_row (host_table c) r \<in> set (flatten (collection_class c))" by (simp add: rows(1))
    with flatten_hosts_wf wf have "\<exists>i < length (host (host_table c)).
        map_option unat (db_id_to_index (host_table c) (cr_host_id r)) = Some i"
      by (fastforce simp: flat_row_def config_wf_def)
    moreover have "length hosts = length (host (host_table c))" using ids by (metis length_map)
    ultimately show ?thesis by auto
  qed
  have db: "db_id (hosts' ! j) = db_id (hosts ! j)" if "j < length hosts" for j
    using ids' that by (metis length_map nth_map)
  have "(case mapped_flat (sequence_db c) hosts (flat_row (host_table c) r) of (cid, sh, file, premap, m, suff) \<Rightarrow>
      (cid, db_id (hosts' ! the sh), file, suff)) = row_target (mapping (sequence_db c)) hosts r" if r: "r \<in> set rows" for r
  proof -
    from host [OF r] obtain i where i: "db_id_to_index (host_table c) (cr_host_id r) = Some i" "unat i < length hosts" by blast
    from wf mapped_row [OF _ ids _ i(1)] rows(2) r have "(case mapped_flat (sequence_db c) hosts (flat_row (host_table c) r) of
        (cid, sh, file, premap, m, suff) \<Rightarrow> (cid, db_id (hosts ! the sh), file, suff)) =
        row_target (mapping (sequence_db c)) hosts r"
      by (simp add: config_wf_def)
    with i db show ?thesis by (simp add: mapped_flat_def flat_row_def)
  qed
  then have "targets c' = map (row_target (mapping (sequence_db c)) hosts) rows"
    by (simp add: targets_def flat) (simp add: c')
  moreover have "config_wf c'" using config_wf_maps [OF wf1] map by auto
  ultimately show ?thesis using flat by (simp add: c')
qed


section \<open>A full round\<close>

definition class_hosts :: "snapp_config \<Rightarrow> (sql_collection_class \<times> sql_host) list" where
  "class_hosts c = concat (map (\<lambda>cc. map (Pair cc) (cc_host cc)) (collection_class c))"

text \<open>One round of every host of every class: what each pushes, when none fails.\<close>

definition round_pushes :: "snmp_of \<Rightarrow> (nat \<Rightarrow> 32 word) \<Rightarrow> snapp_config \<Rightarrow> push list list \<Rightarrow> bool" where
  "round_pushes snmp now c pss \<longleftrightarrow> list_all2 (\<lambda>(cc, h) ps.
     \<exists>h'. get_collect snmp (host (host_table c)) now (cc_oid cc) (rrd_dir c) h = Inr (0, h', ps)) (class_hosts c) pss"

definition agents_answer ::
  "snmp_of \<Rightarrow> snapp_config \<Rightarrow> (sql_collection \<Rightarrow> string list) \<Rightarrow> (sql_collection \<Rightarrow> string) \<Rightarrow> bool" where
  "agents_answer snmp c vals ticks \<longleftrightarrow>
     (\<forall>(cc, h) \<in> set (class_hosts c). cc_oid cc \<noteq> [] \<and>
        (\<forall>i. sh_host h = Some i \<longrightarrow>
           (let lib = snmp (ip_address (host (host_table c) ! i)) (community (host (host_table c) ! i))
            in sess_open_ok lib 0 \<and> answers_all lib (cc_oid cc) vals ticks (collection h))))"

definition row_requested :: "oid_mapping_sequence list \<Rightarrow> host_info list \<Rightarrow> collection_row \<Rightarrow> bool" where
  "row_requested seqs hosts r \<longleftrightarrow> row_mapped r \<longrightarrow> row_suffix seqs hosts r \<noteq> []"

lemma list_all2_choice: "\<forall>x \<in> set xs. \<exists>y. P x y \<Longrightarrow> \<exists>ys. list_all2 P xs ys"
  by (induction xs) (auto intro: list_all2_Cons [THEN iffD2])

definition flat_failed :: "flat_collection \<Rightarrow> bool" where
  "flat_failed x = (case x of (cid, sh, file, premap, m, suff) \<Rightarrow> suff = [] \<and> m \<noteq> - 1)"

definition flat_file :: "flat_collection \<Rightarrow> string" where
  "flat_file x = (case x of (cid, sh, file, premap, m, suff) \<Rightarrow> the file)"

lemma flatten_requested:
  "map flat_file (filter (\<lambda>x. \<not> flat_failed x) (flatten (collection_class c))) =
   concat (map (\<lambda>(cc, h). map rrd_filename (filter (\<lambda>x. \<not> mapping_failed x) (collection h))) (class_hosts c))"
proof -
  have concat: "concat (map concat xsss) = concat (concat xsss)" for xsss :: "string list list list"
    by (induction xsss) simp_all
  show ?thesis
    by (simp add: flatten_def class_hosts_def filter_concat map_concat comp_def filter_map flat_failed_def flat_file_def
        mapping_failed_def flip: concat)
qed

lemma round_of_answers:
  assumes wf: "config_wf c" and ans: "agents_answer snmp c vals ticks"
  shows "\<exists>pss. round_pushes snmp now c pss \<and> map p_filename (concat pss) =
    map (\<lambda>x. rrd_dir c @ flat_file x) (filter (\<lambda>x. \<not> flat_failed x) (flatten (collection_class c)))"
proof -
  define P where "P = (\<lambda>(cc :: sql_collection_class, h) ps.
      (\<exists>h'. get_collect snmp (host (host_table c)) now (cc_oid cc) (rrd_dir c) h = Inr (0, h', ps)) \<and>
      map p_filename ps = map (\<lambda>x. rrd_dir c @ rrd_filename x) (filter (\<lambda>x. \<not> mapping_failed x) (collection h)))"
  have "\<exists>ps. P (cc, h) ps" if "(cc, h) \<in> set (class_hosts c)" for cc h
  proof -
    from that wf have "sql_host_wf (sequence_db c) (length (host (host_table c))) h"
      by (auto simp: class_hosts_def config_wf_def classes_wf_def list_all_iff)
    then obtain i where i: "sh_host h = Some i" "i < length (host (host_table c))" by (auto simp: sql_host_wf_def)
    from that ans i(1) have a: "cc_oid cc \<noteq> []"
      "sess_open_ok (snmp (ip_address (host (host_table c) ! i)) (community (host (host_table c) ! i))) 0"
      "answers_all (snmp (ip_address (host (host_table c) ! i)) (community (host (host_table c) ! i)))
        (cc_oid cc) vals ticks (collection h)"
      by (fastforce simp: agents_answer_def Let_def)+
    from get_collect_answered [where snmp = snmp and now = now and rrd_dir = "rrd_dir c", OF i a(1) refl a(2) a(3)] obtain h' ps where
      ps: "get_collect snmp (host (host_table c)) now (cc_oid cc) (rrd_dir c) h = Inr (0, h', ps)"
      "map p_update ps = map (\<lambda>x. update_of (cc_oid cc) (rrd_dir c) x (vals x)) (filter (\<lambda>x. \<not> mapping_failed x) (collection h))"
      by blast
    from ps(2) have "map fst (map p_update ps) = map fst (map (\<lambda>x. update_of (cc_oid cc) (rrd_dir c) x (vals x))
        (filter (\<lambda>x. \<not> mapping_failed x) (collection h)))" by (rule arg_cong)
    with ps(1) show ?thesis by (auto simp: P_def update_of_def comp_def)
  qed
  then have "\<forall>x \<in> set (class_hosts c). \<exists>ps. P x ps" by auto
  from list_all2_choice [OF this] obtain pss where pss: "list_all2 P (class_hosts c) pss" ..
  have "round_pushes snmp now c pss"
    unfolding round_pushes_def by (rule list_all2_mono [OF pss]) (auto simp: P_def)
  moreover have "map p_filename (concat pss) =
      concat (map (\<lambda>(cc, h). map (\<lambda>x. rrd_dir c @ rrd_filename x) (filter (\<lambda>x. \<not> mapping_failed x) (collection h))) (class_hosts c))"
    using pss by (induction rule: list_all2_induct) (auto simp: P_def)
  moreover have "\<dots> = map (\<lambda>f. rrd_dir c @ f) (map flat_file (filter (\<lambda>x. \<not> flat_failed x) (flatten (collection_class c))))"
    unfolding flatten_requested by (simp add: map_concat comp_def split_def)
  ultimately show ?thesis by (intro exI [of _ pss]) simp
qed


section \<open>Witnesses\<close>

text \<open>The demonstration database with two OIDs per class, all files present, one agent for all.\<close>

definition polled_db :: database where
  "polled_db = demo_db\<lparr>oid_rows := (\<lambda>_. Some
     [\<lparr>or_ds_name = Some ''in'', or_oid_prefix = Some ''1'', or_datatype = Some ''COUNTER''\<rparr>,
      \<lparr>or_ds_name = Some ''out'', or_oid_prefix = Some ''1'', or_datatype = Some ''COUNTER''\<rparr>])\<rparr>"

definition polled_class :: "string \<Rightarrow> string \<Rightarrow> sql_collection_class" where
  "polled_class s1 s2 =
     \<lparr>cc_db_id = 1, interval = 60, cc_name = ''c'', cc_oid = demo_ocs, cc_rra = [],
      cc_host = [\<lparr>collection =
        [\<lparr>premaping_oid_suffix = ''1'', post_mapping_oid_suffix = s1, oid_mapping_sequence_db_id = - 1, rrd_filename = ''a.rrd''\<rparr>,
         \<lparr>premaping_oid_suffix = ''2'', post_mapping_oid_suffix = s2, oid_mapping_sequence_db_id = - 1, rrd_filename = ''b.rrd''\<rparr>],
        sh_host = Some 0, timeticks = 0, mytime = 0\<rparr>]\<rparr>"

lemma polled_blocks:
  "load_blocks (0, 0) polled_db empty_sequence_db 0
     \<lparr>cl_classes = [], cl_hosts = demo_hosts, last_db_id = - 1, last_host_id = - 1, host_index = - 1\<rparr> =
   Some (Inr (Some \<lparr>cl_classes = [(polled_class [] [])\<lparr>cc_oid := []\<rparr>], cl_hosts = demo_hosts,
     last_db_id = 1, last_host_id = 7, host_index = 0\<rparr>))"
proof -
  have "\<forall>limit offset. collection_rows polled_db limit offset = Some (take limit (drop offset demo_rows))"
    by (simp add: polled_db_def demo_db_def demo_rows_def)
  from load_blocks_pages [OF this, of "(0, 0)" empty_sequence_db 0] show ?thesis
    by (simp add: demo_rows_def demo_hosts_def load_row_def enter_class_def new_host_info_def
        enter_host_def add_collection_def get_host_for_db_id_def insert_new_host_def row_mapping_def class_of_row_def
        Let_def update_last_def push_collection_def add_tables_def polled_class_def)
qed

definition polled_config :: "string \<Rightarrow> string \<Rightarrow> snapp_config" where
  "polled_config s1 s2 = demo_start\<lparr>host_table := demo_hosts, collection_class := [polled_class s1 s2]\<rparr>"

lemma polled_loads:
  "load_config 0 (0, 0) (Root_children []) polled_db demo_start = Some (Inr (Some (polled_config [] [])))"
proof -
  have "load_hosts 0 polled_db demo_start = Inr (Some (demo_start\<lparr>host_table := demo_hosts\<rparr>))"
    using demo_load_hosts [of demo_start] by (simp add: polled_db_def load_hosts_def demo_db_def demo_start_def)
  moreover have "connect_to_db polled_db d = Inr (Some ())" "start_transaction polled_db" "commit_transaction polled_db"
    "load_mapping_sequences polled_db c = Inr (Some c)" "load_globals polled_db c = Inr (Some c)" for d c
    by (simp_all add: polled_db_def demo_db_def connect_to_db_def load_mapping_sequences_def load_globals_def)
  moreover have "load_xml_config (Root_children []) (sc_xml demo_start) = Inr (0, sc_xml demo_start)"
    by (simp add: load_xml_config_def)
  moreover have "load_classes_oid polled_db [(polled_class [] [])\<lparr>cc_oid := []\<rparr>] = Inr (Some [polled_class [] []])"
    "load_classes_rra polled_db [polled_class [] []] = Inr (Some [polled_class [] []])"
    by (simp_all add: polled_db_def demo_db_def polled_class_def oid_of_row_def assert_string_def demo_ocs_def)
  ultimately show ?thesis
    using polled_blocks
    by (simp add: load_config_def then_opt_def load_collection_classes_def load_colection_classes_oid_def
        load_colection_classes_rra_def polled_config_def demo_start_def)
qed

definition all_files_there :: "unit fs_ops" where
  "all_files_there = \<lparr>stat_regular = (\<lambda>_ _. True), fs_mkdir = (\<lambda>_ _. (Mk_error, ())), rrd_create = (\<lambda>_ _ _ _. ())\<rparr>"

definition walked_hosts :: "host_info list" where
  "walked_hosts = map (\<lambda>h. h\<lparr>has_semaphore := True, mapping_done := 1\<rparr>) (host demo_hosts)"

lemma polled_walk:
  "load_host_tables (\<lambda>_ _. demo_agent) value_pattern_match (host demo_hosts) = Some (Inr walked_hosts)"
  by (simp add: demo_hosts_def insert_new_host_def walked_hosts_def run_host_thread_def host_thread_start_def
      load_oid_table_def new_host_info_def)

lemma polled_init:
  "\<exists>pools. init_config all_files_there (\<lambda>_ _. demo_agent) value_pattern_match 50 (polled_config [] []) () =
    Some (Inr (Some ((polled_config ''1'' ''2'')\<lparr>host_table := demo_hosts\<lparr>host := walked_hosts\<rparr>\<rparr>, pools, ())))"
proof -
  have files: "create_missing_rrd_files all_files_there (polled_config [] []) () = Some (Inr (Some ()))"
    by (simp add: create_missing_rrd_files_def polled_config_def polled_class_def all_collections_def create_rrd_file_def
        all_files_there_def then_opt_def)
  have maps: "map_collection_suffixes ((polled_config [] [])\<lparr>host_table := demo_hosts\<lparr>host := walked_hosts\<rparr>\<rparr>) =
      Inr ((polled_config ''1'' ''2'')\<lparr>host_table := demo_hosts\<lparr>host := walked_hosts\<rparr>\<rparr>)"
    by (simp add: map_collection_suffixes_def polled_config_def polled_class_def map_sql_host_def vector_at_def
        walked_hosts_def demo_hosts_def insert_new_host_def map_collection_def)
  have "host_table (polled_config [] []) = demo_hosts" by (simp add: polled_config_def)
  with files maps polled_walk show ?thesis by (simp add: init_config_def then_opt_def)
qed

lemma polled_fresh: "fresh_start polled_db demo_start"
  by (simp add: fresh_start_def demo_start_def polled_db_def demo_db_def)

lemma polled_pages: "\<forall>limit offset. collection_rows polled_db limit offset = Some (take limit (drop offset demo_rows))"
  by (simp add: polled_db_def demo_db_def demo_rows_def)

lemma polled_answers:
  "agents_answer (\<lambda>_ _. demo_agent) ((polled_config ''1'' ''2'')\<lparr>host_table := demo_hosts\<lparr>host := walked_hosts\<rparr>\<rparr>)
     (\<lambda>_. [''42'', ''NAN'']) (\<lambda>_. ''900'')"
proof -
  have "answers_all demo_agent demo_ocs (\<lambda>_. [''42'', ''NAN'']) (\<lambda>_. ''900'') cs" for cs
    using demo_answers by (auto simp: answers_all_def demo_agent_def demo_ocs_def demo_sql_host_def mapping_failed_def)
  then show ?thesis
    by (simp add: agents_answer_def class_hosts_def polled_config_def polled_class_def) (simp add: demo_agent_def demo_ocs_def)
qed



end
