(* ===== verification/Config_Threads.thy ===== *)
theory Config_Threads
  imports Collection_Sched
begin

text \<open>
  The threads of all collection classes together, and the destruction of a configuration. The
  classes share one session semaphore (\<^verbatim>\<open>globals.session_semaphore\<close>), also with the configuration
  that takes over during a reload. Deleting a configuration destroys its members in the reverse
  of the order \<^verbatim>\<open>snapp_config.hpp\<close> declares them: each class is finalized and then destroyed, and
  after all of them the host table. Shown: the session limit holds for all classes together;
  no worker looks at a host after the hosts are gone; a main thread can outlive its class.
\<close>

section \<open>State and steps\<close>

text \<open>The destroying thread: not begun, at class \<open>k\<close>, after the host table.\<close>

datatype destroy_pc = D_running | D_class nat | D_hosts_gone

text \<open>
  The classes of the configuration that is to be destroyed come first, \<open>num_old\<close> of them; behind
  them those of the configuration that takes over.
\<close>

record class_group =
  classes :: "pool list"
  host_counts :: "nat list"
  sessions :: nat
  num_old :: nat
  destroy :: destroy_pc

definition group_init :: "nat list \<Rightarrow> nat \<Rightarrow> nat \<Rightarrow> class_group" where
  "group_init ns m permits = \<lparr>classes = map (\<lambda>n. pool_init n permits) ns, host_counts = ns, sessions = permits,
     num_old = m, destroy = D_running\<rparr>"

text \<open>Class \<open>k\<close> with the shared semaphore in the place of its own.\<close>

definition class_now :: "class_group \<Rightarrow> nat \<Rightarrow> pool" where
  "class_now g k = (classes g ! k)\<lparr>session_semaphore := sessions g\<rparr>"

definition put_class :: "nat \<Rightarrow> pool \<Rightarrow> class_group \<Rightarrow> class_group" where
  "put_class k p g = g\<lparr>classes := (classes g)[k := p], sessions := session_semaphore p\<rparr>"

inductive group_step :: "class_group \<Rightarrow> nat \<times> pool_label \<Rightarrow> class_group \<Rightarrow> bool" where
  d_threads: "k < length (classes g) \<Longrightarrow> pool_step (host_counts g ! k) (class_now g k) l p \<Longrightarrow>
    group_step g (k, l) (put_class k p g)"
| d_begin: "destroy g = D_running \<Longrightarrow> group_step g (0, P_tau) (g\<lparr>destroy := D_class 0\<rparr>)"
| d_finalize: "destroy g = D_class k \<Longrightarrow> k < num_old g \<Longrightarrow> k < length (classes g) \<Longrightarrow>
    class_step (host_counts g ! k) (class_now g k) l p \<Longrightarrow> pool_fin p \<noteq> pool_fin (class_now g k) \<Longrightarrow>
    group_step g (k, l) (put_class k p g)"
| d_destroyed: "destroy g = D_class k \<Longrightarrow> k < num_old g \<Longrightarrow> pool_fin (classes g ! k) = F_done \<Longrightarrow>
    group_step g (k, P_tau) (g\<lparr>destroy := D_class (Suc k)\<rparr>)"
| d_hosts: "destroy g = D_class (num_old g) \<Longrightarrow> group_step g (0, P_tau) (g\<lparr>destroy := D_hosts_gone\<rparr>)"

section \<open>What always holds\<close>

text \<open>How far the destruction has come: these classes are destroyed.\<close>

definition destroyed :: "class_group \<Rightarrow> nat" where
  "destroyed g = (case destroy g of D_running \<Rightarrow> 0 | D_class k \<Rightarrow> k | D_hosts_gone \<Rightarrow> num_old g)"

definition all_collecting :: "class_group \<Rightarrow> nat" where
  "all_collecting g = sum_list (map collecting (classes g))"

definition group_ok :: "nat \<Rightarrow> class_group \<Rightarrow> bool" where
  "group_ok permits g \<longleftrightarrow>
     num_old g \<le> length (classes g) \<and> destroyed g \<le> num_old g \<and>
     sessions g + all_collecting g = permits \<and>
     (\<forall>k < length (classes g). class_ok (sessions g + collecting (classes g ! k)) (class_now g k)) \<and>
     (\<forall>k < length (classes g). pool_fin (classes g ! k) = F_done \<longrightarrow> live (classes g ! k) = 0) \<and>
     (\<forall>k < destroyed g. pool_fin (classes g ! k) = F_done)"

lemma class_now_simps [simp]:
  "pool_fin (class_now g k) = pool_fin (classes g ! k)" "pool_workers (class_now g k) = pool_workers (classes g ! k)"
  "pool_main (class_now g k) = pool_main (classes g ! k)"
  "pending_host_index_queue (class_now g k) = pending_host_index_queue (classes g ! k)"
  "session_semaphore (class_now g k) = sessions g" "count_pc P (class_now g k) = count_pc P (classes g ! k)"
  by (simp_all add: class_now_def)

lemma put_class_simps [simp]:
  "length (classes (put_class k p g)) = length (classes g)" "num_old (put_class k p g) = num_old g"
  "destroy (put_class k p g) = destroy g" "host_counts (put_class k p g) = host_counts g"
  "destroyed (put_class k p g) = destroyed g" "sessions (put_class k p g) = session_semaphore p"
  by (simp_all add: put_class_def destroyed_def split: destroy_pc.split)

lemma class_now_put: "k < length (classes g) \<Longrightarrow> class_now (put_class k p g) k = p"
  by (simp add: class_now_def put_class_def)

lemma classes_put:
  "k < length (classes g) \<Longrightarrow> classes (put_class k p g) ! j = (if j = k then p else classes g ! j)"
  by (simp add: put_class_def)

lemma all_collecting_put:
  "k < length (classes g) \<Longrightarrow>
   all_collecting (put_class k p g) + collecting (classes g ! k) = all_collecting g + collecting p"
  using sum_list_update_nat [of k "classes g" collecting p] by (simp add: all_collecting_def put_class_def)

text \<open>What \<open>class_ok\<close> says beyond the semaphore does not depend on it.\<close>

lemma class_ok_session:
  "class_ok (session_semaphore s + collecting s) s \<Longrightarrow> class_ok (n + collecting s) (s\<lparr>session_semaphore := n\<rparr>)"
  by (simp add: class_ok_def)

lemma at_exit: "live s = 0 \<Longrightarrow> at_worker s i pc \<Longrightarrow> pc = W_exit"
  using no_live [of s] by (auto simp: at_worker_def)

lemma class_step_done:
  assumes "class_step n s l t" "pool_fin s = F_done" "live s = 0"
  shows "pool_fin t = F_done \<and> live t = 0"
  using assms(1)
proof cases
  case c_pool
  from this assms(2,3) show ?thesis by cases (auto dest: at_exit)
qed (use assms in simp_all)

lemma class_step_joins:
  assumes "class_step n s l t" "pool_fin s \<noteq> F_done" "pool_fin t = F_done"
  shows "live t = 0"
  using assms(1)
proof cases
  case c_pool
  from this assms(2,3) show ?thesis by cases simp_all
qed (use assms in \<open>simp_all add: count_pc_def filter_empty_conv\<close>)

lemma group_ok_class_step:
  assumes ok: "group_ok permits g" and k: "k < length (classes g)"
    and step: "class_step (host_counts g ! k) (class_now g k) l p"
    and keep: "k < destroyed g \<Longrightarrow> pool_fin p = F_done"
  shows "group_ok permits (put_class k p g)"
proof -
  have c: "class_ok (sessions g + collecting (classes g ! k)) (class_now g k)" using ok k by (simp add: group_ok_def)
  from class_step_ok [OF c step] have p: "class_ok (sessions g + collecting (classes g ! k)) p" .
  then have sum: "session_semaphore p + collecting p = sessions g + collecting (classes g ! k)" by (simp add: class_ok_def)
  have "sessions (put_class k p g) + all_collecting (put_class k p g) = permits"
    using all_collecting_put [OF k, of p] sum ok by (simp add: group_ok_def)
  moreover have "class_ok (sessions (put_class k p g) + collecting (classes (put_class k p g) ! j)) (class_now (put_class k p g) j)"
    if j: "j < length (classes g)" for j
  proof (cases "j = k")
    case True
    with p sum k show ?thesis by (simp add: class_now_put classes_put)
  next
    case False
    have "class_ok (sessions g + collecting (classes g ! j)) (class_now g j)" using ok j by (simp add: group_ok_def)
    then have "class_ok (session_semaphore p + collecting (class_now g j)) ((class_now g j)\<lparr>session_semaphore := session_semaphore p\<rparr>)"
      by (intro class_ok_session) simp
    moreover have "(class_now g j)\<lparr>session_semaphore := session_semaphore p\<rparr> = class_now (put_class k p g) j"
      using False k by (simp add: class_now_def classes_put)
    ultimately show ?thesis using False k by (simp add: classes_put)
  qed
  moreover have "live p = 0" if "pool_fin p = F_done"
  proof (cases "pool_fin (classes g ! k) = F_done")
    case True
    with ok k class_step_done [OF step] show ?thesis by (simp add: group_ok_def)
  next
    case False
    with that class_step_joins [OF step] show ?thesis by simp
  qed
  ultimately show ?thesis using ok k keep by (simp add: group_ok_def classes_put)
qed

lemma group_step_ok:
  assumes "group_ok permits g" "group_step g l h"
  shows "group_ok permits h"
  using assms(2)
proof cases
  case (d_threads k l p)
  have "pool_fin p = pool_fin (classes g ! k)" using d_threads(4) by cases simp_all
  moreover from assms(1) d_threads(3) have "k < destroyed g \<longrightarrow> pool_fin (classes g ! k) = F_done"
    by (simp add: group_ok_def)
  ultimately show ?thesis
    using d_threads group_ok_class_step [OF assms(1) d_threads(3) c_pool [OF d_threads(4)]] by simp
next
  case (d_finalize k l p)
  then have "\<not> k < destroyed g" by (simp add: destroyed_def)
  with d_finalize group_ok_class_step [OF assms(1) d_finalize(5,6)] show ?thesis by simp
next
  case (d_destroyed k)
  with assms(1) show ?thesis by (auto simp: group_ok_def destroyed_def class_now_def all_collecting_def less_Suc_eq)
qed (use assms(1) in \<open>auto simp: group_ok_def destroyed_def class_now_def all_collecting_def\<close>)

lemma group_init_ok: "m \<le> length ns \<Longrightarrow> group_ok permits (group_init ns m permits)"
  using pool_init_ok [of permits]
  by (auto simp: group_ok_def group_init_def destroyed_def all_collecting_def class_now_def pool_init_def count_pc_def
      class_ok_def comp_def)

lemma group_run_ok:
  assumes "m \<le> length ns" "lrun group_step (group_init ns m permits) tr g"
  shows "group_ok permits g"
  using assms(2) group_init_ok [OF assms(1)]
  by (rule lrun_invariant [where I = "group_ok permits"]) (rule group_step_ok)

section \<open>The session limit and the order of destruction\<close>

text \<open>
  C25. Never more SNMP sessions than the limit: however the classes' threads interleave, also while
  one configuration is destroyed and another runs, all workers of all classes together collect at
  most as many hosts at once as the shared semaphore has permits.
\<close>

theorem sessions_bounded_over_classes:
  assumes "m \<le> length ns" "lrun group_step (group_init ns m permits) tr g"
  shows "sum_list (map collecting (classes g)) \<le> permits"
  using group_run_ok [OF assms] by (auto simp: group_ok_def all_collecting_def)

lemma destroyed_grows:
  assumes "group_step g l h" "group_ok permits g"
  shows "destroyed g \<le> destroyed h \<and> length (classes h) = length (classes g)"
  using assms(1)
proof cases
  case (d_destroyed k)
  then show ?thesis by (simp add: destroyed_def)
next
  case d_hosts
  then show ?thesis by (simp add: destroyed_def)
next
  case d_begin
  then show ?thesis by (simp add: destroyed_def)
qed simp_all

lemma destroyed_quiet:
  assumes "group_step g (k, P_collect i j) h" "group_ok permits g" "k < destroyed g"
  shows False
  using assms(1)
proof cases
  case (d_threads p)
  from assms(2,3) d_threads have "live (classes g ! k) = 0" by (simp add: group_ok_def)
  then have "live (class_now g k) = 0" by simp
  moreover from d_threads(3) have "at_worker (class_now g k) i (W_collect j)" by cases simp
  ultimately show False by (auto dest!: at_exit [rotated])
next
  case (d_finalize p)
  with assms(3) show False by (simp add: destroyed_def)
qed

text \<open>
  C16. The order of destruction is safe for the workers: once the destructor of a class has run, and
  so above all once the host table is destroyed, all workers of that class have exited and none of
  them ever looks at a host again, whatever the threads of the other classes and of the
  configuration that took over do.
\<close>

theorem no_collection_after_destruction:
  assumes "m \<le> length ns" "lrun group_step (group_init ns m permits) tr g" "k < destroyed g"
    and "lrun group_step g tr' h"
  shows "(\<forall>i j. (k, P_collect i j) \<notin> set tr') \<and> (\<forall>pc \<in> set (pool_workers (classes h ! k)). pc = W_exit)"
proof -
  have "group_ok permits h \<and> k < destroyed h \<and> (\<forall>i j. (k, P_collect i j) \<notin> set tr')"
    using assms(4) group_run_ok [OF assms(1,2)] assms(3)
  proof (induction rule: lrun.induct)
    case (lrun_snoc g tr' h l u)
    then have h: "group_ok permits h" "k < destroyed h" "\<forall>i j. (k, P_collect i j) \<notin> set tr'" by auto
    moreover have "l \<noteq> (k, P_collect i j)" for i j
      using destroyed_quiet [of h k i j u permits] h lrun_snoc.hyps by blast
    moreover have "k < destroyed u" using destroyed_grows [OF lrun_snoc.hyps(2) h(1)] h(2) by simp
    moreover have "group_ok permits u" using group_step_ok [OF h(1) lrun_snoc.hyps(2)] .
    ultimately show ?case by auto
  qed simp
  moreover from this have "live (classes h ! k) = 0" by (simp add: group_ok_def)
  ultimately show ?thesis using no_live by blast
qed

section \<open>Destroying a configuration\<close>

text \<open>\<open>g\<close> and \<open>h\<close> differ in class \<open>k\<close>, the semaphore and the workers only.\<close>

definition same_but :: "nat \<Rightarrow> class_group \<Rightarrow> class_group \<Rightarrow> bool" where
  "same_but k g h \<longleftrightarrow> destroy h = destroy g \<and> num_old h = num_old g \<and> host_counts h = host_counts g \<and>
     length (classes h) = length (classes g) \<and>
     (\<forall>j. j \<noteq> k \<longrightarrow> j < length (classes g) \<longrightarrow>
        pool_main (classes h ! j) = pool_main (classes g ! j) \<and> pool_fin (classes h ! j) = pool_fin (classes g ! j))"

lemma same_but_refl [simp]: "same_but k g g"
  by (simp add: same_but_def)

lemma same_but_trans: "same_but k g h \<Longrightarrow> same_but k h u \<Longrightarrow> same_but k g u"
  by (auto simp: same_but_def)

lemma same_but_put: "same_but k g h \<Longrightarrow> same_but k g (put_class k p h)"
  by (auto simp: same_but_def put_class_def)

text \<open>What one class can do alone it can do in the group, when its destruction is due.\<close>

lemma group_of_class_step:
  assumes "class_step (host_counts g ! k) (class_now g k) l p" "destroy g = D_class k" "k < num_old g" "k < length (classes g)"
  shows "group_step g (k, l) (put_class k p g)"
proof (cases "pool_fin p = pool_fin (class_now g k)")
  case True
  with assms(1) have "pool_step (host_counts g ! k) (class_now g k) l p" by cases auto
  with assms show ?thesis by (intro d_threads)
next
  case False
  with assms show ?thesis by (intro d_finalize)
qed

lemma group_of_class_run:
  assumes "lrun (class_step n) s tr p"
  shows "s = class_now g k \<Longrightarrow> n = host_counts g ! k \<Longrightarrow> destroy g = D_class k \<Longrightarrow> k < num_old g \<Longrightarrow> k < length (classes g) \<Longrightarrow>
    \<exists>tr' h. lrun group_step g tr' h \<and> class_now h k = p \<and> same_but k g h"
  using assms
proof (induction rule: lrun.induct)
  case (lrun_nil s)
  then show ?case using lrun.lrun_nil [of group_step g] same_but_refl by blast
next
  case (lrun_snoc s tr t l u)
  then obtain tr' h where h: "lrun group_step g tr' h" "class_now h k = t" "same_but k g h" by blast
  with lrun_snoc.prems lrun_snoc.hyps(2) have "group_step h (k, l) (put_class k u h)"
    by (intro group_of_class_step) (simp_all add: same_but_def)
  with h have "lrun group_step g (tr' @ [(k, l)]) (put_class k u h)" by (intro lrun.lrun_snoc)
  moreover have "class_now (put_class k u h) k = u"
    using h(3) lrun_snoc.prems by (intro class_now_put) (simp add: same_but_def)
  ultimately show ?case using same_but_put [OF h(3)] by blast
qed

definition finished_pool :: pool where
  "finished_pool = \<lparr>pending_host_index_queue = [], worker_semaphore = 0, session_semaphore = 1, pool_workers = [W_exit],
     pool_main = M_top, cancel_pending = True, pool_fin = F_done\<rparr>"

text \<open>A class with one host from its start to its destruction, its main thread before the lock.\<close>

lemma gone_run:
  "\<exists>tr v. lrun group_step (group_init [1] 1 1) tr v \<and> destroy v = D_hosts_gone \<and> num_old v = 1 \<and>
     length (classes v) = 1 \<and> host_counts v = [1] \<and> class_now v 0 = finished_pool"
proof -
  let ?g = "(group_init [1] 1 1)\<lparr>destroy := D_class 0\<rparr>"
  let ?p = "pool_init 1 1"
  let ?p1 = "?p\<lparr>cancel_pending := True, pending_host_index_queue := [- 1], worker_semaphore := 1, pool_fin := F_join\<rparr>"
  let ?p2 = "set_worker 0 W_lock (?p1\<lparr>worker_semaphore := 0\<rparr>)"
  let ?p3 = "set_worker 0 W_exit (?p2\<lparr>pending_host_index_queue := []\<rparr>)"
  let ?p4 = "?p3\<lparr>pool_fin := F_done\<rparr>"
  note defs = pool_init_def max_num_workers_def at_worker_def set_worker_def lock_free_def
  have "class_step 1 ?p P_finalize ?p1" using c_finalize [of ?p 1] by (simp add: defs)
  moreover have "class_step 1 ?p1 P_tau ?p2" using c_pool [OF p_wait [of ?p1 0 1]] by (simp add: defs)
  moreover have "class_step 1 ?p2 (P_take 0 (- 1)) ?p3"
    using c_pool [OF p_take [of ?p2 0 "- 1" "[]" 1]] by (simp add: defs)
  moreover have "class_step 1 ?p3 P_tau ?p4" by (intro c_joined) (simp_all add: defs)
  ultimately have "lrun (class_step 1) ?p [P_finalize, P_tau, P_take 0 (- 1), P_tau] ?p4"
    by (blast intro: lrun_Cons [where step = "class_step 1"] lrun_nil)
  from group_of_class_run [OF this, of ?g 0] obtain tr h where
    h: "lrun group_step ?g tr h" "class_now h 0 = ?p4" "same_but 0 ?g h"
    by (auto simp: group_init_def class_now_def pool_init_def)
  from h(2) have fin: "pool_fin (classes h ! 0) = F_done" by (metis class_now_simps(1) pool.select_convs(7) pool.surjective pool.update_convs(7))
  have start: "group_step (group_init [1] 1 1) (0, P_tau) ?g" by (intro d_begin) (simp add: group_init_def)
  have h': "destroy h = D_class 0" "num_old h = 1" "length (classes h) = 1" "host_counts h = [1]"
    using h(3) by (simp_all add: same_but_def group_init_def)
  let ?u = "h\<lparr>destroy := D_class 1\<rparr>" and ?v = "h\<lparr>destroy := D_hosts_gone\<rparr>"
  have "group_step h (0, P_tau) ?u" using d_destroyed [of h 0] h' fin by simp
  moreover have "group_step ?u (0, P_tau) ?v" using d_hosts [of ?u] h' by simp
  ultimately have "lrun group_step (group_init [1] 1 1) ((0, P_tau) # tr @ [(0, P_tau), (0, P_tau)]) ?v"
    using start lrun_trans [OF _ h(1), of "[(0, P_tau), (0, P_tau)]" ?v] lrun_Cons [where step = group_step] lrun_nil
    by metis
  moreover have "class_now ?v 0 = finished_pool" using h(2) by (simp add: class_now_def finished_pool_def defs)
  ultimately show ?thesis using h' by fastforce
qed

text \<open>
  A collection class is destroyed under its main thread: \<^verbatim>\<open>finalize\<close> cancels the main thread but,
  since it is detached, does not wait for it, so the object can be gone (and with it the queue,
  the semaphore and the mutex) when that thread, past its last cancellation point, takes the lock
  of the class and pushes its hosts.
\<close>

theorem main_thread_outlives_class:
  "\<exists>tr g tr' h. lrun group_step (group_init [1] 1 1) tr g \<and> destroy g = D_hosts_gone \<and>
     lrun group_step g tr' h \<and> (0, P_push 0) \<in> set tr'"
proof -
  from gone_run obtain tr v where gone: "lrun group_step (group_init [1] 1 1) tr v" "destroy v = D_hosts_gone"
    and h': "length (classes v) = 1" "host_counts v = [1]" and v: "class_now v 0 = finished_pool" by blast
  let ?q0 = finished_pool and ?q1 = "finished_pool\<lparr>pool_main := M_locked\<rparr>" and ?q2 = "finished_pool\<lparr>pool_main := M_push 0\<rparr>"
  let ?q3 = "finished_pool\<lparr>pending_host_index_queue := [0], worker_semaphore := 1, pool_main := M_push 1\<rparr>"
  have "pool_step 1 ?q0 P_tau ?q1" by (intro m_lock) (simp add: finished_pool_def)
  then have "group_step v (0, P_tau) (put_class 0 ?q1 v)" using d_threads [of 0 v P_tau ?q1] h' v by simp
  moreover have "pool_step 1 ?q1 P_tau ?q2" using m_empty [of ?q1 1] by (simp add: finished_pool_def)
  then have "group_step (put_class 0 ?q1 v) (0, P_tau) (put_class 0 ?q2 (put_class 0 ?q1 v))"
    using d_threads [of 0 "put_class 0 ?q1 v" P_tau ?q2] h' class_now_put [of 0 v ?q1] by simp
  moreover have "pool_step 1 ?q2 (P_push 0) ?q3" using m_push [of ?q2 0 1] by (simp add: finished_pool_def)
  then have "group_step (put_class 0 ?q2 (put_class 0 ?q1 v)) (0, P_push 0) (put_class 0 ?q3 (put_class 0 ?q2 (put_class 0 ?q1 v)))"
    using d_threads [of 0 "put_class 0 ?q2 (put_class 0 ?q1 v)" "P_push 0" ?q3] h'
      class_now_put [of 0 "put_class 0 ?q1 v" ?q2] by simp
  ultimately have "\<exists>w. lrun group_step v [(0, P_tau), (0, P_tau), (0, P_push 0)] w"
    by (blast intro: lrun_Cons [where step = group_step] lrun_nil)
  with gone show ?thesis by fastforce
qed

section \<open>The destruction can complete\<close>

lemma push_lets_go:
  "pool_main s = M_push k \<Longrightarrow> \<exists>tr t. lrun (class_step n) s tr t \<and> lock_free t \<and> pool_fin t = pool_fin s"
proof (induction "n - k" arbitrary: k s)
  case 0
  let ?t = "s\<lparr>pool_main := M_unlock\<rparr>"
  have "class_step n s P_tau ?t" using 0 by (intro c_pool m_pushed [of s k]) simp_all
  moreover have "class_step n ?t P_tau (?t\<lparr>pool_main := M_sleep\<rparr>)" by (intro c_pool m_unlock) simp
  ultimately have "lrun (class_step n) s [P_tau, P_tau] (?t\<lparr>pool_main := M_sleep\<rparr>)"
    by (blast intro: lrun_Cons [where step = "class_step n"] lrun_nil)
  then show ?case by (fastforce simp: lock_free_def)
next
  case (Suc d)
  let ?t = "s\<lparr>pending_host_index_queue := pending_host_index_queue s @ [int k],
    worker_semaphore := Suc (worker_semaphore s), pool_main := M_push (Suc k)\<rparr>"
  from Suc have "class_step n s (P_push (int k)) ?t" by (intro c_pool m_push) simp_all
  moreover have "d = n - Suc k" using Suc.hyps(2) by simp
  from Suc.hyps(1) [OF this, of ?t] obtain tr t where
    "lrun (class_step n) ?t tr t" "lock_free t" "pool_fin t = pool_fin s" by auto
  ultimately show ?case by (blast intro: lrun_Cons [where step = "class_step n"])
qed

lemma idle_lets_go:
  assumes "pool_main s \<noteq> M_dead True"
  shows "\<exists>tr t. lrun (class_step n) s tr t \<and> lock_free t \<and> pool_fin t = pool_fin s"
proof (cases "pool_main s")
  case (M_push k)
  then show ?thesis by (rule push_lets_go)
next
  case M_unlock
  then have "class_step n s P_tau (s\<lparr>pool_main := M_sleep\<rparr>)" by (intro c_pool m_unlock)
  then show ?thesis using lrun_one [where step = "class_step n"] by (fastforce simp: lock_free_def)
next
  case M_locked
  let ?t = "if pending_host_index_queue s = [] then s\<lparr>pool_main := M_push 0\<rparr> else s\<lparr>pool_main := M_unlock\<rparr>"
  have step: "class_step n s P_tau ?t" using M_locked by (auto intro: c_pool m_empty m_not_empty)
  have "\<exists>tr u. lrun (class_step n) ?t tr u \<and> lock_free u \<and> pool_fin u = pool_fin s"
  proof (cases "pending_host_index_queue s = []")
    case True
    then show ?thesis using push_lets_go [of ?t 0 n] by simp
  next
    case False
    then have "class_step n ?t P_tau (s\<lparr>pool_main := M_sleep\<rparr>)" using c_pool [OF m_unlock [of ?t n]] by simp
    then show ?thesis using lrun_one [where step = "class_step n"] by (fastforce simp: lock_free_def)
  qed
  with step show ?thesis by (blast intro: lrun_Cons [where step = "class_step n"])
next
  case (M_dead b)
  with assms have "lock_free s" by (simp add: lock_free_def)
  then show ?thesis using lrun_nil [of "class_step n" s] by blast
next
  case M_top
  then have "lock_free s" by (simp add: lock_free_def)
  then show ?thesis using lrun_nil [of "class_step n" s] by blast
next
  case M_sleep
  then have "lock_free s" by (simp add: lock_free_def)
  then show ?thesis using lrun_nil [of "class_step n" s] by blast
qed

lemma class_can_be_finalized:
  assumes ok: "class_ok permits s" and alive: "pool_main s \<noteq> M_dead True" and pos: "0 < permits"
  shows "\<exists>tr t. lrun (class_step n) s tr t \<and> pool_fin t = F_done"
proof (cases "pool_fin s")
  case F_idle
  from idle_lets_go [OF alive] obtain tr u where u: "lrun (class_step n) s tr u" "lock_free u" "pool_fin u = F_idle"
    using F_idle by metis
  let ?v = "u\<lparr>cancel_pending := True, pending_host_index_queue := replicate (length (pool_workers u)) (- 1),
    worker_semaphore := worker_semaphore u + length (pool_workers u), pool_fin := F_join\<rparr>"
  have fin: "class_step n u P_finalize ?v" using c_finalize [OF u(3,2)] .
  have "class_ok permits u" using u(1) ok
    by (rule lrun_invariant [where I = "class_ok permits"]) (rule class_step_ok)
  then have "class_ok permits ?v" using fin by (rule class_step_ok)
  moreover have "pool_main ?v \<noteq> M_dead True" using u(2) by (auto simp: lock_free_def)
  ultimately obtain tr' t where "lrun (class_step n) ?v tr' t" "pool_fin t = F_done"
    using shutdown_completes [of permits ?v n] pos by auto
  with lrun_trans [OF lrun_Cons [where step = "class_step n", OF fin] u(1)] show ?thesis by blast
next
  case F_join
  from shutdown_completes [OF ok F_join alive pos] show ?thesis .
next
  case F_done
  then show ?thesis using lrun_nil [of "class_step n" s] by blast
qed

text \<open>A permit of the shared semaphore can be had: some worker that collects finishes.\<close>

lemma session_can_be_had:
  assumes "group_ok permits g" "0 < permits"
  shows "\<exists>tr h. lrun group_step g tr h \<and> 0 < sessions h \<and> (\<forall>k. same_but k g h) \<and> (\<forall>j < length (classes g).
    pool_main (classes h ! j) = pool_main (classes g ! j))"
proof (cases "0 < sessions g")
  case True
  then show ?thesis using lrun_nil [of group_step g] by (intro exI [of _ "[]"] exI [of _ g]) simp
next
  case False
  with assms have "sum_list (map collecting (classes g)) \<noteq> 0" by (simp add: group_ok_def all_collecting_def)
  then obtain j where j: "j < length (classes g)" "0 < collecting (classes g ! j)"
    by (auto simp: in_set_conv_nth)
  then obtain i x where "at_worker (classes g ! j) i (W_collect x)"
    by (auto simp: count_pc_def at_worker_def length_filter_conv_card card_gt_0_iff)
  then have "at_worker (class_now g j) i (W_collect x)" by (simp add: class_now_def at_worker_def)
  from d_threads [OF j(1) p_collect [OF this]] have
    "group_step g (j, P_collect i x) (put_class j (set_worker i W_wait ((class_now g j)\<lparr>session_semaphore := Suc (sessions g)\<rparr>)) g)"
    (is "group_step g _ ?h") by simp
  moreover have "same_but k g ?h" for k using j(1) by (simp add: same_but_def classes_put)
  moreover have "pool_main (classes ?h ! l) = pool_main (classes g ! l)" for l using j(1) by (simp add: classes_put)
  moreover have "0 < sessions ?h" by simp
  ultimately show ?thesis by (blast intro: lrun_one)
qed

lemma class_can_be_destroyed:
  assumes ok: "group_ok permits g" "0 < permits" and k: "destroy g = D_class k" "k < num_old g"
    and alive: "pool_main (classes g ! k) \<noteq> M_dead True"
  shows "\<exists>tr h. lrun group_step g tr h \<and> destroy h = D_class (Suc k) \<and> num_old h = num_old g \<and>
    (\<forall>j. k < j \<longrightarrow> j < length (classes g) \<longrightarrow> pool_main (classes h ! j) = pool_main (classes g ! j))"
proof -
  from ok k have len: "k < length (classes g)" by (simp add: group_ok_def)
  from session_can_be_had [OF ok] obtain tr1 g1 where g1: "lrun group_step g tr1 g1" "0 < sessions g1" "same_but k g g1"
    "\<forall>j < length (classes g). pool_main (classes g1 ! j) = pool_main (classes g ! j)" by blast
  from g1(1) ok(1) have "group_ok permits g1"
    by (rule lrun_invariant [where I = "group_ok permits"]) (rule group_step_ok)
  with g1(3) len have "class_ok (sessions g1 + collecting (classes g1 ! k)) (class_now g1 k)"
    by (simp add: group_ok_def same_but_def)
  from class_can_be_finalized [OF this, of "host_counts g1 ! k"] g1 len alive obtain tr2 p where
    p: "lrun (class_step (host_counts g1 ! k)) (class_now g1 k) tr2 p" "pool_fin p = F_done" by auto
  from group_of_class_run [OF p(1) refl refl] g1(3) k len obtain tr3 h where
    h: "lrun group_step g1 tr3 h" "class_now h k = p" "same_but k g1 h" by (auto simp: same_but_def)
  from h(2) p(2) have "pool_fin (classes h ! k) = F_done" by (metis class_now_simps(1))
  then have "group_step h (k, P_tau) (h\<lparr>destroy := D_class (Suc k)\<rparr>)"
    using h(3) g1(3) k by (intro d_destroyed) (simp_all add: same_but_def)
  with lrun_trans [OF h(1) g1(1)] have "lrun group_step g ((tr1 @ tr3) @ [(k, P_tau)]) (h\<lparr>destroy := D_class (Suc k)\<rparr>)"
    by (intro lrun_snoc)
  moreover have "same_but k g h" using same_but_trans [OF g1(3) h(3)] .
  ultimately show ?thesis
    by (intro exI [of _ "(tr1 @ tr3) @ [(k, P_tau)]"] exI [of _ "h\<lparr>destroy := D_class (Suc k)\<rparr>"]) (simp add: same_but_def)
qed

lemma rest_can_be_destroyed:
  "group_ok permits g \<Longrightarrow> 0 < permits \<Longrightarrow> destroy g = D_class k \<Longrightarrow>
   \<forall>j < num_old g. k \<le> j \<longrightarrow> pool_main (classes g ! j) \<noteq> M_dead True \<Longrightarrow>
   \<exists>tr h. lrun group_step g tr h \<and> destroy h = D_hosts_gone"
proof (induction "num_old g - k" arbitrary: g k)
  case 0
  then have "k = num_old g" by (auto simp: group_ok_def destroyed_def)
  with 0 have "group_step g (0, P_tau) (g\<lparr>destroy := D_hosts_gone\<rparr>)" by (intro d_hosts) simp
  then show ?case using lrun_one [where step = group_step] by fastforce
next
  case (Suc d)
  then have k: "k < num_old g" by simp
  with Suc.prems class_can_be_destroyed [OF Suc.prems(1-3) k] obtain tr h where
    h: "lrun group_step g tr h" "destroy h = D_class (Suc k)" "num_old h = num_old g"
    "\<forall>j. k < j \<longrightarrow> j < length (classes g) \<longrightarrow> pool_main (classes h ! j) = pool_main (classes g ! j)" by auto
  from h(1) Suc.prems(1) have "group_ok permits h"
    by (rule lrun_invariant [where I = "group_ok permits"]) (rule group_step_ok)
  moreover have "\<forall>j < num_old h. Suc k \<le> j \<longrightarrow> pool_main (classes h ! j) \<noteq> M_dead True"
    using h Suc.prems(1,4) by (auto simp: group_ok_def)
  moreover have "d = num_old h - Suc k" using Suc.hyps(2) h(3) by simp
  ultimately obtain tr' u where "lrun group_step h tr' u" "destroy u = D_hosts_gone"
    using Suc.hyps(1) [of h "Suc k"] Suc.prems(2) h(2) by blast
  with lrun_trans [OF _ h(1)] show ?case by blast
qed

text \<open>
  C19. A configuration can always be destroyed while no main thread of its classes has died with its
  lock: from every reachable state, however many hosts are queued or being collected and although
  the permits may all be held by workers of the configuration that took over, the threads can move
  so that every class is finalized, all its joins return, and the hosts are destroyed last.
\<close>

theorem destruction_can_complete:
  assumes "m \<le> length ns" "lrun group_step (group_init ns m permits) tr g" "0 < permits"
    and "\<forall>k < num_old g. pool_main (classes g ! k) \<noteq> M_dead True"
  shows "\<exists>tr' h. lrun group_step g tr' h \<and> destroy h = D_hosts_gone"
proof -
  have ok: "group_ok permits g" by (rule group_run_ok [OF assms(1,2)])
  show ?thesis
  proof (cases "destroy g")
    case D_running
    let ?g = "g\<lparr>destroy := D_class 0\<rparr>"
    have step: "group_step g (0, P_tau) ?g" using D_running by (rule d_begin)
    from rest_can_be_destroyed [OF group_step_ok [OF ok step] assms(3), of 0] assms(4) obtain tr' h where
      "lrun group_step ?g tr' h" "destroy h = D_hosts_gone" by auto
    with lrun_Cons [where step = group_step, OF step] show ?thesis by blast
  next
    case (D_class k)
    from rest_can_be_destroyed [OF ok assms(3) D_class] assms(4) show ?thesis by blast
  next
    case D_hosts_gone
    then show ?thesis using lrun_nil [of group_step g] by blast
  qed
qed

section \<open>Witnesses\<close>

theorem sessions_bounded_over_classes_witness:
  "\<exists>tr g. lrun group_step (group_init [1] 1 1) tr g \<and> sum_list (map collecting (classes g)) = 1 \<and>
     sum_list (map collecting (classes g)) \<le> 1"
proof -
  have "\<exists>tr s. run_moves 1 [0, 0, 0, 0, 0, 1, 1, 1] (pool_init 1 1) = Some (tr, s) \<and> collecting s = 1"
    by (simp add: pool_init_def max_num_workers_def main_move_def worker_move_def set_worker_def lock_free_def count_pc_def)
  then obtain tr s where s: "lrun (class_step 1) (pool_init 1 1) tr s" "collecting s = 1"
    using run_moves_run lrun_pool_class by blast
  let ?g = "(group_init [1] 1 1)\<lparr>destroy := D_class 0\<rparr>"
  from group_of_class_run [OF s(1), of ?g 0] obtain tr' h where
    h: "lrun group_step ?g tr' h" "class_now h 0 = s" "same_but 0 ?g h"
    by (auto simp: group_init_def class_now_def pool_init_def)
  have "group_step (group_init [1] 1 1) (0, P_tau) ?g" by (intro d_begin) (simp add: group_init_def)
  with h(1) have run: "lrun group_step (group_init [1] 1 1) ((0, P_tau) # tr') h"
    by (blast intro: lrun_Cons [where step = group_step])
  from h(3) have "length (classes h) = 1" by (simp add: same_but_def group_init_def)
  then have "classes h = [classes h ! 0]" by (cases "classes h") auto
  then obtain c where c: "classes h = [c]" by blast
  have "collecting (class_now h 0) = 1" using h(2) s(2) by simp
  then have "sum_list (map collecting (classes h)) = 1" by (simp add: c)
  moreover from sessions_bounded_over_classes [OF _ run] have "sum_list (map collecting (classes h)) \<le> 1" by simp
  ultimately show ?thesis using run by (intro exI conjI)
qed

theorem no_collection_after_destruction_witness:
  "\<exists>tr g. lrun group_step (group_init [1] 1 1) tr g \<and> destroy g = D_hosts_gone \<and>
     (\<forall>pc \<in> set (pool_workers (classes g ! 0)). pc = W_exit)"
proof -
  from gone_run obtain tr v where v: "lrun group_step (group_init [1] 1 1) tr v" "destroy v = D_hosts_gone" "num_old v = 1"
    by blast
  then have "0 < destroyed v" by (simp add: destroyed_def)
  from no_collection_after_destruction [OF _ v(1) this lrun_nil] v(1,2) show ?thesis by auto
qed

theorem destruction_can_complete_witness:
  "\<exists>tr h. lrun group_step (group_init [1, 2] 1 3) tr h \<and> destroy h = D_hosts_gone"
  by (rule destruction_can_complete [OF _ lrun_nil]) (simp_all add: group_init_def pool_init_def)

end
