(* ===== verification/Class_Pacing.thy ===== *)
theory Class_Pacing
  imports Complex_Main Collection_Sched Long_Double
begin

text \<open>
  The pace of a collection class: how long \<^verbatim>\<open>SQL_Collection_Class::thread_start\<close> sleeps between two
  rounds (\<^verbatim>\<open>collection_class.cpp\<close>). The length is the interval times \<^verbatim>\<open>adjust\<close>, a \<^verbatim>\<open>double\<close> that
  follows the measured length of the last sleep. A finite double is the rational number it stands
  for, and every operation rounds its exact result to 53 bits, ties to even; the values that occur
  are far from the ends of the exponent range. Shown: the bounds of the sleep whatever the clock
  does, and that the pace recovers from a disturbance.
\<close>

section \<open>Doubles\<close>

definition double_exponent :: "nat \<Rightarrow> nat \<Rightarrow> int" where
  "double_exponent p q =
     (let e = int (bitlen_nat p) - int (bitlen_nat q) - 53; (n, d) = scale_frac p q e
      in if n < d * 2 ^ 53 then e else e + 1)"

definition double_of_frac :: "nat \<Rightarrow> nat \<Rightarrow> rat" where
  "double_of_frac p q =
     (if p = 0 then 0
      else let e = double_exponent p q; (n, d) = scale_frac p q e
           in of_nat (round_half_even n d) * 2 powi e)"

definition round_double :: "rat \<Rightarrow> rat" where
  "round_double x =
     (case quotient_of x of (p, q) \<Rightarrow>
        if p < 0 then - double_of_frac (nat (- p)) (nat q) else double_of_frac (nat p) (nat q))"

lemma scale_frac_value:
  assumes "0 < q" "scale_frac p q e = (n, d)"
  shows "0 < d \<and> (of_nat n / of_nat d :: rat) = of_nat p / of_nat q * 2 powi (- e)"
  using assms by (auto simp: scale_frac_def power_int_def field_simps split: if_splits)

lemma round_half_even_error:
  assumes "0 < d"
  shows "\<bar>of_nat (round_half_even n d) - of_nat n / of_nat d\<bar> \<le> (1 / 2 :: rat)"
proof -
  let ?f = "n div d" and ?r = "n mod d"
  have "n = ?f * d + ?r" by simp
  then have "(of_nat n :: rat) = of_nat ?f * of_nat d + of_nat ?r" by (metis of_nat_add of_nat_mult)
  with assms have n: "(of_nat n / of_nat d :: rat) = of_nat ?f + of_nat ?r / of_nat d" by (simp add: field_simps)
  have r: "?r < d" using assms by simp
  show ?thesis
  proof (cases "2 * ?r > d \<or> (2 * ?r = d \<and> odd ?f)")
    case True
    then have "d \<le> 2 * ?r" by auto
    then have "(of_nat d :: rat) \<le> 2 * of_nat ?r" by (metis of_nat_le_iff of_nat_mult of_nat_numeral)
    with assms r have "1 / 2 \<le> (of_nat ?r / of_nat d :: rat)" "(of_nat ?r / of_nat d :: rat) \<le> 1" by (simp_all add: field_simps)
    moreover have "round_half_even n d = Suc ?f" using True by (auto simp: round_half_even_def Let_def)
    ultimately show ?thesis using n by simp
  next
    case False
    then have "2 * ?r \<le> d" by auto
    then have "2 * (of_nat ?r :: rat) \<le> of_nat d" by (metis of_nat_le_iff of_nat_mult of_nat_numeral)
    with assms have "(of_nat ?r / of_nat d :: rat) \<le> 1 / 2" by (simp add: field_simps)
    moreover have "round_half_even n d = ?f" using False by (auto simp: round_half_even_def Let_def)
    ultimately show ?thesis using n by simp
  qed
qed

lemma powi_add: "(2 powi a * 2 powi b :: rat) = 2 powi (a + b)"
  by (rule power_int_add [symmetric]) simp

lemma double_exponent_significand:
  assumes "0 < p" "0 < q"
  shows "(2 ^ 52 :: rat) \<le> of_nat p / of_nat q * 2 powi (- double_exponent p q)"
proof -
  let ?b = "bitlen_nat p" and ?c = "bitlen_nat q"
  define e where "e = int ?b - int ?c - 53"
  obtain n d where s: "scale_frac p q e = (n, d)" by (cases "scale_frac p q e")
  note v = scale_frac_value [OF assms(2) s]
  have "2 ^ (?b - 1) \<le> p" "q < 2 ^ ?c" "0 < ?b" using bitlen_nat_bounds assms by auto
  then have "(2 ^ (?b - 1) :: rat) \<le> of_nat p" "of_nat q < (2 ^ ?c :: rat)"
    by (metis of_nat_le_iff of_nat_numeral of_nat_power, metis of_nat_less_iff of_nat_numeral of_nat_power)
  then have "(2 ^ (?b - 1) / 2 ^ ?c :: rat) \<le> of_nat p / of_nat q"
    using assms by (intro frac_le) auto
  moreover have "(2 ^ (?b - 1) / 2 ^ ?c :: rat) = 2 powi (e + 52)"
  proof -
    have "e + 52 = int (?b - 1) - int ?c" using \<open>0 < ?b\<close> by (simp add: e_def)
    then show ?thesis by (simp add: power_int_diff)
  qed
  ultimately have "2 powi (e + 52) * 2 powi (- e) \<le> (of_nat p / of_nat q * 2 powi (- e) :: rat)"
    by (intro mult_right_mono) simp_all
  moreover have "(2 powi (e + 52) * 2 powi (- e) :: rat) = 2 ^ 52" unfolding powi_add by simp
  ultimately have low: "(2 ^ 52 :: rat) \<le> of_nat p / of_nat q * 2 powi (- e)" by simp
  show ?thesis
  proof (cases "n < d * 2 ^ 53")
    case True
    then have "double_exponent p q = e" using s by (simp add: double_exponent_def e_def Let_def)
    with low show ?thesis by simp
  next
    case False
    then have "double_exponent p q = e + 1" using s by (simp add: double_exponent_def e_def Let_def)
    from False have "2 ^ 53 * d \<le> n" by (simp add: mult.commute)
    then have "(of_nat (2 ^ 53 * d) :: rat) \<le> of_nat n" by (simp only: of_nat_le_iff)
    then have "(2 ^ 53 :: rat) * of_nat d \<le> of_nat n" by simp
    moreover from v have "(0 :: rat) < of_nat d" by simp
    ultimately have "(2 ^ 53 :: rat) \<le> of_nat n / of_nat d" by (subst pos_le_divide_eq)
    with v have "(2 ^ 53 :: rat) \<le> of_nat p / of_nat q * 2 powi (- e)" by simp
    then have "(2 ^ 53 :: rat) * 2 powi (- 1) \<le> of_nat p / of_nat q * 2 powi (- e) * 2 powi (- 1)"
      by (intro mult_right_mono) simp_all
    moreover have "(2 powi (- (e + 1)) :: rat) = 2 powi (- e) * 2 powi (- 1)"
      unfolding powi_add by simp
    moreover have "(2 ^ 53 :: rat) * 2 powi (- 1) = 2 ^ 52" by simp
    ultimately show ?thesis unfolding \<open>double_exponent p q = e + 1\<close> by (simp only: mult.assoc)
  qed
qed

text \<open>The rounding error of one operation: half a unit in the last of 53 places.\<close>

lemma double_of_frac_error:
  assumes "0 < q"
  shows "\<bar>double_of_frac p q - of_nat p / of_nat q\<bar> \<le> of_nat p / of_nat q / 2 ^ 53"
proof (cases "p = 0")
  case True
  then show ?thesis by (simp add: double_of_frac_def)
next
  case False
  define e where "e = double_exponent p q"
  obtain n d where s: "scale_frac p q e = (n, d)" by (cases "scale_frac p q e")
  define x where "x = (of_nat p / of_nat q :: rat)"
  define y where "y = (of_nat n / of_nat d :: rat)"
  define m where "m = (of_nat (round_half_even n d) :: rat)"
  have y: "y = x * 2 powi (- e)" and d: "0 < d"
    using scale_frac_value [OF assms s] by (simp_all add: x_def y_def)
  have yx: "y * 2 powi e = x" unfolding y mult.assoc powi_add by simp
  have big: "2 ^ 52 \<le> y" using double_exponent_significand [of p q] False assms by (simp add: y x_def e_def)
  have "\<bar>m - y\<bar> \<le> 1 / 2" using round_half_even_error [OF d, of n] by (simp add: m_def y_def)
  also have "1 / 2 \<le> y / 2 ^ 53" using big by (simp add: field_simps)
  finally have "\<bar>m - y\<bar> * 2 powi e \<le> y / 2 ^ 53 * 2 powi e" by (intro mult_right_mono) simp_all
  moreover have "\<bar>m - y\<bar> * 2 powi e = \<bar>m * 2 powi e - x\<bar>"
    unfolding yx [symmetric] left_diff_distrib [symmetric] abs_mult by simp
  moreover have "y / 2 ^ 53 * 2 powi e = x / 2 ^ 53" unfolding yx [symmetric] by simp
  moreover have "double_of_frac p q = m * 2 powi e"
    using False s by (simp add: double_of_frac_def m_def e_def Let_def)
  ultimately show ?thesis by (simp add: x_def)
qed

lemma round_double_error: "\<bar>round_double x - x\<bar> \<le> \<bar>x\<bar> / 2 ^ 53"
proof -
  obtain p q where pq: "quotient_of x = (p, q)" by (cases "quotient_of x")
  then have q: "0 < q" and x: "x = of_int p / of_int q"
    using quotient_of_denom_pos quotient_of_div by auto
  show ?thesis
  proof (cases "p < 0")
    case True
    define y where "y = (of_nat (nat (- p)) / of_nat (nat q) :: rat)"
    define r where "r = double_of_frac (nat (- p)) (nat q)"
    have "x = - y" using q x True by (simp add: y_def)
    moreover have "\<bar>r - y\<bar> \<le> y / 2 ^ 53" "0 \<le> y"
      using double_of_frac_error [of "nat q" "nat (- p)"] q by (simp_all add: r_def y_def)
    moreover have "round_double x = - r" using True pq by (simp add: round_double_def r_def)
    ultimately show ?thesis by (simp add: abs_minus_commute)
  next
    case False
    then have x': "x = of_nat (nat p) / of_nat (nat q)" using q x by simp
    moreover have "0 \<le> x" unfolding x' by simp
    ultimately show ?thesis using False pq double_of_frac_error [of "nat q" "nat p"] q
      by (simp add: round_double_def)
  qed
qed

section \<open>The loop\<close>

text \<open>
  The literals of the code as doubles; the quotient of the interval by the measured seconds, where
  None is the infinity that a division by zero gives (the numerator is positive there, since the
  two then differ by more than 2).
\<close>

definition adjust_start :: rat where "adjust_start = round_double (10001 / 10000)"
definition adjust_low :: rat where "adjust_low = round_double (1 / 10)"
definition adjust_high :: rat where "adjust_high = round_double (1001 / 1000)"

definition measured_quotient :: "32 word \<Rightarrow> int \<Rightarrow> rat option" where
  "measured_quotient intv elapsed =
     (if elapsed = 0 then None
      else Some (round_double (of_int (uint intv) / round_double (of_int elapsed))))"

definition next_adjust :: "32 word \<Rightarrow> int \<Rightarrow> rat \<Rightarrow> rat" where
  "next_adjust intv elapsed adjust =
     (if \<bar>elapsed - uint intv\<bar> > 2 then
        case measured_quotient intv elapsed of
          None \<Rightarrow> adjust_high
        | Some a \<Rightarrow> if a < adjust_low \<or> a > adjust_high then adjust_high else a
      else adjust)"

text \<open>\<^verbatim>\<open>delay.tv_sec=interval*adjust\<close>, the fraction cut off.\<close>

definition delay_secs :: "32 word \<Rightarrow> rat \<Rightarrow> int" where
  "delay_secs intv adjust = \<lfloor>round_double (of_int (uint intv) * adjust)\<rfloor>"

text \<open>\<^verbatim>\<open>adjust\<close> after sleeps that the clock measured as \<open>es\<close> seconds (the clock may be set meanwhile).\<close>

definition adjust_after :: "32 word \<Rightarrow> int list \<Rightarrow> rat" where
  "adjust_after intv es = foldl (\<lambda>a e. next_adjust intv e a) adjust_start es"

abbreviation unit_error :: rat where "unit_error \<equiv> 1 / 9007199254740992"

lemma round_double_near:
  assumes "0 \<le> x"
  shows "x - x * unit_error \<le> round_double x" "round_double x \<le> x + x * unit_error"
proof -
  have "\<bar>round_double x - x\<bar> \<le> x * unit_error" using round_double_error [of x] assms by simp
  then show "x - x * unit_error \<le> round_double x" "round_double x \<le> x + x * unit_error" by linarith+
qed

lemma adjust_bounds: "adjust_low \<le> adjust_start" "adjust_start \<le> adjust_high" "adjust_low \<le> adjust_high"
  using round_double_near [of "1 / 10"] round_double_near [of "10001 / 10000"] round_double_near [of "1001 / 1000"]
  by (simp_all add: adjust_low_def adjust_start_def adjust_high_def)

lemma next_adjust_bounds:
  assumes "adjust_low \<le> a" "a \<le> adjust_high"
  shows "adjust_low \<le> next_adjust intv e a \<and> next_adjust intv e a \<le> adjust_high"
  using assms adjust_bounds(3) by (auto simp: next_adjust_def split: option.split)

lemma adjust_after_bounds: "adjust_low \<le> adjust_after intv es \<and> adjust_after intv es \<le> adjust_high"
proof (induction es rule: rev_induct)
  case Nil
  then show ?case using adjust_bounds by (simp add: adjust_after_def)
next
  case (snoc e es)
  with next_adjust_bounds show ?case by (simp add: adjust_after_def)
qed

lemma delay_secs_bounds:
  assumes "adjust_low \<le> a" "a \<le> adjust_high"
  shows "uint intv div 10 - 1 \<le> delay_secs intv a \<and> delay_secs intv a \<le> uint intv + uint intv div 1000 \<and> 0 \<le> delay_secs intv a"
proof -
  define n where "n = uint intv"
  define x where "x = (of_int n :: rat)"
  have n: "0 \<le> n" "n < 4294967296" using uint_lt2p [of intv] by (simp_all add: n_def)
  then have x: "0 \<le> x" "x < 4294967296" by (simp_all add: x_def)
  have low: "99999 / 1000000 \<le> a" and lo: "1 / 10 - 1 / 10 * unit_error \<le> a"
    and high: "a \<le> 1001 / 1000 + 1001 / 1000 * unit_error"
    using assms round_double_near [of "1 / 10"] round_double_near [of "1001 / 1000"]
    by (simp_all add: adjust_low_def adjust_high_def)
  have xa: "0 \<le> x * a" using x low by simp
  have "x * (1 / 10 - 1 / 10 * unit_error) \<le> x * a" using x(1) lo by (rule mult_left_mono [rotated])
  then have l: "x / 10 - x * unit_error / 10 \<le> x * a" by (simp add: algebra_simps)
  have "x * a \<le> x * (1001 / 1000 + 1001 / 1000 * unit_error)" using x(1) high by (rule mult_left_mono [rotated])
  then have h: "x * a \<le> x + x / 1000 + 2 * x * unit_error" using x(1) by (simp add: algebra_simps)
  define w where "w = x * a"
  have w: "0 \<le> w" "x / 10 - x * unit_error / 10 \<le> w" "w \<le> x + x / 1000 + 2 * x * unit_error"
    using xa l h by (simp_all add: w_def)
  note r = round_double_near [OF w(1)]
  have nonneg: "0 \<le> round_double w" using r(1) w(1) by linarith
  have "round_double w \<le> x + x / 1000 + 1 / 2000" using r(2) w(3) x by linarith
  moreover have "x / 10 - 1 / 2000 \<le> round_double w" using r(1) w x by linarith
  moreover have "(of_int (n div 1000) :: rat) \<ge> x / 1000 - 999 / 1000" and "(of_int (n div 10) :: rat) \<le> x / 10"
  proof -
    have "n \<le> 1000 * (n div 1000) + 999" "10 * (n div 10) \<le> n" by simp_all
    then have "(of_int n :: rat) \<le> of_int (1000 * (n div 1000) + 999)" "(of_int (10 * (n div 10)) :: rat) \<le> of_int n"
      by (simp_all only: of_int_le_iff)
    then show "(of_int (n div 1000) :: rat) \<ge> x / 1000 - 999 / 1000" "(of_int (n div 10) :: rat) \<le> x / 10"
      by (simp_all add: x_def)
  qed
  ultimately have "round_double w < of_int (n + n div 1000) + 1" "of_int (n div 10 - 1) \<le> round_double w"
    by (simp_all add: x_def)
  moreover have "delay_secs intv a = \<lfloor>round_double w\<rfloor>" by (simp add: delay_secs_def w_def x_def n_def)
  ultimately show ?thesis using nonneg by (simp add: le_floor_iff floor_le_iff n_def)
qed

text \<open>
  C32. The pace of a class stays within bounds whatever the clock does, also when it is set back or
  stands still: the factor stays between 0.1 and 1.001, and the sleep before the next round is
  never longer than the interval plus a thousandth of it (so for intervals below 1000 seconds
  never longer than the interval), never shorter than a tenth of it by more than a second, and
  never negative.
\<close>

theorem pace_bounds:
  "adjust_low \<le> adjust_after intv es \<and> adjust_after intv es \<le> adjust_high \<and>
   uint intv div 10 - 1 \<le> delay_secs intv (adjust_after intv es) \<and> 0 \<le> delay_secs intv (adjust_after intv es) \<and>
   delay_secs intv (adjust_after intv es) \<le> uint intv + uint intv div 1000"
  using adjust_after_bounds [of intv es] delay_secs_bounds [of "adjust_after intv es" intv] by blast

section \<open>Recovery\<close>

lemma adjust_high_near: "1001 / 1000 - unit_error * 2 \<le> adjust_high" "adjust_high \<le> 1001 / 1000 + unit_error * 2"
  using round_double_near [of "1001 / 1000"] by (simp_all add: adjust_high_def)

text \<open>With the largest factor an interval below 1000 seconds is slept exactly.\<close>

lemma delay_secs_high:
  assumes "uint intv < 1000"
  shows "delay_secs intv adjust_high = uint intv"
proof -
  have "uint intv \<le> delay_secs intv adjust_high"
  proof (cases "uint intv = 0")
    case False
    define x where "x = (of_int (uint intv) :: rat)"
    from False have "1 \<le> uint intv" using uint_ge_0 [of intv] by linarith
    then have x: "1 \<le> x" by (simp only: x_def of_int_1_le_iff)
    define w where "w = x * adjust_high"
    have "x * (1001 / 1000 - unit_error * 2) \<le> w"
      unfolding w_def using x adjust_high_near(1) by (intro mult_left_mono) simp_all
    then have w: "x + x / 1000 - 2 * x * unit_error \<le> w" by (simp add: algebra_simps)
    then have "0 \<le> w" using x by linarith
    from round_double_near(1) [OF this] w x have "x \<le> round_double w" by linarith
    then show ?thesis by (simp add: delay_secs_def le_floor_iff w_def x_def)
  qed (use delay_secs_bounds [OF adjust_bounds(3) order_refl, of intv] in simp)
  with delay_secs_bounds [OF adjust_bounds(3) order_refl, of intv] assms show ?thesis by simp
qed

text \<open>A sleep that was more than 2 seconds short makes the quotient absurd.\<close>

lemma short_sleep_resets:
  assumes "uint intv < 1000" "0 \<le> e" "e < uint intv - 2"
  shows "next_adjust intv e a = adjust_high"
proof (cases "e = 0")
  case True
  with assms show ?thesis by (simp add: next_adjust_def measured_quotient_def)
next
  case False
  define x y where "x = (of_int (uint intv) :: rat)" and "y = (of_int e :: rat)"
  from False assms have e: "1 \<le> e" "e \<le> uint intv - 3" by auto
  have "(of_int e :: rat) \<le> of_int (uint intv - 3)" "(of_int (uint intv) :: rat) < of_int 1000"
    using e(2) assms(1) by (simp_all only: of_int_le_iff of_int_less_iff)
  with e(1) have y: "1 \<le> y" "y \<le> x - 3" "x < 1000" by (simp_all add: x_def y_def)
  define r where "r = round_double y"
  have r: "y - y * unit_error \<le> r" "r \<le> y + y * unit_error"
    using round_double_near [of y] y by (simp_all add: r_def)
  then have pos: "0 < r" using y by linarith
  have "r * (1002 / 1000) \<le> x" using r y by linarith
  then have q: "1002 / 1000 \<le> x / r" using pos by (subst pos_le_divide_eq) (simp_all add: mult.commute)
  define z where "z = x / r"
  from q have z: "1002 / 1000 \<le> z" by (simp add: z_def)
  then have "0 \<le> z" by linarith
  from round_double_near(1) [OF this] z have "10015 / 10000 \<le> round_double (x / r)" unfolding z_def [symmetric] by linarith
  then have "adjust_high < round_double (x / r)" using adjust_high_near(2) by linarith
  with assms False show ?thesis
    by (simp add: next_adjust_def measured_quotient_def x_def y_def r_def)
qed

text \<open>The pace recovers: whatever the clock has done to the factor, as soon as one sleep takes as long
  as it was asked to, the next one is within 2 seconds of an interval below 1000 seconds, and while
  the sleeps stay exact the factor does not change any more; so a disturbance costs one round.
\<close>

theorem pace_recovers:
  assumes "uint intv < 1000"
    and "a = adjust_after intv es" "a' = next_adjust intv (delay_secs intv a) a"
  shows "\<bar>delay_secs intv a' - uint intv\<bar> \<le> 2 \<and> next_adjust intv (delay_secs intv a') a' = a'"
proof (cases "\<bar>delay_secs intv a - uint intv\<bar> > 2")
  case False
  with assms(3) show ?thesis by (simp add: next_adjust_def)
next
  case True
  from adjust_after_bounds [of intv es] assms(1,2) delay_secs_bounds [of a intv] have
    "0 \<le> delay_secs intv a" "delay_secs intv a \<le> uint intv" by simp_all
  with True have "delay_secs intv a < uint intv - 2" by simp
  with short_sleep_resets [OF assms(1) \<open>0 \<le> delay_secs intv a\<close>] assms(3) have "a' = adjust_high" by simp
  with delay_secs_high [OF assms(1)] show ?thesis by (simp add: next_adjust_def)
qed

text \<open>A sleep that took no time, since the clock was set back meanwhile.\<close>

theorem pace_recovers_witness:
  "\<bar>delay_secs 60 (next_adjust 60 (delay_secs 60 (adjust_after 60 [0])) (adjust_after 60 [0])) - 60\<bar> \<le> 2 \<and>
   adjust_after 60 [0] = adjust_high"
proof -
  have "adjust_after 60 [0] = adjust_high" by (simp add: adjust_after_def next_adjust_def measured_quotient_def)
  with pace_recovers [of 60 _ "[0]", OF _ refl refl] show ?thesis by simp
qed

end
