(* ===== verification/Collector_Start.thy ===== *)
theory Collector_Start
  imports Snapp_Control
begin

text \<open>
  \<^verbatim>\<open>sql-collector.cpp\<close> up to the reload loop: the command line, the two stages of becoming a
  daemon, the control socket, the first configuration and the change of user. What \<^verbatim>\<open>getopt_long\<close>
  and the system calls return is a parameter; the model is the list of what the process did and how
  it ended up.
\<close>

section \<open>The command line\<close>

text \<open>One value \<^verbatim>\<open>getopt_long\<close> returns, with \<^verbatim>\<open>optarg\<close>; a long option without a letter gives 0.\<close>

datatype getopt_result =
  Opt_long string | Opt_digit char | Opt_f | Opt_c string | Opt_u string | Opt_h | Opt_unknown int

text \<open>
  The code tells the default user from a given one by comparing pointers, so \<^verbatim>\<open>-u apache\<close> differs
  from no \<^verbatim>\<open>-u\<close> at all.
\<close>

datatype username_ptr = Default_run_username | Optarg string

record 're main_options =
  deamonize :: bool
  config_name :: string
  run_username :: username_ptr
  main_log :: "'re log_state"

definition main_defaults :: "'re log_state \<Rightarrow> 're main_options" where
  "main_defaults log = \<lparr>deamonize = True, config_name = ''snapp_config.xml'',
     run_username = Default_run_username, main_log = snd (set_log_level log LOG_NOTICE)\<rparr>"

definition long_option :: "string \<Rightarrow> 're log_state \<Rightarrow> 're log_state" where
  "long_option name log =
     (let log1 = (if name = ''verbose'' then snd (set_log_level log LOG_INFO) else log)
      in if name = ''debug'' then snd (set_log_level log1 LOG_DEBUG) else log1)"

text \<open>\<open>Inl\<close> is \<^verbatim>\<open>exit\<close> with that status.\<close>

fun process_options :: "getopt_result list \<Rightarrow> 're main_options \<Rightarrow> int + 're main_options" where
  "process_options [] mo = Inr mo"
| "process_options (Opt_long name # cs) mo =
     process_options cs (mo\<lparr>main_log := long_option name (main_log mo)\<rparr>)"
| "process_options (Opt_f # cs) mo = process_options cs (mo\<lparr>deamonize := False\<rparr>)"
| "process_options (Opt_c arg # cs) mo = process_options cs (mo\<lparr>config_name := arg\<rparr>)"
| "process_options (Opt_u arg # cs) mo = process_options cs (mo\<lparr>run_username := Optarg arg\<rparr>)"
| "process_options (Opt_h # cs) mo = Inl 0"
| "process_options (Opt_digit c # cs) mo = process_options cs mo"
| "process_options (Opt_unknown c # cs) mo = process_options cs mo"

section \<open>Becoming a daemon\<close>

datatype fork_result = Fork_failed | Fork_parent | Fork_child

text \<open>
  \<open>child_dies\<close>: after how many seconds the child of the process at hand dies, if ever.
  \<open>nofile\<close>: None is a failing \<^verbatim>\<open>getrlimit\<close>, \<open>Some None\<close> is \<^verbatim>\<open>RLIM_INFINITY\<close>.
\<close>

record daemon_env =
  sigchld_ok :: bool
  fork1 :: fork_result
  parent_sigchld_ok :: bool
  setsid_ok :: bool
  fork2 :: fork_result
  child_dies :: "nat option"
  nofile :: "nat option option"

definition GRANDPARENT_SLEEP_SECS :: nat where "GRANDPARENT_SLEEP_SECS = 5"

text \<open>
  \<^verbatim>\<open>sleep(n); exit(0)\<close> under \<open>parent_sig_handler_silent\<close>, which exits with a failure as soon as the
  child dies: when the process ends and with what status.
\<close>

definition waiting_parent :: "nat \<Rightarrow> nat option \<Rightarrow> nat \<times> int" where
  "waiting_parent n death =
     (case death of None \<Rightarrow> (n, 0) | Some t \<Rightarrow> if t < n then (t, 1) else (n, 0))"

text \<open>
  \<open>log_filename\<close> is always null, so the branch that opens a log file is dead. The counter of the
  closing loop is a 32-bit one: a limit it cannot reach makes the loop endless (None).
\<close>

definition do_deamonize :: "daemon_env \<Rightarrow> 're log_state \<Rightarrow> (int + nat \<times> 're log_state) option" where
  "do_deamonize env log =
     (if \<not> sigchld_ok env then Some (Inl 1)
      else case fork1 env of
        Fork_failed \<Rightarrow> Some (Inl 1)
      | Fork_parent \<Rightarrow>
          if \<not> parent_sigchld_ok env then Some (Inl 1)
          else Some (Inl (snd (waiting_parent GRANDPARENT_SLEEP_SECS (child_dies env))))
      | Fork_child \<Rightarrow>
          if \<not> setsid_ok env then Some (Inl 1)
          else case fork2 env of
            Fork_failed \<Rightarrow> Some (Inl 1)
          | Fork_parent \<Rightarrow> Some (Inl (snd (waiting_parent (GRANDPARENT_SLEEP_SECS + 2) (child_dies env))))
          | Fork_child \<Rightarrow>
              (case nofile env of
                 None \<Rightarrow> Some (Inl 1)
               | Some lim \<Rightarrow>
                   let rlim_max = (case lim of None \<Rightarrow> 1024 | Some n \<Rightarrow> n)
                   in if 2 ^ 32 \<le> rlim_max then None
                      else Some (Inr (rlim_max, log\<lparr>syslog_ready := True\<rparr>))))"

definition pid_filename :: "string \<Rightarrow> string" where
  "pid_filename pid_dir = take 510 (c_str pid_dir @ ''/PID'')"

text \<open>The name and the content of the file, or the exit when it cannot be opened.\<close>

definition make_pid_file :: "(string \<Rightarrow> bool) \<Rightarrow> nat \<Rightarrow> string \<Rightarrow> int + string \<times> string" where
  "make_pid_file fopen_ok pid pid_dir =
     (if fopen_ok (pid_filename pid_dir) then Inr (pid_filename pid_dir, show_nat pid) else Inl 1)"

text \<open>The name the log is opened under.\<close>

definition deamonize2 :: "string \<Rightarrow> string result" where
  "deamonize2 in_collector_name =
     read_buf (strncpy (replicate STD_STRING_SIZE nul) in_collector_name (STD_STRING_SIZE - 1))"

section \<open>The control socket and the user\<close>

record socket_env =
  socket_ok :: bool
  setsockopt_ok :: bool
  bind_ok :: "16 word \<Rightarrow> bool"
  listen_ok :: bool

text \<open>\<^verbatim>\<open>htons\<close> keeps the low 16 bits of the configured port.\<close>

definition initialize_socket :: "socket_env \<Rightarrow> 32 word \<Rightarrow> int + 16 word" where
  "initialize_socket env listen_port =
     (let p = ucast listen_port
      in if socket_ok env \<and> setsockopt_ok env \<and> bind_ok env p \<and> listen_ok env then Inr p else Inl 1)"

record credentials =
  cr_uid :: nat
  cr_gid :: nat
  cr_groups :: "nat list"

record user_env =
  getpwnam :: "string \<Rightarrow> (nat \<times> nat) option"
  setgid_ok :: bool
  setuid_ok :: bool

definition drop_privileges :: "user_env \<Rightarrow> username_ptr \<Rightarrow> credentials \<Rightarrow> int + credentials" where
  "drop_privileges env who cr =
     (case who of
        Default_run_username \<Rightarrow> Inr cr
      | Optarg name \<Rightarrow>
          if cr_uid cr \<noteq> 0 then Inl 1
          else case getpwnam env name of
            None \<Rightarrow> Inl 1
          | Some (uid, gid) \<Rightarrow>
              if setgid_ok env \<and> setuid_ok env then Inr (cr\<lparr>cr_uid := uid, cr_gid := gid\<rparr>) else Inl 1)"

section \<open>A configuration\<close>

text \<open>
  Everything outside the program that one \<open>new Snapp_config\<close>, \<open>load_config\<close> and \<open>init_config\<close> meet:
  the memory of the new object, the file, the database, the file system and the network.
\<close>

record 'f config_env =
  ce_memory :: xml_config
  ce_garbage :: "32 word"
  ce_junk :: "32 word \<times> 32 word"
  ce_doc :: "string \<Rightarrow> xml_doc"
  ce_db :: database
  ce_ops :: "'f fs_ops"
  ce_snmp :: snmp_of
  ce_pcre :: value_matcher
  ce_sessions :: nat
  ce_fs :: 'f

definition fresh_config :: "xml_config \<Rightarrow> snapp_config" where
  "fresh_config memory = \<lparr>host_table = empty_host_table, sequence_db = empty_sequence_db,
     collection_class = [], rrd_dir = [], sc_xml = memory\<rparr>"

definition load_new :: "'f config_env \<Rightarrow> string \<Rightarrow> snapp_config option result option" where
  "load_new ce name =
     load_config (ce_garbage ce) (ce_junk ce) (ce_doc ce (c_str name)) (ce_db ce) (fresh_config (ce_memory ce))"

definition init_new :: "'f config_env \<Rightarrow> snapp_config \<Rightarrow> (snapp_config \<times> pool list \<times> 'f) option result option" where
  "init_new ce c = init_config (ce_ops ce) (ce_snmp ce) (ce_pcre ce) (ce_sessions ce) c (ce_fs ce)"

section \<open>From the command line to the loop\<close>

datatype startup_event =
    Ev_closed_below nat
  | Ev_signals_blocked
  | Ev_signal_thread
  | Ev_sessions nat
  | Ev_writers rrd_writer
  | Ev_loaded snapp_config
  | Ev_openlog string
  | Ev_listening "16 word"
  | Ev_pid_file string string
  | Ev_running_as credentials
  | Ev_control_threads string
  | Ev_initialized snapp_config "pool list"

text \<open>
  \<^verbatim>\<open>start_signaling_handler\<close> blocks every signal and then starts the thread that waits for them; the
  mask is inherited by every thread started later.
\<close>

definition start_signaling_handler :: "startup_event list" where
  "start_signaling_handler = [Ev_signals_blocked, Ev_signal_thread]"

text \<open>How the process stands: ended with a status, dead by a failure, stuck, or going on.\<close>

datatype 'a progress = Exited int | Crashed failure | Stuck | Going 'a

type_synonym 'a startup = "startup_event list \<times> 'a progress"

definition and_then :: "'a startup \<Rightarrow> ('a \<Rightarrow> 'b startup) \<Rightarrow> 'b startup" where
  "and_then m f =
     (case snd m of
        Exited n \<Rightarrow> (fst m, Exited n) | Crashed e \<Rightarrow> (fst m, Crashed e) | Stuck \<Rightarrow> (fst m, Stuck)
      | Going x \<Rightarrow> (fst m @ fst (f x), snd (f x)))"

definition did :: "startup_event list \<Rightarrow> 'a \<Rightarrow> 'a startup" where
  "did es x = (es, Going x)"

definition or_exit :: "int + 'a \<Rightarrow> 'a startup" where
  "or_exit r = ([], case r of Inl n \<Rightarrow> Exited n | Inr x \<Rightarrow> Going x)"

definition or_crash :: "'a result \<Rightarrow> 'a startup" where
  "or_crash r = ([], case r of Inl e \<Rightarrow> Crashed e | Inr x \<Rightarrow> Going x)"

text \<open>A call that may fail with a negative value, after which \<^verbatim>\<open>main\<close> ends with status \<open>n\<close>.\<close>

definition or_fail :: "int \<Rightarrow> 'a option result option \<Rightarrow> 'a startup" where
  "or_fail n r =
     ([], case r of None \<Rightarrow> Stuck | Some (Inl e) \<Rightarrow> Crashed e
        | Some (Inr None) \<Rightarrow> Exited n | Some (Inr (Some x)) \<Rightarrow> Going x)"

record 'f startup_env =
  st_daemon :: daemon_env
  st_stack :: "nat \<Rightarrow> char list"
  st_config :: "'f config_env"
  st_socket :: socket_env
  st_fopen_ok :: "string \<Rightarrow> bool"
  st_pid :: nat
  st_user :: user_env
  st_credentials :: credentials

definition daemon_stage :: "'f startup_env \<Rightarrow> 're main_options \<Rightarrow> 're log_state startup" where
  "daemon_stage env mo =
     (if deamonize mo then
        (case do_deamonize (st_daemon env) (main_log mo) of
           None \<Rightarrow> ([], Stuck)
         | Some (Inl n) \<Rightarrow> ([], Exited n)
         | Some (Inr (n, log)) \<Rightarrow> did [Ev_closed_below n] log)
      else did [] (main_log mo))"

definition init_globals :: nat where "init_globals = 800"

definition log_name_stage :: "'re main_options \<Rightarrow> snapp_config \<Rightarrow> unit startup" where
  "log_name_stage mo c =
     (if deamonize mo then
        and_then (or_crash (read_buf (collector_name (sc_xml c)))) (\<lambda>name.
        and_then (or_crash (deamonize2 name)) (\<lambda>n. did [Ev_openlog n] ()))
      else did [] ())"

definition pid_stage :: "'f startup_env \<Rightarrow> 're main_options \<Rightarrow> snapp_config \<Rightarrow> unit startup" where
  "pid_stage env mo c =
     (if deamonize mo then
        and_then (or_exit (make_pid_file (st_fopen_ok env) (st_pid env) (rrd_dir c)))
          (\<lambda>(name, text). did [Ev_pid_file name text] ())
      else did [] ())"

text \<open>\<^verbatim>\<open>main\<close>, with the values of \<^verbatim>\<open>getopt_long\<close>, up to the loop.\<close>

definition main_startup ::
  "'f startup_env \<Rightarrow> getopt_result list \<Rightarrow> 're log_state \<Rightarrow> (snapp_config \<times> 're log_state) startup" where
  "main_startup env args log0 =
     and_then (or_exit (process_options args (main_defaults log0))) (\<lambda>mo.
     and_then (daemon_stage env mo) (\<lambda>log.
     and_then (did (start_signaling_handler @ [Ev_sessions init_globals,
                    Ev_writers (snd (initialize (st_stack env) None fresh_writer))]) ()) (\<lambda>_.
     and_then (or_fail 255 (load_new (st_config env) (config_name mo))) (\<lambda>c.
     and_then (did [Ev_loaded c] ()) (\<lambda>_.
     and_then (log_name_stage mo c) (\<lambda>_.
     and_then (or_crash (read_buf (enable_password (control (sc_xml c))))) (\<lambda>pw.
     and_then (or_exit (initialize_socket (st_socket env) (control_port (control (sc_xml c))))) (\<lambda>p.
     and_then (did [Ev_listening p] ()) (\<lambda>_.
     and_then (pid_stage env mo c) (\<lambda>_.
     and_then (or_exit (drop_privileges (st_user env) (run_username mo) (st_credentials env))) (\<lambda>cr.
     and_then (did [Ev_running_as cr, Ev_control_threads pw] ()) (\<lambda>_.
     and_then (or_fail 1 (init_new (st_config env) c)) (\<lambda>(c', pools, _).
     did [Ev_initialized c' pools] (c', log))))))))))))))"

section \<open>The launcher's status\<close>

text \<open>
  The status of the command that starts the daemon: the shell sees a failure exactly when the
  daemon dies in its first five seconds, although two processes stand between them; the middle one
  waits longer than the first, so its own end is not taken for a failure.
\<close>

theorem launcher_reports_early_death:
  assumes "sigchld_ok env" "parent_sigchld_ok env" "fork1 env = Fork_parent"
    and "child_dies env = Some (fst (waiting_parent (GRANDPARENT_SLEEP_SECS + 2) d))"
  shows "do_deamonize env log =
    Some (Inl (if \<exists>t. d = Some t \<and> t < GRANDPARENT_SLEEP_SECS then 1 else 0))"
  using assms by (auto simp: do_deamonize_def waiting_parent_def GRANDPARENT_SLEEP_SECS_def split: option.split)

theorem launcher_reports_early_death_witness:
  "\<exists>env. child_dies env = Some 3 \<and> do_deamonize env (initial_log :: unit log_state) = Some (Inl 1)"
proof -
  let ?env = "\<lparr>sigchld_ok = True, fork1 = Fork_parent, parent_sigchld_ok = True, setsid_ok = True,
    fork2 = Fork_child, child_dies = Some 3, nofile = None\<rparr>"
  have "do_deamonize ?env (initial_log :: unit log_state) = Some (Inl 1)"
    using launcher_reports_early_death [of ?env "Some 3" initial_log]
    by (simp add: waiting_parent_def GRANDPARENT_SLEEP_SECS_def)
  then show ?thesis by (intro exI [of _ ?env]) simp
qed

section \<open>What a running collector has done\<close>

lemma and_then_Going:
  "and_then m f = (es, Going y) \<longleftrightarrow>
   (\<exists>es1 x es2. m = (es1, Going x) \<and> f x = (es2, Going y) \<and> es = es1 @ es2)"
  by (cases m; cases "snd m"; cases "f (case snd m of Going x \<Rightarrow> x)") (auto simp: and_then_def)

lemma startup_atoms:
  "did es x = (es', Going y) \<longleftrightarrow> es' = es \<and> y = x"
  "or_exit r = (es', Going z) \<longleftrightarrow> es' = [] \<and> r = Inr z"
  "or_crash q = (es', Going w) \<longleftrightarrow> es' = [] \<and> q = Inr w"
  "or_fail n p = (es', Going v) \<longleftrightarrow> es' = [] \<and> p = Some (Inr (Some v))"
  by (auto simp: did_def or_exit_def or_crash_def or_fail_def split: sum.splits option.splits)

lemmas startup_simps = and_then_Going startup_atoms

text \<open>The users named on the command line, and the events that precede the change of user.\<close>

fun users :: "getopt_result list \<Rightarrow> string list" where
  "users [] = []"
| "users (Opt_u u # cs) = u # users cs"
| "users (_ # cs) = users cs"

fun preparing :: "startup_event \<Rightarrow> bool" where
  "preparing (Ev_running_as _) = False"
| "preparing (Ev_control_threads _) = False"
| "preparing (Ev_initialized _ _) = False"
| "preparing _ = True"

lemma process_options_u:
  "process_options args mo = Inr mo' \<Longrightarrow>
   run_username mo' = (if users args = [] then run_username mo else Optarg (last (users args)))"
  by (induction args mo rule: process_options.induct) (auto split: if_splits)

lemma preparing_stages:
  "daemon_stage env mo = (es, Going log) \<Longrightarrow> list_all preparing es"
  "log_name_stage mo c = (es', Going u) \<Longrightarrow> list_all preparing es'"
  "pid_stage env mo c = (es'', Going v) \<Longrightarrow> list_all preparing es''"
  by (auto simp: daemon_stage_def log_name_stage_def pid_stage_def startup_simps
      split: if_splits option.splits sum.splits)

lemma drop_privileges_Inr:
  "drop_privileges env who cr = Inr cr' \<longleftrightarrow>
   (case who of
      Default_run_username \<Rightarrow> cr' = cr
    | Optarg name \<Rightarrow> cr_uid cr = 0 \<and> setgid_ok env \<and> setuid_ok env \<and> cr_groups cr' = cr_groups cr \<and>
        getpwnam env name = Some (cr_uid cr', cr_gid cr'))"
  by (cases cr; cases cr') (auto simp: drop_privileges_def split: username_ptr.split option.splits)

lemma startup_events:
  assumes "main_startup env args log0 = (es, Going r)"
  shows "\<exists>mo log es1 c es2 pw p es3 cr c' pools.
    process_options args (main_defaults log0) = Inr mo \<and>
    daemon_stage env mo = (es1, Going log) \<and> log_name_stage mo c = (es2, Going ()) \<and> pid_stage env mo c = (es3, Going ()) \<and>
    drop_privileges (st_user env) (run_username mo) (st_credentials env) = Inr cr \<and>
    es = es1 @ [Ev_signals_blocked, Ev_signal_thread, Ev_sessions init_globals,
        Ev_writers (snd (initialize (st_stack env) None fresh_writer)), Ev_loaded c] @ es2 @
        [Ev_listening p] @ es3 @ [Ev_running_as cr, Ev_control_threads pw, Ev_initialized c' pools]"
proof -
  from assms obtain mo log es1 c es2 pw p es3 cr c' pools f where
    "process_options args (main_defaults log0) = Inr mo"
    "daemon_stage env mo = (es1, Going log)" "log_name_stage mo c = (es2, Going ())" "pid_stage env mo c = (es3, Going ())"
    "drop_privileges (st_user env) (run_username mo) (st_credentials env) = Inr cr"
    "es = es1 @ [Ev_signals_blocked, Ev_signal_thread, Ev_sessions init_globals,
        Ev_writers (snd (initialize (st_stack env) None fresh_writer)), Ev_loaded c] @ es2 @
        [Ev_listening p] @ es3 @ [Ev_running_as cr, Ev_control_threads pw, Ev_initialized c' pools]"
    unfolding main_startup_def startup_simps start_signaling_handler_def by (auto simp: startup_atoms)
  then show ?thesis by blast
qed

text \<open>
  No thread of the collector can die of a signal that is not blocked in it: before the signals are
  blocked and their thread is started nothing but the closing of descriptors has happened.
\<close>

theorem signals_blocked_first:
  assumes "main_startup env args log0 = (es, Going r)"
  shows "\<exists>closed rest. es = closed @ start_signaling_handler @ rest \<and> (\<forall>e \<in> set closed. \<exists>n. e = Ev_closed_below n)"
proof -
  obtain mo log es1 c es2 pw p es3 cr c' pools where "process_options args (main_defaults log0) = Inr mo"
    and st: "daemon_stage env mo = (es1, Going log)" and e: "es = es1 @ [Ev_signals_blocked, Ev_signal_thread, Ev_sessions init_globals,
        Ev_writers (snd (initialize (st_stack env) None fresh_writer)), Ev_loaded c] @ es2 @
        [Ev_listening p] @ es3 @ [Ev_running_as cr, Ev_control_threads pw, Ev_initialized c' pools]"
    using startup_events [OF assms] by blast
  from e obtain rest where es: "es = es1 @ start_signaling_handler @ rest"
    by (auto simp: start_signaling_handler_def)
  from st have "\<forall>e \<in> set es1. \<exists>n. e = Ev_closed_below n"
    by (auto simp: daemon_stage_def startup_simps split: if_splits option.splits sum.splits)
  with es show ?thesis by blast
qed

text \<open>
  C29. Whose rights the collector runs with: if it gets as far as the reload loop, no thread that
  talks to the network or to clients was started, and nothing of the configuration was initialised,
  before the user was settled; with \<^verbatim>\<open>-u\<close> (the last one counts) the caller was root and the
  process has the user and group of that name, but keeps root's supplementary groups; without it
  nothing at all is dropped, root or not.
\<close>

theorem startup_credentials:
  assumes "main_startup env args log0 = (es, Going r)"
  shows "\<exists>pre cr pw c pools. es = pre @ [Ev_running_as cr, Ev_control_threads pw, Ev_initialized c pools] \<and>
    list_all preparing pre \<and>
    (if users args = [] then cr = st_credentials env
     else cr_uid (st_credentials env) = 0 \<and> cr_groups cr = cr_groups (st_credentials env) \<and>
       getpwnam (st_user env) (last (users args)) = Some (cr_uid cr, cr_gid cr))"
proof -
  obtain mo log es1 c es2 pw p es3 cr c' pools where
    mo: "process_options args (main_defaults log0) = Inr mo" and
    stages: "daemon_stage env mo = (es1, Going log)" "log_name_stage mo c = (es2, Going ())"
      "pid_stage env mo c = (es3, Going ())" and
    cr: "drop_privileges (st_user env) (run_username mo) (st_credentials env) = Inr cr" and
    es: "es = es1 @ [Ev_signals_blocked, Ev_signal_thread, Ev_sessions init_globals,
        Ev_writers (snd (initialize (st_stack env) None fresh_writer)), Ev_loaded c] @ es2 @
        [Ev_listening p] @ es3 @ [Ev_running_as cr, Ev_control_threads pw, Ev_initialized c' pools]"
    using startup_events [OF assms] by blast
  from process_options_u [OF mo] cr have "if users args = [] then cr = st_credentials env
     else cr_uid (st_credentials env) = 0 \<and> cr_groups cr = cr_groups (st_credentials env) \<and>
       getpwnam (st_user env) (last (users args)) = Some (cr_uid cr, cr_gid cr)"
    by (auto simp: drop_privileges_Inr main_defaults_def)
  with es preparing_stages(1) [OF stages(1)] preparing_stages(2) [OF stages(2)]
    preparing_stages(3) [OF stages(3)] show ?thesis
    by (intro exI [of _ "es1 @ [Ev_signals_blocked, Ev_signal_thread, Ev_sessions init_globals,
        Ev_writers (snd (initialize (st_stack env) None fresh_writer)), Ev_loaded c] @ es2 @
        [Ev_listening p] @ es3"] exI [of _ cr] exI [of _ pw] exI [of _ c'] exI [of _ pools]) simp
qed

text \<open>An environment with an empty database: a document without elements, no hosts, no collections.\<close>

definition demo_memory :: xml_config where
  "demo_memory = \<lparr>collector_name = [nul], control = \<lparr>control_port = 8000, enable_password = [nul]\<rparr>,
     xc_db = \<lparr>username = [nul], password = [nul], dbname = [nul], sqlite3_dbdir = [nul], db_host = [nul],
       db_port = [nul], driver = [nul]\<rparr>\<rparr>"

definition demo_database :: database where
  "demo_database = \<lparr>db_connect = (\<lambda>_. Connected), start_transaction = True, commit_transaction = True,
     host_rows = Some [], mapping_rows = Some [], mapping_value_rows = (\<lambda>_. None),
     collection_rows = (\<lambda>_ _. Some []), oid_rows = (\<lambda>_. Some []), rra_rows = (\<lambda>_. Some []),
     global_rows = Some []\<rparr>"

definition demo_config_env :: "unit config_env" where
  "demo_config_env = \<lparr>ce_memory = demo_memory, ce_garbage = 0, ce_junk = (0, 0),
     ce_doc = (\<lambda>_. Root_children []), ce_db = demo_database,
     ce_ops = \<lparr>stat_regular = (\<lambda>_ _. True), fs_mkdir = (\<lambda>fs _. (Mk_ok, fs)), rrd_create = (\<lambda>fs _ _ _. fs)\<rparr>,
     ce_snmp = (\<lambda>_ _. demo_lib), ce_pcre = value_pattern_match, ce_sessions = 800, ce_fs = ()\<rparr>"

lemma demo_load: "load_new demo_config_env name = Some (Inr (Some (fresh_config demo_memory)))"
  by (simp add: load_new_def load_config_def demo_config_env_def demo_database_def load_xml_config_def
      fresh_config_def connect_to_db_def then_opt_def load_hosts_def load_mapping_sequences_def
      load_collection_classes_def load_blocks.simps load_collection_class_block_def row_limit_def
      load_colection_classes_oid_def load_colection_classes_rra_def load_globals_def)

lemma demo_init: "init_new demo_config_env (fresh_config memory) = Some (Inr (Some (fresh_config memory, [], ())))"
  by (simp add: init_new_def init_config_def demo_config_env_def fresh_config_def then_opt_def
      create_missing_rrd_files_def all_collections_def empty_host_table_def map_collection_suffixes_def)

definition demo_startup_env :: "unit startup_env" where
  "demo_startup_env = \<lparr>st_daemon = \<lparr>sigchld_ok = True, fork1 = Fork_child, parent_sigchld_ok = True,
       setsid_ok = True, fork2 = Fork_child, child_dies = None, nofile = Some None\<rparr>,
     st_stack = (\<lambda>_. []), st_config = demo_config_env,
     st_socket = \<lparr>socket_ok = True, setsockopt_ok = True, bind_ok = (\<lambda>_. True), listen_ok = True\<rparr>,
     st_fopen_ok = (\<lambda>_. True), st_pid = 42,
     st_user = \<lparr>getpwnam = [''snapp'' \<mapsto> (100, 101)], setgid_ok = True, setuid_ok = True\<rparr>,
     st_credentials = \<lparr>cr_uid = 0, cr_gid = 0, cr_groups = [0]\<rparr>\<rparr>"

lemma fresh_config_fields [simp]: "sc_xml (fresh_config m) = m" "rrd_dir (fresh_config m) = []"
  by (simp_all add: fresh_config_def)

lemma demo_buffers:
  "read_buf (collector_name demo_memory) = Inr []"
  "read_buf (enable_password (control demo_memory)) = Inr []" "deamonize2 [] = Inr []"
  by (simp_all add: demo_memory_def deamonize2_def read_buf_def strncpy_def c_str_def
      takeWhile_replicate)

lemma demo_startup:
  "\<exists>es. main_startup demo_startup_env [Opt_u ''snapp''] (initial_log :: unit log_state) =
     (es, Going (fresh_config demo_memory, initial_log\<lparr>log_mask := 5, syslog_ready := True\<rparr>))"
  by (simp add: main_startup_def main_defaults_def demo_startup_env_def demo_load demo_init
      and_then_def or_exit_def or_crash_def or_fail_def did_def daemon_stage_def do_deamonize_def
      log_name_stage_def pid_stage_def make_pid_file_def initialize_socket_def
      drop_privileges_def set_log_level_def initial_log_def demo_buffers Let_def)

theorem startup_credentials_witness:
  "\<exists>es pre cr pw c pools. fst (main_startup demo_startup_env [Opt_u ''snapp''] (initial_log :: unit log_state)) = es \<and>
     es = pre @ [Ev_running_as cr, Ev_control_threads pw, Ev_initialized c pools] \<and>
     cr_uid cr = 100 \<and> cr_gid cr = 101 \<and> cr_groups cr = [0]"
proof -
  obtain es r where "main_startup demo_startup_env [Opt_u ''snapp''] (initial_log :: unit log_state) = (es, Going r)"
    using demo_startup by blast
  with startup_credentials [OF this] show ?thesis
    by (fastforce simp: demo_startup_env_def)
qed

end
