(* ===== verification/Collector_Main.thy ===== *)
theory Collector_Main
  imports Collector_Start
begin

text \<open>
  \<^verbatim>\<open>sql-collector.cpp\<close> from the loop on: the main thread that reloads the configuration every
  two hours or when it is told to, the signal thread that tells it, and the control threads that
  look at the running configuration under \<^verbatim>\<open>config_mutex\<close>, as one step relation. A configuration
  is an object with an address; \<open>configs\<close> holds those that are allocated. Shown: the running
  configuration changes only by a complete reload, no object is leaked, and what a client reads
  is alive until the process ends; when a SIGTERM ends the process, and when it is lost.
\<close>

section \<open>States\<close>

datatype signal = SIGHUP | SIGINT | SIGTERM | SIGUSR1 | SIGUSR2 | Signal int

text \<open>
  The main thread: before the lock, holding it, in \<^verbatim>\<open>pthread_cond_timedwait\<close>, woken or timed out
  but without the lock, after the wait with the lock, building a configuration (none yet, loaded,
  initialised), replacing the old one (mutex held, old one deleted), at \<^verbatim>\<open>done\<close>, after the last
  \<^verbatim>\<open>delete\<close>.
\<close>

datatype reload_pc =
  M_begin | M_holding | M_waiting | M_woken | M_timed_out | M_check | M_reload
  | M_loaded nat | M_initialized nat | M_swapping nat | M_deleted nat | M_done | M_returning

text \<open>The signal thread: in \<^verbatim>\<open>sigwait\<close>, and in the two cases that take more than one step.\<close>

datatype signal_pc = S_sigwait | S_hup_lock | S_hup_locked | S_hup_signal | S_term_signal

datatype reload_owner = By_main | By_signal_thread
datatype config_owner = Held_by_main | Held_by_control nat

record 're main_state =
  reload_at :: reload_pc
  signal_pc :: signal_pc
  pending :: "signal set"
  reload_lock :: "reload_owner option"
  config_mutex :: "config_owner option"
  in_status :: "nat set"
  system_done :: bool
  configs :: "nat \<Rightarrow> snapp_config option"
  current :: nat
  attempts :: nat
  sig_log :: "'re log_state"
  ended :: "int progress option"

datatype main_label =
  L_raise signal | L_spurious | L_wait_error | L_read "snapp_config option" | L_swap "snapp_config option" | L_step

definition main_init :: "snapp_config \<Rightarrow> 're log_state \<Rightarrow> 're main_state" where
  "main_init c log = \<lparr>reload_at = M_begin, signal_pc = S_sigwait, pending = {}, reload_lock = None,
     config_mutex = None, in_status = {}, system_done = False, configs = [0 \<mapsto> c], current = 0,
     attempts = 0, sig_log = log, ended = None\<rparr>"

section \<open>The signal thread\<close>

text \<open>The \<^verbatim>\<open>switch\<close>, up to the first call that can block or that touches another thread.\<close>

definition handle_signal :: "signal \<Rightarrow> 're main_state \<Rightarrow> 're main_state" where
  "handle_signal signo s =
     (case signo of
        SIGHUP \<Rightarrow> s\<lparr>signal_pc := S_hup_lock\<rparr>
      | SIGINT \<Rightarrow> s\<lparr>ended := Some (Exited 1)\<rparr>
      | SIGTERM \<Rightarrow> if \<not> system_done s then s\<lparr>system_done := True, signal_pc := S_term_signal\<rparr>
                   else s\<lparr>ended := Some (Exited 1)\<rparr>
      | SIGUSR1 \<Rightarrow> s\<lparr>sig_log := snd (set_log_level (sig_log s) (get_log_level (sig_log s) + 1))\<rparr>
      | SIGUSR2 \<Rightarrow> s\<lparr>sig_log := snd (set_log_level (sig_log s) LOG_NOTICE)\<rparr>
      | Signal n \<Rightarrow> s)"

text \<open>\<^verbatim>\<open>pthread_cond_signal\<close> wakes the main thread if it waits, and is lost otherwise.\<close>

definition cond_signal :: "'re main_state \<Rightarrow> 're main_state" where
  "cond_signal s = (if reload_at s = M_waiting then s\<lparr>reload_at := M_woken\<rparr> else s)"

inductive signal_step :: "'re main_state \<Rightarrow> main_label \<Rightarrow> 're main_state \<Rightarrow> bool" where
  g_raise: "signal_step s (L_raise signo) (s\<lparr>pending := insert signo (pending s)\<rparr>)"
| g_take: "signal_pc s = S_sigwait \<Longrightarrow> signo \<in> pending s \<Longrightarrow>
    signal_step s L_step (handle_signal signo (s\<lparr>pending := pending s - {signo}\<rparr>))"
| g_lock: "signal_pc s = S_hup_lock \<Longrightarrow> reload_lock s = None \<Longrightarrow>
    signal_step s L_step (s\<lparr>signal_pc := S_hup_locked, reload_lock := Some By_signal_thread\<rparr>)"
| g_unlock: "signal_pc s = S_hup_locked \<Longrightarrow>
    signal_step s L_step (s\<lparr>signal_pc := S_hup_signal, reload_lock := None\<rparr>)"
| g_signal: "signal_pc s \<in> {S_hup_signal, S_term_signal} \<Longrightarrow>
    signal_step s L_step (cond_signal (s\<lparr>signal_pc := S_sigwait\<rparr>))"

section \<open>Reloading\<close>

text \<open>
  One attempt: \<open>new\<close> and \<open>load_config\<close>, then \<open>init_config\<close>. A failed one is deleted and the loop
  starts over; a crash in either ends the process; one that never returns has no step. The new
  object is at an address \<open>k\<close> that no allocated object has.
\<close>

fun after_load :: "nat \<Rightarrow> snapp_config option result \<Rightarrow> 're main_state \<Rightarrow> 're main_state" where
  "after_load k (Inl e) s = s\<lparr>ended := Some (Crashed e)\<rparr>"
| "after_load k (Inr None) s = s\<lparr>reload_at := M_begin, attempts := attempts s + 1\<rparr>"
| "after_load k (Inr (Some c)) s = s\<lparr>reload_at := M_loaded k, configs := (configs s)(k \<mapsto> c)\<rparr>"

fun after_init :: "nat \<Rightarrow> (snapp_config \<times> pool list \<times> 'f) option result \<Rightarrow> 're main_state \<Rightarrow> 're main_state" where
  "after_init k (Inl e) s = s\<lparr>ended := Some (Crashed e)\<rparr>"
| "after_init k (Inr None) s =
     s\<lparr>reload_at := M_begin, attempts := attempts s + 1, configs := (configs s)(k := None)\<rparr>"
| "after_init k (Inr (Some (c, pools, fs))) s =
     s\<lparr>reload_at := M_initialized k, attempts := attempts s + 1, configs := (configs s)(k \<mapsto> c)\<rparr>"

text \<open>The main thread; \<open>env n\<close> is the world the \<open>n\<close>-th reload meets.\<close>

inductive loop_step :: "(nat \<Rightarrow> 'f config_env) \<Rightarrow> string \<Rightarrow> 're main_state \<Rightarrow> main_label \<Rightarrow> 're main_state \<Rightarrow> bool"
  for env name where
  m_lock: "reload_at s = M_begin \<Longrightarrow> reload_lock s = None \<Longrightarrow>
    loop_step env name s L_step (s\<lparr>reload_at := M_holding, reload_lock := Some By_main\<rparr>)"
| m_wait: "reload_at s = M_holding \<Longrightarrow>
    loop_step env name s L_step (s\<lparr>reload_at := M_waiting, reload_lock := None\<rparr>)"
| m_timeout: "reload_at s = M_waiting \<Longrightarrow> loop_step env name s L_step (s\<lparr>reload_at := M_timed_out\<rparr>)"
| m_spurious: "reload_at s = M_waiting \<Longrightarrow> loop_step env name s L_spurious (s\<lparr>reload_at := M_woken\<rparr>)"
| m_wait_error: "reload_at s = M_waiting \<Longrightarrow> reload_lock s = None \<Longrightarrow>
    loop_step env name s L_wait_error (s\<lparr>ended := Some (Exited 1)\<rparr>)"
| m_timed_out: "reload_at s = M_timed_out \<Longrightarrow> reload_lock s = None \<Longrightarrow>
    loop_step env name s L_step (s\<lparr>reload_at := M_reload\<rparr>)"
| m_woken: "reload_at s = M_woken \<Longrightarrow> reload_lock s = None \<Longrightarrow>
    loop_step env name s L_step (s\<lparr>reload_at := M_check, reload_lock := Some By_main\<rparr>)"
| m_check: "reload_at s = M_check \<Longrightarrow>
    loop_step env name s L_step
      (if system_done s then s\<lparr>reload_at := M_done\<rparr> else s\<lparr>reload_at := M_reload, reload_lock := None\<rparr>)"
| m_load: "reload_at s = M_reload \<Longrightarrow> load_new (env (attempts s)) name = Some r \<Longrightarrow> configs s k = None \<Longrightarrow>
    loop_step env name s L_step (after_load k r s)"
| m_init: "reload_at s = M_loaded k \<Longrightarrow> configs s k = Some c \<Longrightarrow> init_new (env (attempts s)) c = Some q \<Longrightarrow>
    loop_step env name s L_step (after_init k q s)"
| m_swap_lock: "reload_at s = M_initialized k \<Longrightarrow> config_mutex s = None \<Longrightarrow>
    loop_step env name s L_step (s\<lparr>reload_at := M_swapping k, config_mutex := Some Held_by_main\<rparr>)"
| m_delete: "reload_at s = M_swapping k \<Longrightarrow>
    loop_step env name s L_step (s\<lparr>reload_at := M_deleted k, configs := (configs s)(current s := None)\<rparr>)"
| m_swap: "reload_at s = M_deleted k \<Longrightarrow>
    loop_step env name s (L_swap (configs s k)) (s\<lparr>reload_at := M_begin, current := k, config_mutex := None\<rparr>)"
| m_done: "reload_at s = M_done \<Longrightarrow>
    loop_step env name s L_step (s\<lparr>reload_at := M_returning, configs := (configs s)(current s := None)\<rparr>)"
| m_return: "reload_at s = M_returning \<Longrightarrow> loop_step env name s L_step (s\<lparr>ended := Some (Exited 0)\<rparr>)"

text \<open>
  \<open>send_status\<close> of control thread \<open>i\<close>: lock, look at the object \<^verbatim>\<open>*current_config\<close>, unlock.
  \<open>in_status\<close> are the threads between the two.
\<close>

inductive status_step :: "'re main_state \<Rightarrow> main_label \<Rightarrow> 're main_state \<Rightarrow> bool" where
  t_lock: "i \<notin> in_status s \<Longrightarrow> config_mutex s = None \<Longrightarrow>
    status_step s L_step (s\<lparr>config_mutex := Some (Held_by_control i), in_status := insert i (in_status s)\<rparr>)"
| t_read: "i \<in> in_status s \<Longrightarrow> status_step s (L_read (configs s (current s))) s"
| t_unlock: "i \<in> in_status s \<Longrightarrow>
    status_step s L_step (s\<lparr>config_mutex := None, in_status := in_status s - {i}\<rparr>)"

text \<open>The process: any thread may take the next step until it has ended.\<close>

definition main_step :: "(nat \<Rightarrow> 'f config_env) \<Rightarrow> string \<Rightarrow> 're main_state \<Rightarrow> main_label \<Rightarrow> 're main_state \<Rightarrow> bool" where
  "main_step env name s l t \<longleftrightarrow>
     ended s = None \<and> (signal_step s l t \<or> loop_step env name s l t \<or> status_step s l t)"

section \<open>What always holds\<close>

text \<open>A configuration that one attempt loaded and initialised without an error.\<close>

definition built :: "'f config_env \<Rightarrow> string \<Rightarrow> snapp_config \<Rightarrow> bool" where
  "built ce name c \<longleftrightarrow> (\<exists>c0 pools fs. load_new ce name = Some (Inr (Some c0)) \<and>
     init_new ce c0 = Some (Inr (Some (c, pools, fs))))"

definition loads_to :: "'f config_env \<Rightarrow> string \<Rightarrow> snapp_config \<Rightarrow> bool" where
  "loads_to ce name c \<longleftrightarrow> load_new ce name = Some (Inr (Some c))"

definition rebuilt :: "(nat \<Rightarrow> 'f config_env) \<Rightarrow> string \<Rightarrow> nat \<Rightarrow> snapp_config \<Rightarrow> bool" where
  "rebuilt env name n c \<longleftrightarrow> (\<exists>m < n. built (env m) name c)"

definition was_built :: "(nat \<Rightarrow> 'f config_env) \<Rightarrow> string \<Rightarrow> snapp_config \<Rightarrow> nat \<Rightarrow> snapp_config \<Rightarrow> bool" where
  "was_built env name c0 n c \<longleftrightarrow> c = c0 \<or> rebuilt env name n c"

lemma rebuilt_was_built: "rebuilt env name n c \<Longrightarrow> was_built env name c0 n c"
  by (simp add: was_built_def)

lemma was_built_mono: "was_built env name c0 n c \<Longrightarrow> n \<le> m \<Longrightarrow> was_built env name c0 m c"
  by (auto simp: was_built_def rebuilt_def)

lemma was_built_Suc: "was_built env name c0 n c \<Longrightarrow> was_built env name c0 (Suc n) c"
  by (erule was_built_mono) simp

text \<open>Which objects exist, and what is known of them, at each point of the main thread.\<close>

definition config_shape ::
  "(nat \<Rightarrow> 'f config_env) \<Rightarrow> string \<Rightarrow> snapp_config \<Rightarrow> reload_pc \<Rightarrow> nat \<Rightarrow> nat \<Rightarrow> (nat \<Rightarrow> snapp_config option) \<Rightarrow> bool" where
  "config_shape env name c0 pc n cur cs \<longleftrightarrow>
     (case pc of
        M_loaded k \<Rightarrow> k \<noteq> cur \<and> (\<exists>c d. was_built env name c0 n c \<and> loads_to (env n) name d \<and> cs = [cur \<mapsto> c, k \<mapsto> d])
      | M_initialized k \<Rightarrow> k \<noteq> cur \<and> (\<exists>c d. was_built env name c0 n c \<and> rebuilt env name n d \<and> cs = [cur \<mapsto> c, k \<mapsto> d])
      | M_swapping k \<Rightarrow> k \<noteq> cur \<and> (\<exists>c d. was_built env name c0 n c \<and> rebuilt env name n d \<and> cs = [cur \<mapsto> c, k \<mapsto> d])
      | M_deleted k \<Rightarrow> k \<noteq> cur \<and> (\<exists>d. rebuilt env name n d \<and> cs = [k \<mapsto> d])
      | M_returning \<Rightarrow> cs = Map.empty
      | _ \<Rightarrow> (\<exists>c. was_built env name c0 n c \<and> cs = [cur \<mapsto> c]))"

definition locks_ok :: "'re main_state \<Rightarrow> bool" where
  "locks_ok s \<longleftrightarrow>
     (config_mutex s = Some Held_by_main \<longleftrightarrow> (\<exists>k. reload_at s \<in> {M_swapping k, M_deleted k})) \<and>
     (\<forall>i. i \<in> in_status s \<longleftrightarrow> config_mutex s = Some (Held_by_control i)) \<and>
     (reload_lock s = Some By_main \<longleftrightarrow> reload_at s \<in> {M_holding, M_check, M_done, M_returning}) \<and>
     (reload_lock s = Some By_signal_thread \<longleftrightarrow> signal_pc s = S_hup_locked) \<and>
     (reload_at s \<in> {M_done, M_returning} \<longrightarrow> system_done s)"

definition main_ok :: "(nat \<Rightarrow> 'f config_env) \<Rightarrow> string \<Rightarrow> snapp_config \<Rightarrow> 're main_state \<Rightarrow> bool" where
  "main_ok env name c0 s \<longleftrightarrow>
     config_shape env name c0 (reload_at s) (attempts s) (current s) (configs s) \<and> locks_ok s"

lemma main_ok_init: "main_ok env name c (main_init c log)"
  by (auto simp: main_ok_def main_init_def config_shape_def was_built_def locks_ok_def)

lemmas main_ok_simps = main_ok_def config_shape_def locks_ok_def

text \<open>The threads other than the main one never touch a configuration.\<close>

lemma signal_step_ok:
  assumes "signal_step s l t" and "main_ok env name c0 s"
  shows "main_ok env name c0 t"
  using assms
  by (cases rule: signal_step.cases)
    (auto simp: main_ok_simps handle_signal_def cond_signal_def split: signal.split reload_pc.splits)

lemma status_step_ok:
  assumes "status_step s l t" and "main_ok env name c0 s"
  shows "main_ok env name c0 t"
  using assms by (cases rule: status_step.cases) (auto simp: main_ok_simps split: reload_pc.splits)

lemma after_load_ok:
  assumes "main_ok env name c0 s" "reload_at s = M_reload" "load_new (env (attempts s)) name = Some r"
    "configs s k = None"
  shows "main_ok env name c0 (after_load k r s)"
proof (cases "(k, r, s)" rule: after_load.cases)
  case (3 k' c s')
  with assms show ?thesis
    by (auto simp: main_ok_simps loads_to_def fun_upd_twist)
next
  case (2 k' s')
  with assms show ?thesis by (auto simp: main_ok_simps) (blast intro: was_built_Suc)+
qed (use assms in \<open>auto simp: main_ok_simps\<close>)

lemma after_init_ok:
  assumes "main_ok env name c0 s" "reload_at s = M_loaded k" "configs s k = Some c"
    "init_new (env (attempts s)) c = Some q"
  shows "main_ok env name c0 (after_init k q s)"
proof -
  from assms obtain d where d: "was_built env name c0 (attempts s) d" "k \<noteq> current s"
      "loads_to (env (attempts s)) name c" "configs s = [current s \<mapsto> d, k \<mapsto> c]"
    by (auto simp: main_ok_simps)
  show ?thesis
  proof (cases "(k, q, s)" rule: after_init.cases)
    case (2 k' s')
    with assms d show ?thesis by (auto simp: main_ok_simps) (blast intro: was_built_Suc)+
  next
    case (3 k' c' pools fs s')
    with assms d have "rebuilt env name (Suc (attempts s)) c'"
      by (auto simp: rebuilt_def built_def loads_to_def)
    moreover from d have "was_built env name c0 (Suc (attempts s)) d" by (blast intro: was_built_Suc)
    ultimately show ?thesis using 3 assms d by (auto simp: main_ok_simps)
  qed (use assms in \<open>auto simp: main_ok_simps\<close>)
qed

lemma loop_step_ok:
  assumes "loop_step env name s l t" and ok: "main_ok env name c0 s"
  shows "main_ok env name c0 t"
  using assms(1)
proof (cases rule: loop_step.cases)
  case (m_load r k)
  with ok after_load_ok show ?thesis by simp
next
  case (m_init k c q)
  with ok after_init_ok show ?thesis by simp
next
  case (m_delete k)
  with ok show ?thesis by (auto simp: main_ok_simps)
next
  case (m_swap k)
  with ok show ?thesis by (auto simp: main_ok_simps intro: rebuilt_was_built)
next
  case m_done
  with ok show ?thesis by (auto simp: main_ok_simps)
next
  case (m_swap_lock k)
  with ok show ?thesis by (auto simp: main_ok_simps)
qed (use ok in \<open>auto simp: main_ok_simps\<close>)

lemma main_step_ok: "main_ok env name c0 s \<Longrightarrow> main_step env name s l t \<Longrightarrow> main_ok env name c0 t"
  unfolding main_step_def by (blast intro: signal_step_ok loop_step_ok status_step_ok)

lemma main_run_ok: "lrun (main_step env name) (main_init c0 log) tr s \<Longrightarrow> main_ok env name c0 s"
  by (erule lrun_invariant [where I = "main_ok env name c0"]) (auto intro: main_ok_init main_step_ok)

section \<open>The running configuration\<close>

lemma current_alive:
  assumes "main_ok env name c0 s" "\<not> system_done s" "config_mutex s \<noteq> Some Held_by_main"
  shows "\<exists>c. configs s (current s) = Some c \<and> was_built env name c0 (attempts s) c"
  using assms by (cases "reload_at s") (auto simp: main_ok_simps)

lemma after_load_frame [simp]:
  "system_done (after_load k r s) = system_done s" "signal_pc (after_load k r s) = signal_pc s"
  "pending (after_load k r s) = pending s" "attempts s \<le> attempts (after_load k r s)"
  by (cases "(k, r, s)" rule: after_load.cases; simp)+

lemma after_init_frame [simp]:
  "system_done (after_init k q s) = system_done s" "signal_pc (after_init k q s) = signal_pc s"
  "pending (after_init k q s) = pending s" "attempts s \<le> attempts (after_init k q s)"
  by (cases "(k, q, s)" rule: after_init.cases; simp)+

lemma system_done_stays: "main_step env name s l t \<Longrightarrow> system_done s \<Longrightarrow> system_done t"
  unfolding main_step_def
  by (auto elim!: signal_step.cases loop_step.cases status_step.cases
      simp: handle_signal_def cond_signal_def split: signal.splits)

lemma attempts_grow: "main_step env name s l t \<Longrightarrow> attempts s \<le> attempts t"
  unfolding main_step_def
  by (auto elim!: signal_step.cases loop_step.cases status_step.cases
      simp: handle_signal_def cond_signal_def split: signal.splits)

inductive_cases status_readE: "status_step s (L_read r) t"

lemma main_step_read:
  assumes "main_step env name s (L_read r) t" "locks_ok s"
  shows "t = s \<and> r = configs s (current s) \<and> config_mutex s \<noteq> Some Held_by_main"
proof -
  from assms(1) have "status_step s (L_read r) t"
    unfolding main_step_def by (auto elim: signal_step.cases loop_step.cases)
  then obtain i where "i \<in> in_status s" "t = s" "r = configs s (current s)" by (elim status_readE)
  with assms(2) show ?thesis by (simp add: locks_ok_def)
qed


lemma signal_main: "signal_step s l t \<Longrightarrow> ended s = None \<Longrightarrow> main_step env name s l t"
  and loop_main: "loop_step env name s l t \<Longrightarrow> ended s = None \<Longrightarrow> main_step env name s l t"
  and status_main: "status_step s l t \<Longrightarrow> ended s = None \<Longrightarrow> main_step env name s l t"
  by (simp_all add: main_step_def)


text \<open>
  C15. No reload leaks a configuration and none is deleted twice or too early: whenever the main
  thread waits for its next turn exactly one configuration exists, the running one, and during a
  reload exactly one more, until SIGTERM takes the process to its end. While every reload fails,
  that one configuration is the first.
\<close>

theorem one_running_config:
  assumes "lrun (main_step env name) (main_init c0 log) tr s"
  shows "\<exists>c. (reload_at s \<in> {M_begin, M_holding, M_waiting, M_woken, M_timed_out, M_check, M_reload, M_done} \<longrightarrow>
        configs s = [current s \<mapsto> c] \<and> (c = c0 \<or> (\<exists>n < attempts s. built (env n) name c))) \<and>
      card (dom (configs s)) \<le> 2"
proof -
  note ok = main_run_ok [OF assms]
  show ?thesis
    using ok by (cases "reload_at s") (auto simp: main_ok_simps was_built_def rebuilt_def card_insert_if)
qed

text \<open>A whole reload, from the top of the loop back to it, when both calls succeed.\<close>

lemma timeout_reaches_reload:
  assumes "reload_at s = M_begin" "reload_lock s = None" "ended s = None"
  shows "lrun (main_step env name) s [L_step, L_step, L_step, L_step] (s\<lparr>reload_at := M_reload\<rparr>)"
proof -
  let ?step = "main_step env name"
  let ?s1 = "s\<lparr>reload_at := M_holding, reload_lock := Some By_main\<rparr>"
  let ?s2 = "s\<lparr>reload_at := M_waiting\<rparr>"
  let ?s3 = "s\<lparr>reload_at := M_timed_out\<rparr>"
  have "?step s L_step ?s1" using assms by (intro loop_main m_lock)
  moreover have "?step ?s1 L_step ?s2" using loop_main [OF m_wait, of ?s1] assms by (cases s) simp
  moreover have "?step ?s2 L_step ?s3" using loop_main [OF m_timeout, of ?s2] assms by simp
  moreover have "?step ?s3 L_step (s\<lparr>reload_at := M_reload\<rparr>)"
    using loop_main [OF m_timed_out, of ?s3] assms by simp
  ultimately show ?thesis by (blast intro: lrun_Cons lrun_nil)
qed

lemma reload_swaps:
  assumes "reload_at s = M_reload" "config_mutex s = None" "ended s = None" "configs s k = None" "k \<noteq> current s"
    and "load_new (env (attempts s)) name = Some (Inr (Some c))"
    and "init_new (env (attempts s)) c = Some (Inr (Some (c', pools, fs)))"
  shows "lrun (main_step env name) s [L_step, L_step, L_step, L_step, L_swap (Some c')]
    (s\<lparr>reload_at := M_begin, attempts := attempts s + 1, current := k,
       configs := (configs s)(k \<mapsto> c', current s := None)\<rparr>)"
proof -
  let ?step = "main_step env name" and ?k = k
  let ?s1 = "after_load k (Inr (Some c)) s"
  let ?s2 = "after_init ?k (Inr (Some (c', pools, fs))) ?s1"
  let ?s3 = "?s2\<lparr>reload_at := M_swapping ?k, config_mutex := Some Held_by_main\<rparr>"
  let ?s4 = "?s3\<lparr>reload_at := M_deleted ?k, configs := (configs ?s3)(current ?s3 := None)\<rparr>"
  let ?s5 = "?s4\<lparr>reload_at := M_begin, current := ?k, config_mutex := None\<rparr>"
  have "?step s L_step ?s1" using assms by (intro loop_main m_load)
  moreover have "?step ?s1 L_step ?s2" using assms by (intro loop_main m_init [of _ _ c]) simp_all
  moreover have "?step ?s2 L_step ?s3" using assms by (intro loop_main m_swap_lock) simp_all
  moreover have "?step ?s3 L_step ?s4" using assms by (intro loop_main m_delete) simp_all
  moreover have "?step ?s4 (L_swap (Some c')) ?s5"
    using loop_main [OF m_swap [of ?s4 k]] assms by (cases s) simp
  ultimately have "lrun ?step s [L_step, L_step, L_step, L_step, L_swap (Some c')] ?s5"
    by (blast intro: lrun_Cons lrun_nil)
  with assms(2) show ?thesis by (cases s) simp
qed

theorem one_running_config_witness:
  "\<exists>tr s c. lrun (main_step (\<lambda>_. demo_config_env) ''x'') (main_init (fresh_config demo_memory) (initial_log :: unit log_state)) tr s \<and>
     current s = 1 \<and> configs s = [1 \<mapsto> c] \<and> card (dom (configs s)) \<le> 2"
proof -
  let ?s = "main_init (fresh_config demo_memory) (initial_log :: unit log_state)"
  let ?t = "?s\<lparr>reload_at := M_reload\<rparr>"
  have "lrun (main_step (\<lambda>_. demo_config_env) ''x'') ?s [L_step, L_step, L_step, L_step] ?t"
    by (rule timeout_reaches_reload) (simp_all add: main_init_def)
  note run = lrun_trans [OF reload_swaps [where k = 1] this, OF _ _ _ _ _ demo_load demo_init]
  from run one_running_config [OF run] show ?thesis by (fastforce simp: main_init_def)
qed

section \<open>Terminating\<close>

definition terminating :: "'re main_state \<Rightarrow> bool" where
  "terminating s \<longleftrightarrow> system_done s \<and> reload_at s \<in> {M_woken, M_check, M_done, M_returning}"

lemma terminating_step:
  assumes "main_step env name s l t" "terminating s"
  shows "terminating t"
  using assms unfolding main_step_def terminating_def
  by (auto elim!: signal_step.cases loop_step.cases status_step.cases
      simp: handle_signal_def cond_signal_def split: signal.splits)

definition can_return :: "(nat \<Rightarrow> 'f config_env) \<Rightarrow> string \<Rightarrow> 're main_state \<Rightarrow> bool" where
  "can_return env name s \<longleftrightarrow> (\<exists>tr t. lrun (main_step env name) s tr t \<and> ended t = Some (Exited 0))"

lemma can_return_step:
  "main_step env name s l t \<Longrightarrow> can_return env name t \<Longrightarrow> can_return env name s"
  unfolding can_return_def by (blast intro: lrun_Cons [where step = "main_step env name"])

text \<open>From a terminating state the main thread alone gets to the end, except for a SIGHUP in progress.\<close>

lemma terminating_exits:
  fixes s :: "'re main_state"
  assumes "terminating s" "locks_ok s" "ended s = None"
  shows "can_return env name s"
proof -
  have returning: "can_return env name u" if "reload_at u = M_returning" "ended u = None" for u :: "'re main_state"
    unfolding can_return_def
    by (rule exI, rule exI, rule conjI, rule lrun_one, rule loop_main [OF m_return]) (use that in simp_all)
  have at_done: "can_return env name u" if "reload_at u = M_done" "ended u = None" for u :: "'re main_state"
    by (rule can_return_step [OF loop_main [OF m_done]]; (rule returning)?; simp add: that)
  have at_check: "can_return env name u"
    if "reload_at u = M_check" "system_done u" "ended u = None" for u :: "'re main_state"
    by (rule can_return_step [OF loop_main [OF m_check]]; (rule at_done)?; simp add: that)
  have woken: "can_return env name u"
    if "reload_at u = M_woken" "system_done u" "reload_lock u = None" "ended u = None" for u :: "'re main_state"
    by (rule can_return_step [OF loop_main [OF m_woken]]; (rule at_check)?; simp add: that)
  show ?thesis
  proof (cases "reload_at s = M_woken \<and> reload_lock s \<noteq> None")
    case True
    with assms have "signal_pc s = S_hup_locked"
      by (auto simp: locks_ok_def) (metis reload_owner.exhaust)
    with assms True have "main_step env name s L_step (s\<lparr>signal_pc := S_hup_signal, reload_lock := None\<rparr>)"
      by (intro signal_main g_unlock)
    moreover from assms True have "can_return env name (s\<lparr>signal_pc := S_hup_signal, reload_lock := None\<rparr>)"
      by (intro woken) (simp_all add: terminating_def)
    ultimately show ?thesis by (rule can_return_step)
  next
    case False
    with assms show ?thesis
      using woken [of s] at_check [of s] at_done [of s] returning [of s]
      by (auto simp: terminating_def)
  qed
qed


text \<open>A SIGTERM from its arrival to the call of \<^verbatim>\<open>pthread_cond_signal\<close>, when nothing else is under way.\<close>

lemma sigterm_runs:
  assumes "signal_pc s = S_sigwait" "pending s = {}" "\<not> system_done s" "ended s = None"
  shows "lrun (main_step env name) s [L_raise SIGTERM, L_step, L_step] (cond_signal (s\<lparr>system_done := True\<rparr>))"
proof -
  let ?step = "main_step env name"
  let ?s1 = "s\<lparr>pending := {SIGTERM}\<rparr>"
  let ?s2 = "s\<lparr>signal_pc := S_term_signal, system_done := True\<rparr>"
  have "?step s (L_raise SIGTERM) ?s1" using signal_main [OF g_raise [of s SIGTERM]] assms by simp
  moreover have "?step ?s1 L_step ?s2"
    using signal_main [OF g_take [of ?s1 SIGTERM]] assms by (cases s) (simp add: handle_signal_def)
  moreover have "?step ?s2 L_step (cond_signal (s\<lparr>system_done := True\<rparr>))"
    using signal_main [OF g_signal [of ?s2]] assms by (cases s) simp
  ultimately show ?thesis by (blast intro: lrun_Cons lrun_nil)
qed


definition sigterm_lost :: "'re main_state \<Rightarrow> bool" where
  "sigterm_lost s \<longleftrightarrow> system_done s \<and> pending s = {} \<and> signal_pc s = S_sigwait \<and>
     reload_at s \<notin> {M_woken, M_check, M_done, M_returning} \<and> ended s \<noteq> Some (Exited 0)"

lemma after_load_pc: "reload_at s = M_reload \<Longrightarrow> reload_at (after_load k r s) \<in> {M_begin, M_reload, M_loaded k}"
  and after_load_ended: "ended s = None \<Longrightarrow> ended (after_load k r s) \<noteq> Some (Exited n)"
  by (cases "(k, r, s)" rule: after_load.cases; simp)+

lemma after_init_pc: "reload_at s = M_loaded k \<Longrightarrow> reload_at (after_init k q s) \<in> {M_begin, M_loaded k, M_initialized k}"
  and after_init_ended: "ended s = None \<Longrightarrow> ended (after_init k q s) \<noteq> Some (Exited n)"
  by (cases "(k, q, s)" rule: after_init.cases; simp)+

lemma sigterm_lost_step:
  assumes "main_step env name s l t" "sigterm_lost s" "l \<notin> range L_raise \<union> {L_spurious}"
  shows "sigterm_lost t"
proof -
  from assms(1) have e: "ended s = None" by (simp add: main_step_def)
  from assms(1) consider "signal_step s l t" | "loop_step env name s l t" | "status_step s l t"
    by (auto simp: main_step_def)
  then show ?thesis
  proof cases
    case 1
    with assms(2,3) show ?thesis by (auto simp: sigterm_lost_def elim: signal_step.cases)
  next
    case 2
    then show ?thesis
    proof (cases rule: loop_step.cases)
      case (m_load r k)
      with assms(2) e after_load_pc [of s k r] after_load_ended [of s k r 0] show ?thesis
        by (auto simp: sigterm_lost_def)
    next
      case (m_init k c q)
      with assms(2) e after_init_pc [of s k q] after_init_ended [of s k q 0] show ?thesis
        by (auto simp: sigterm_lost_def)
    qed (use assms(2,3) e in \<open>auto simp: sigterm_lost_def\<close>)
  next
    case 3
    with assms(2) show ?thesis by (auto simp: sigterm_lost_def elim: status_step.cases)
  qed
qed

lemma sigterm_lost_run:
  "lrun (main_step env name) s tr t \<Longrightarrow> sigterm_lost s \<Longrightarrow> set tr \<inter> (range L_raise \<union> {L_spurious}) = {} \<Longrightarrow>
   sigterm_lost t"
proof (induction rule: lrun.induct)
  case (lrun_snoc s tr t l u)
  then show ?case by (intro sigterm_lost_step [of env name t l u]) auto
qed

text \<open>A SIGTERM that arrives while a reload is under way is lost: the flag is set, nobody waits
  to be told, and the flag is only looked at after a wake-up, not after a timeout. There is a run
  in which the signal is completely handled and after which, unless a further signal comes or the
  wait returns spuriously, the process never returns from \<^verbatim>\<open>main\<close> but keeps reloading.
\<close>

theorem sigterm_during_reload_lost:
  "\<exists>tr s. lrun (main_step env name) (main_init c0 log) tr s \<and> L_raise SIGTERM \<in> set tr \<and>
     system_done s \<and> pending s = {} \<and> signal_pc s = S_sigwait \<and> ended s = None \<and>
     (\<forall>tr' t. lrun (main_step env name) s tr' t \<and> set tr' \<inter> (range L_raise \<union> {L_spurious}) = {} \<longrightarrow>
        ended t \<noteq> Some (Exited 0) \<and> reload_at t \<notin> {M_done, M_returning})"
proof -
  let ?step = "main_step env name" and ?init = "main_init c0 log"
  let ?s1 = "?init\<lparr>reload_at := M_reload\<rparr>"
  let ?s = "cond_signal (?s1\<lparr>system_done := True\<rparr>)"
  have "lrun ?step ?init [L_step, L_step, L_step, L_step] ?s1"
    by (rule timeout_reaches_reload) (simp_all add: main_init_def)
  moreover have "lrun ?step ?s1 [L_raise SIGTERM, L_step, L_step] ?s"
    by (rule sigterm_runs) (simp_all add: main_init_def)
  ultimately have run: "lrun ?step ?init ([L_step, L_step, L_step, L_step] @ [L_raise SIGTERM, L_step, L_step]) ?s"
    by (rule lrun_trans [rotated])
  have "sigterm_lost ?s" by (simp add: sigterm_lost_def cond_signal_def main_init_def)
  then have lost: "\<forall>tr' t. lrun ?step ?s tr' t \<and> set tr' \<inter> (range L_raise \<union> {L_spurious}) = {} \<longrightarrow>
      ended t \<noteq> Some (Exited 0) \<and> reload_at t \<notin> {M_done, M_returning}"
    using sigterm_lost_run unfolding sigterm_lost_def by blast
  have "system_done ?s \<and> pending ?s = {} \<and> signal_pc ?s = S_sigwait \<and> ended ?s = None"
    by (simp add: cond_signal_def main_init_def)
  with run lost show ?thesis
    by (intro exI [of _ "[L_step, L_step, L_step, L_step] @ [L_raise SIGTERM, L_step, L_step]"] exI [of _ ?s]) simp
qed

theorem sigterm_during_reload_lost_witness:
  "\<exists>tr s. lrun (main_step (\<lambda>_. demo_config_env) ''x'') (main_init (fresh_config demo_memory) (initial_log :: unit log_state)) tr s \<and>
     L_raise SIGTERM \<in> set tr \<and> system_done s \<and> pending s = {} \<and> ended s = None \<and> reload_at s \<notin> {M_done, M_returning}"
proof -
  from sigterm_during_reload_lost [of "\<lambda>_. demo_config_env" "''x''" "fresh_config demo_memory" "initial_log :: unit log_state"]
  obtain tr s where s: "lrun (main_step (\<lambda>_. demo_config_env) ''x'') (main_init (fresh_config demo_memory) (initial_log :: unit log_state)) tr s"
      "L_raise SIGTERM \<in> set tr" "system_done s" "pending s = {}" "ended s = None"
    and never: "\<And>tr' t. lrun (main_step (\<lambda>_. demo_config_env) ''x'') s tr' t \<Longrightarrow>
      set tr' \<inter> (range L_raise \<union> {L_spurious}) = {} \<Longrightarrow> reload_at t \<notin> {M_done, M_returning}" by blast
  from never [OF lrun_nil] s show ?thesis by fastforce
qed

text \<open>
  The last \<^verbatim>\<open>delete\<close> is not under \<^verbatim>\<open>config_mutex\<close>: a control thread that holds it can look at a
  deleted configuration.
\<close>

lemma last_delete_races:
  "\<exists>tr s. lrun (main_step env name) (main_init c0 log) tr s \<and> L_read None \<in> set tr"
proof -
  let ?step = "main_step env name"
  define a where "a = (main_init c0 log)\<lparr>config_mutex := Some (Held_by_control 0), in_status := {0}\<rparr>"
  define b where "b = a\<lparr>reload_at := M_waiting\<rparr>"
  define c where "c = cond_signal (b\<lparr>system_done := True\<rparr>)"
  define d where "d = c\<lparr>reload_at := M_check, reload_lock := Some By_main\<rparr>"
  define e where "e = d\<lparr>reload_at := M_returning, configs := Map.empty\<rparr>"
  note defs = e_def d_def c_def b_def a_def main_init_def cond_signal_def
  have "?step (main_init c0 log) L_step a"
    unfolding a_def using status_main [OF t_lock [of 0 "main_init c0 log"]] by (simp add: main_init_def)
  moreover have "?step a L_step (a\<lparr>reload_at := M_holding, reload_lock := Some By_main\<rparr>)"
    by (intro loop_main m_lock) (simp_all add: defs)
  moreover have "?step (a\<lparr>reload_at := M_holding, reload_lock := Some By_main\<rparr>) L_step b"
    using loop_main [OF m_wait [of "a\<lparr>reload_at := M_holding, reload_lock := Some By_main\<rparr>"]] by (simp add: defs)
  ultimately have r1: "lrun ?step (main_init c0 log) [L_step, L_step, L_step] b"
    by (blast intro: lrun_Cons lrun_nil)
  have r2: "lrun ?step b [L_raise SIGTERM, L_step, L_step] c"
    unfolding c_def by (rule sigterm_runs) (simp_all add: b_def a_def main_init_def)
  have "?step c L_step d" unfolding d_def by (intro loop_main m_woken) (simp_all add: defs)
  moreover have "?step d L_step (d\<lparr>reload_at := M_done\<rparr>)"
    using loop_main [OF m_check [of d]] by (simp add: defs)
  moreover have "?step (d\<lparr>reload_at := M_done\<rparr>) L_step e"
    using loop_main [OF m_done [of "d\<lparr>reload_at := M_done\<rparr>"]] by (simp add: defs)
  moreover have "?step e (L_read None) e"
    using status_main [OF t_read [of 0 e]] by (simp add: defs)
  ultimately have "lrun ?step c [L_step, L_step, L_step, L_read None] e" by (blast intro: lrun_Cons lrun_nil)
  from lrun_trans [OF this lrun_trans [OF r2 r1]] show ?thesis by fastforce
qed

end
