(* ===== verification/Reload_Request.thy ===== *)
theory Reload_Request
  imports Collector_Main
begin

text \<open>
  The \<^verbatim>\<open>reload\<close> command of the control port (\<^verbatim>\<open>do_reload\<close> of \<^verbatim>\<open>snapp_control.cpp\<close>) against the main
  program: a control thread notes the address of the running configuration, sends SIGHUP to the
  signal thread, and compares addresses once a second, up to 55 times. The calls interleave with
  every other thread; addresses of deleted configurations may be used again. Shown: an answer
  200 means that a complete reload replaced the configuration after the client asked; but the
  request itself can be lost while it is answered 200, and the answer 550 means 55 equal looks.
\<close>

section \<open>The call\<close>

text \<open>
  Outside a call; before, in and after the first look (the mutex held in the last two); before
  \<^verbatim>\<open>pthread_kill\<close>; at the test of the loop; the look inside the loop; answered, 200 or 550.
\<close>

datatype request_pc =
  Q_idle | Q_lock | Q_look | Q_unlock | Q_kill | Q_test | Q_lock_again | Q_look_again | Q_unlock_again
  | Q_answered bool

text \<open>The locals \<^verbatim>\<open>current_config\<close>, \<^verbatim>\<open>new_config\<close> and \<^verbatim>\<open>i\<close>; what a pointer compares by is its address.\<close>

record request =
  request_at :: request_pc
  current_config :: nat
  new_config :: nat
  request_i :: nat

record 're request_state =
  main_part :: "'re main_state"
  requests :: "nat \<Rightarrow> request"

definition no_request :: request where
  "no_request = \<lparr>request_at = Q_idle, current_config = 0, new_config = 0, request_i = 0\<rparr>"

definition request_init :: "snapp_config \<Rightarrow> 're log_state \<Rightarrow> 're request_state" where
  "request_init c log = \<lparr>main_part = main_init c log, requests = (\<lambda>_. no_request)\<rparr>"

abbreviation lock_config :: "nat \<Rightarrow> 're main_state \<Rightarrow> 're main_state" where
  "lock_config i s \<equiv> s\<lparr>config_mutex := Some (Held_by_control i), in_status := insert i (in_status s)\<rparr>"

abbreviation unlock_config :: "nat \<Rightarrow> 're main_state \<Rightarrow> 're main_state" where
  "unlock_config i s \<equiv> s\<lparr>config_mutex := None, in_status := in_status s - {i}\<rparr>"

text \<open>\<open>do_reload\<close> of control thread \<open>i\<close>, one step per action that another thread could see.\<close>

inductive do_reload_step :: "nat \<Rightarrow> 're main_state \<times> request \<Rightarrow> main_label \<Rightarrow> 're main_state \<times> request \<Rightarrow> bool"
  for i where
  q_begin: "request_at q \<in> {Q_idle, Q_answered True, Q_answered False} \<Longrightarrow> i \<notin> in_status s \<Longrightarrow>
    do_reload_step i (s, q) L_step (s, q\<lparr>request_at := Q_lock\<rparr>)"
| q_lock: "request_at q = Q_lock \<Longrightarrow> config_mutex s = None \<Longrightarrow>
    do_reload_step i (s, q) L_step (lock_config i s, q\<lparr>request_at := Q_look\<rparr>)"
| q_look: "request_at q = Q_look \<Longrightarrow>
    do_reload_step i (s, q) L_step
      (s, q\<lparr>request_at := Q_unlock, current_config := current s, new_config := current s\<rparr>)"
| q_unlock: "request_at q = Q_unlock \<Longrightarrow>
    do_reload_step i (s, q) L_step (unlock_config i s, q\<lparr>request_at := Q_kill\<rparr>)"
| q_kill: "request_at q = Q_kill \<Longrightarrow>
    do_reload_step i (s, q) (L_raise SIGHUP)
      (s\<lparr>pending := insert SIGHUP (pending s)\<rparr>, q\<lparr>request_at := Q_test, request_i := 0\<rparr>)"
| q_test: "request_at q = Q_test \<Longrightarrow>
    do_reload_step i (s, q) L_step
      (s, q\<lparr>request_at := (if request_i q < wait_secs \<and> current_config q = new_config q then Q_lock_again
                         else Q_answered (new_config q \<noteq> current_config q))\<rparr>)"
| q_lock_again: "request_at q = Q_lock_again \<Longrightarrow> config_mutex s = None \<Longrightarrow>
    do_reload_step i (s, q) L_step (lock_config i s, q\<lparr>request_at := Q_look_again\<rparr>)"
| q_look_again: "request_at q = Q_look_again \<Longrightarrow>
    do_reload_step i (s, q) L_step (s, q\<lparr>request_at := Q_unlock_again, new_config := current s\<rparr>)"
| q_unlock_again: "request_at q = Q_unlock_again \<Longrightarrow>
    do_reload_step i (s, q) L_step
      (unlock_config i s, q\<lparr>request_at := Q_test, request_i := request_i q + 1\<rparr>)"

definition in_call :: "request \<Rightarrow> bool" where
  "in_call q \<longleftrightarrow> request_at q \<notin> {Q_idle, Q_answered True, Q_answered False}"

text \<open>
  The process with its control threads: one of them goes on in its call, or another thread takes a
  step; a thread in \<open>do_reload\<close> is not in \<open>send_status\<close> at the same time.
\<close>

inductive reload_step ::
  "(nat \<Rightarrow> 'f config_env) \<Rightarrow> string \<Rightarrow> 're request_state \<Rightarrow> main_label \<Rightarrow> 're request_state \<Rightarrow> bool"
  for env name where
  r_main: "main_step env name (main_part u) l t \<Longrightarrow>
    (\<And>i. in_call (requests u i) \<Longrightarrow> i \<in> in_status t \<longleftrightarrow> i \<in> in_status (main_part u)) \<Longrightarrow>
    reload_step env name u l (u\<lparr>main_part := t\<rparr>)"
| r_request: "ended (main_part u) = None \<Longrightarrow> do_reload_step i (main_part u, requests u i) l (t, q) \<Longrightarrow>
    reload_step env name u l (u\<lparr>main_part := t, requests := (requests u)(i := q)\<rparr>)"

section \<open>What always holds\<close>

definition holds_mutex :: "request \<Rightarrow> bool" where
  "holds_mutex q \<longleftrightarrow> request_at q \<in> {Q_look, Q_unlock, Q_look_again, Q_unlock_again}"

definition request_ok :: "nat \<Rightarrow> 're main_state \<Rightarrow> request \<Rightarrow> bool" where
  "request_ok i s q \<longleftrightarrow>
     (in_call q \<longrightarrow> (holds_mutex q \<longleftrightarrow> i \<in> in_status s)) \<and>
     (request_at q \<in> {Q_unlock, Q_kill} \<longrightarrow> new_config q = current_config q) \<and>
     (request_at q \<in> {Q_lock_again, Q_look_again} \<longrightarrow> new_config q = current_config q \<and> request_i q < wait_secs) \<and>
     (request_at q = Q_unlock_again \<longrightarrow> request_i q < wait_secs) \<and>
     (request_at q = Q_test \<longrightarrow> request_i q \<le> wait_secs) \<and>
     (\<forall>b. request_at q = Q_answered b \<longrightarrow> b = (new_config q \<noteq> current_config q) \<and> request_i q \<le> wait_secs \<and>
        (\<not> b \<longrightarrow> request_i q = wait_secs))"

definition reload_ok :: "(nat \<Rightarrow> 'f config_env) \<Rightarrow> string \<Rightarrow> snapp_config \<Rightarrow> 're request_state \<Rightarrow> bool" where
  "reload_ok env name c0 u \<longleftrightarrow> main_ok env name c0 (main_part u) \<and> (\<forall>i. request_ok i (main_part u) (requests u i))"

lemma reload_ok_init: "reload_ok env name c0 (request_init c0 log)"
  using main_ok_init [of env name c0 log]
  by (simp add: reload_ok_def request_init_def request_ok_def no_request_def in_call_def)

text \<open>A call changes nothing of the main program but its mutex and the pending signals.\<close>

lemma do_reload_step_frame:
  assumes "do_reload_step i (s, q) l (t, q')"
  shows "current t = current s \<and> configs t = configs s \<and> attempts t = attempts s \<and> reload_at t = reload_at s"
  using assms by cases simp_all

lemma do_reload_step_main_ok:
  assumes "do_reload_step i (s, q) l (t, q')" "main_ok env name c0 s" "request_ok i s q"
  shows "main_ok env name c0 t"
proof -
  from assms(2) have "locks_ok s" and s: "config_shape env name c0 (reload_at s) (attempts s) (current s) (configs s)"
    by (simp_all add: main_ok_def)
  with assms(1,3) have "locks_ok t"
    by cases (auto simp: locks_ok_def request_ok_def in_call_def holds_mutex_def)
  with s do_reload_step_frame [OF assms(1)] show ?thesis by (simp add: main_ok_def)
qed

lemma do_reload_step_request_ok:
  assumes "do_reload_step i (s, q) l (t, q')" "request_ok i s q"
  shows "request_ok i t q'"
  using assms by cases (auto simp: request_ok_def in_call_def holds_mutex_def)

lemma do_reload_step_others:
  assumes "do_reload_step i (s, q) l (t, q')" "j \<noteq> i"
  shows "j \<in> in_status t \<longleftrightarrow> j \<in> in_status s"
  using assms by cases auto

lemma request_ok_in_status:
  "request_ok i s q \<Longrightarrow> (in_call q \<Longrightarrow> i \<in> in_status t \<longleftrightarrow> i \<in> in_status s) \<Longrightarrow> request_ok i t q"
  by (auto simp: request_ok_def)

lemma reload_step_ok:
  assumes "reload_step env name u l v" "reload_ok env name c0 u"
  shows "reload_ok env name c0 v"
  using assms(1)
proof cases
  case (r_main t)
  with assms(2) show ?thesis
    by (auto simp: reload_ok_def intro: main_step_ok request_ok_in_status)
next
  case (r_request i t q)
  have "request_ok j t (requests v j)" for j
    using assms(2) r_request do_reload_step_others [OF r_request(3), of j]
    by (cases "j = i") (auto simp: reload_ok_def intro: do_reload_step_request_ok request_ok_in_status)
  with assms(2) r_request show ?thesis
    by (auto simp: reload_ok_def intro: do_reload_step_main_ok)
qed

lemma reload_run_ok:
  "lrun (reload_step env name) (request_init c0 log) tr u \<Longrightarrow> reload_ok env name c0 u"
  by (erule lrun_invariant [where I = "reload_ok env name c0"]) (auto intro: reload_ok_init reload_step_ok)

section \<open>The answers\<close>

text \<open>A reload that was completed while \<open>tr\<close> was recorded.\<close>

definition reloaded :: "(nat \<Rightarrow> 'f config_env) \<Rightarrow> string \<Rightarrow> main_label list \<Rightarrow> nat \<Rightarrow> bool" where
  "reloaded env name tr n \<longleftrightarrow> (\<exists>c. L_swap (Some c) \<in> set tr \<and> rebuilt env name n c)"

lemma reloaded_mono: "reloaded env name tr n \<Longrightarrow> n \<le> m \<Longrightarrow> reloaded env name (tr @ tr') m"
  by (auto simp: reloaded_def rebuilt_def) (meson less_le_trans)

text \<open>Only the swap changes the pointer, and it puts in a configuration that was built.\<close>

lemma main_step_swaps:
  assumes "main_step env name s l t" "main_ok env name c0 s" "current t \<noteq> current s"
  shows "reloaded env name (tr @ [l]) (attempts t)"
proof -
  from assms(1,3) have "loop_step env name s l t"
    unfolding main_step_def
    by (auto elim!: signal_step.cases status_step.cases simp: handle_signal_def cond_signal_def split: signal.splits)
  then show ?thesis
  proof cases
    case (m_load r k)
    with assms(3) show ?thesis by (cases "(k, r, s)" rule: after_load.cases) simp_all
  next
    case (m_init k c q)
    with assms(3) show ?thesis by (cases "(k, q, s)" rule: after_init.cases) simp_all
  next
    case (m_swap k)
    with assms(2) show ?thesis by (auto simp: main_ok_simps reloaded_def)
  qed (use assms(3) in \<open>simp_all split: if_splits\<close>)
qed

text \<open>Since a call began, its two pointers and the running one differ only by such reloads.\<close>

definition looks_ok :: "(nat \<Rightarrow> 'f config_env) \<Rightarrow> string \<Rightarrow> main_label list \<Rightarrow> 're main_state \<Rightarrow> request \<Rightarrow> bool" where
  "looks_ok env name tr s q \<longleftrightarrow>
     (request_at q \<notin> {Q_idle, Q_lock, Q_look} \<longrightarrow>
       (current s \<noteq> current_config q \<or> new_config q \<noteq> current_config q \<longrightarrow> reloaded env name tr (attempts s)))"

lemma looks_ok_main_step:
  assumes "looks_ok env name tr s q" "main_step env name s l t" "main_ok env name c0 s"
  shows "looks_ok env name (tr @ [l]) t q"
  using assms(1) main_step_swaps [OF assms(2,3), of tr] reloaded_mono [OF _ attempts_grow [OF assms(2)], of env name tr "[l]"]
  unfolding looks_ok_def by metis

lemma looks_ok_request_step:
  assumes "looks_ok env name tr s q" "do_reload_step i (s, q) l (t, q')"
  shows "looks_ok env name (tr @ [l']) t q'"
proof -
  have "reloaded env name tr (attempts s) \<Longrightarrow> reloaded env name (tr @ [l']) (attempts s)" by (erule reloaded_mono) simp
  with assms(2,1) show ?thesis by cases (auto simp: looks_ok_def)
qed

lemma looks_ok_step:
  assumes "looks_ok env name tr (main_part u) (requests u i)" "reload_step env name u l v" "reload_ok env name c0 u"
  shows "looks_ok env name (tr @ [l]) (main_part v) (requests v i)"
  using assms(2)
proof cases
  case (r_main t)
  with assms show ?thesis by (auto simp: reload_ok_def intro: looks_ok_main_step)
next
  case (r_request j t q)
  show ?thesis
  proof (cases "i = j")
    case True
    with r_request assms(1) show ?thesis by (auto intro: looks_ok_request_step)
  next
    case False
    with r_request assms(1) do_reload_step_frame [OF r_request(3)]
      reloaded_mono [of env name tr "attempts (main_part u)" "attempts (main_part u)" "[l]"]
    show ?thesis by (auto simp: looks_ok_def)
  qed
qed

lemma looks_ok_run:
  assumes "lrun (reload_step env name) u tr v" "reload_ok env name c0 u" "looks_ok env name [] (main_part u) (requests u i)"
  shows "looks_ok env name tr (main_part v) (requests v i) \<and> reload_ok env name c0 v"
  using assms
proof (induction rule: lrun.induct)
  case (lrun_snoc u tr v l w)
  then show ?case using looks_ok_step reload_step_ok by blast
qed simp


text \<open>The answer 550 is given after 55 looks that all found the address of the first.\<close>

lemma reload_550_after_55_looks:
  assumes "lrun (reload_step env name) (request_init c0 log) tr u" "request_at (requests u i) = Q_answered b"
  shows "b = (new_config (requests u i) \<noteq> current_config (requests u i)) \<and> (\<not> b \<longrightarrow> request_i (requests u i) = 55)"
  using reload_run_ok [OF assms(1)] assms(2) by (auto simp: reload_ok_def request_ok_def wait_secs_def)

section \<open>Runs\<close>

abbreviation system_of :: "'re main_state \<Rightarrow> (nat \<Rightarrow> request) \<Rightarrow> 're request_state" where
  "system_of s f \<equiv> \<lparr>main_part = s, requests = f\<rparr>"

lemma request_move:
  assumes "do_reload_step i (s, q) l (t, q')" "ended s = None"
  shows "reload_step env name (system_of s (f(i := q))) l (system_of t (f(i := q')))"
  using r_request [of "system_of s (f(i := q))" i l t q' env name] assms by simp

lemma quiet_move:
  assumes "signal_step s l t \<or> loop_step env name s l t" "ended s = None"
  shows "reload_step env name (system_of s f) l (system_of t f)"
proof -
  from assms(1) have "in_status t = in_status s"
  proof
    assume "loop_step env name s l t"
    then show ?thesis
    proof cases
      case (m_load r k)
      then show ?thesis by (cases "(k, r, s)" rule: after_load.cases) simp_all
    next
      case (m_init k c q)
      then show ?thesis by (cases "(k, q, s)" rule: after_init.cases) simp_all
    qed simp_all
  qed (auto elim!: signal_step.cases simp: handle_signal_def cond_signal_def split: signal.splits if_splits)
  with assms r_main [of env name "system_of s f" l t] show ?thesis by (auto simp: main_step_def)
qed

lemma quiet_run:
  assumes "lrun (main_step env name) s tr t" "\<And>i. \<not> in_call (f i)"
  shows "lrun (reload_step env name) (system_of s f) tr (system_of t f)"
  using assms(1)
proof (induction rule: lrun.induct)
  case (lrun_snoc s tr t l u)
  with assms(2) r_main [of env name "system_of t f" l u] show ?case by (auto intro: lrun.lrun_snoc)
qed (rule lrun.lrun_nil)

text \<open>A call up to its SIGHUP, the first turn of its loop, and SIGHUP in the signal thread.\<close>

lemma first_look_run:
  assumes "request_at (f i) = Q_idle" "config_mutex s = None" "in_status s = {}" "ended s = None"
  shows "lrun (reload_step env name) (system_of s f) [L_step, L_step, L_step, L_step, L_raise SIGHUP]
    (system_of (s\<lparr>pending := insert SIGHUP (pending s)\<rparr>)
       (f(i := \<lparr>request_at = Q_test, current_config = current s, new_config = current s, request_i = 0\<rparr>)))"
proof -
  let ?step = "reload_step env name" and ?q = "f i"
  let ?q1 = "?q\<lparr>request_at := Q_lock\<rparr>"
  let ?q2 = "?q\<lparr>request_at := Q_look\<rparr>"
  let ?q3 = "?q\<lparr>request_at := Q_unlock, current_config := current s, new_config := current s\<rparr>"
  let ?q4 = "?q3\<lparr>request_at := Q_kill\<rparr>"
  let ?q5 = "?q3\<lparr>request_at := Q_test, request_i := 0\<rparr>"
  have s: "s\<lparr>config_mutex := None, in_status := {}\<rparr> = s" using assms by (cases s) simp
  have a1: "?step (system_of s f) L_step (system_of s (f(i := ?q1)))"
    using request_move [OF q_begin [of ?q i s], of env name f] assms by simp
  have a2: "?step (system_of s (f(i := ?q1))) L_step (system_of (lock_config i s) (f(i := ?q2)))"
    using request_move [OF q_lock [of ?q1 s i], of env name f] assms by simp
  have a3: "?step (system_of (lock_config i s) (f(i := ?q2))) L_step (system_of (lock_config i s) (f(i := ?q3)))"
    using request_move [OF q_look [of ?q2 i "lock_config i s"], of env name f] assms by simp
  have a4: "?step (system_of (lock_config i s) (f(i := ?q3))) L_step (system_of s (f(i := ?q4)))"
    using request_move [OF q_unlock [of ?q3 i "lock_config i s"], of env name f] assms s by simp
  have a5: "?step (system_of s (f(i := ?q4))) (L_raise SIGHUP) (system_of (s\<lparr>pending := insert SIGHUP (pending s)\<rparr>) (f(i := ?q5)))"
    using request_move [OF q_kill [of ?q4 i s], of env name f] assms by simp
  have q: "?q5 = \<lparr>request_at = Q_test, current_config = current s, new_config = current s, request_i = 0\<rparr>"
    by (cases ?q) simp
  from lrun_Cons [where step = ?step, OF a1 lrun_Cons [where step = ?step, OF a2 lrun_Cons [where step = ?step,
        OF a3 lrun_Cons [where step = ?step, OF a4 lrun_one [where step = ?step, OF a5]]]]]
  show ?thesis by (simp only: q)
qed

lemma second_look_run:
  assumes "config_mutex s = None" "in_status s = {}" "ended s = None" "current s \<noteq> p"
  shows "lrun (reload_step env name)
    (system_of s (f(i := \<lparr>request_at = Q_test, current_config = p, new_config = p, request_i = 0\<rparr>)))
    [L_step, L_step, L_step, L_step, L_step]
    (system_of s (f(i := \<lparr>request_at = Q_answered True, current_config = p, new_config = current s, request_i = 1\<rparr>)))"
proof -
  let ?step = "reload_step env name" and ?q = "\<lparr>request_at = Q_test, current_config = p, new_config = p, request_i = 0\<rparr>"
  let ?q1 = "?q\<lparr>request_at := Q_lock_again\<rparr>"
  let ?q2 = "?q\<lparr>request_at := Q_look_again\<rparr>"
  let ?q3 = "?q\<lparr>request_at := Q_unlock_again, new_config := current s\<rparr>"
  let ?q4 = "?q3\<lparr>request_at := Q_test, request_i := 1\<rparr>"
  let ?q5 = "?q4\<lparr>request_at := Q_answered True\<rparr>"
  have s: "s\<lparr>config_mutex := None, in_status := {}\<rparr> = s" using assms by (cases s) simp
  have a1: "?step (system_of s (f(i := ?q))) L_step (system_of s (f(i := ?q1)))"
    using request_move [OF q_test [of ?q i s], of env name f] assms by (simp add: wait_secs_def)
  have a2: "?step (system_of s (f(i := ?q1))) L_step (system_of (lock_config i s) (f(i := ?q2)))"
    using request_move [OF q_lock_again [of ?q1 s i], of env name f] assms by simp
  have a3: "?step (system_of (lock_config i s) (f(i := ?q2))) L_step (system_of (lock_config i s) (f(i := ?q3)))"
    using request_move [OF q_look_again [of ?q2 i "lock_config i s"], of env name f] assms by simp
  have a4: "?step (system_of (lock_config i s) (f(i := ?q3))) L_step (system_of s (f(i := ?q4)))"
    using request_move [OF q_unlock_again [of ?q3 i "lock_config i s"], of env name f] assms s by simp
  have a5: "?step (system_of s (f(i := ?q4))) L_step (system_of s (f(i := ?q5)))"
    using request_move [OF q_test [of ?q4 i s], of env name f] assms by simp
  have q: "?q5 = \<lparr>request_at = Q_answered True, current_config = p, new_config = current s, request_i = 1\<rparr>"
    using assms by simp
  from lrun_Cons [where step = ?step, OF a1 lrun_Cons [where step = ?step, OF a2 lrun_Cons [where step = ?step,
        OF a3 lrun_Cons [where step = ?step, OF a4 lrun_one [where step = ?step, OF a5]]]]]
  show ?thesis by (simp only: q)
qed

lemma sighup_run:
  assumes "signal_pc s = S_sigwait" "pending s = {SIGHUP}" "reload_lock s = None" "ended s = None"
  shows "lrun (reload_step env name) (system_of s f) [L_step, L_step, L_step, L_step]
    (system_of (cond_signal (s\<lparr>pending := {}\<rparr>)) f)"
proof -
  let ?step = "reload_step env name"
  let ?s1 = "s\<lparr>pending := {}, signal_pc := S_hup_lock\<rparr>"
  let ?s2 = "?s1\<lparr>signal_pc := S_hup_locked, reload_lock := Some By_signal_thread\<rparr>"
  let ?s3 = "?s1\<lparr>signal_pc := S_hup_signal\<rparr>"
  have "signal_step s L_step ?s1"
    using g_take [of s SIGHUP] assms by (simp add: handle_signal_def)
  moreover have "signal_step ?s1 L_step ?s2" using g_lock [of ?s1] assms by simp
  moreover have "signal_step ?s2 L_step ?s3" using g_unlock [of ?s2] assms by (cases s) simp
  moreover have "signal_step ?s3 L_step (cond_signal (s\<lparr>pending := {}\<rparr>))"
    using g_signal [of ?s3] assms by (cases s) simp
  ultimately show ?thesis
    by (intro lrun_Cons [where step = ?step, OF quiet_move [of s _ ?s1]] lrun_Cons [where step = ?step, OF quiet_move [of ?s1 _ ?s2]]
      lrun_Cons [where step = ?step, OF quiet_move [of ?s2 _ ?s3]] lrun_one [where step = ?step, OF quiet_move [of ?s3]])
      (simp_all add: assms)
qed

lemma swap_run:
  assumes "reload_at s = M_initialized k" "k \<noteq> current s" "config_mutex s = None" "reload_lock s = None" "ended s = None"
  shows "lrun (reload_step env name) (system_of s f) [L_step, L_step, L_swap (configs s k), L_step, L_step]
    (system_of (s\<lparr>reload_at := M_waiting, current := k, configs := (configs s)(current s := None)\<rparr>) f)"
proof -
  let ?step = "reload_step env name"
  let ?s1 = "s\<lparr>reload_at := M_swapping k, config_mutex := Some Held_by_main\<rparr>"
  let ?s2 = "?s1\<lparr>reload_at := M_deleted k, configs := (configs s)(current s := None)\<rparr>"
  let ?s3 = "s\<lparr>reload_at := M_begin, current := k, configs := (configs s)(current s := None)\<rparr>"
  let ?s4 = "?s3\<lparr>reload_at := M_holding, reload_lock := Some By_main\<rparr>"
  let ?s5 = "s\<lparr>reload_at := M_waiting, current := k, configs := (configs s)(current s := None)\<rparr>"
  have "loop_step env name s L_step ?s1" using assms by (intro m_swap_lock)
  moreover have "loop_step env name ?s1 L_step ?s2" using m_delete [of ?s1 k env name] by simp
  moreover have "loop_step env name ?s2 (L_swap (configs s k)) ?s3"
    using m_swap [of ?s2 k env name] assms by (cases s) simp
  moreover have "loop_step env name ?s3 L_step ?s4" using assms by (intro m_lock) simp_all
  moreover have "loop_step env name ?s4 L_step ?s5" using m_wait [of ?s4 env name] assms by (cases s) simp
  ultimately show ?thesis
    by (intro lrun_Cons [where step = ?step, OF quiet_move [of s _ ?s1]] lrun_Cons [where step = ?step, OF quiet_move [of ?s1 _ ?s2]]
      lrun_Cons [where step = ?step, OF quiet_move [of ?s2 _ ?s3]] lrun_Cons [where step = ?step, OF quiet_move [of ?s3 _ ?s4]]
      lrun_one [where step = ?step, OF quiet_move [of ?s4]])
      (simp_all add: assms)
qed

text \<open>From the start to the point where the first reload has built its configuration.\<close>

lemma built_run:
  fixes log :: "'re log_state"
  assumes "load_new (env 0) name = Some (Inr (Some c))" "init_new (env 0) c = Some (Inr (Some (c', pools, fs)))"
  shows "\<exists>tr. lrun (reload_step env name) (request_init c0 log) tr
    (system_of ((main_init c0 log)\<lparr>reload_at := M_initialized 1, attempts := 1, configs := [0 \<mapsto> c0, 1 \<mapsto> c']\<rparr>) (\<lambda>_. no_request))"
proof -
  let ?step = "main_step env name" and ?init = "main_init c0 log"
  let ?s1 = "?init\<lparr>reload_at := M_reload\<rparr>"
  let ?s2 = "after_load 1 (Inr (Some c)) ?s1"
  let ?s3 = "after_init 1 (Inr (Some (c', pools, fs))) ?s2"
  have "lrun ?step ?init [L_step, L_step, L_step, L_step] ?s1"
    by (rule timeout_reaches_reload) (simp_all add: main_init_def)
  moreover have "?step ?s1 L_step ?s2"
    using assms by (intro loop_main m_load) (simp_all add: main_init_def)
  moreover have "?step ?s2 L_step ?s3"
    using assms by (intro loop_main m_init [of _ _ c]) (simp_all add: main_init_def)
  ultimately have "lrun ?step ?init (([L_step, L_step, L_step, L_step] @ [L_step]) @ [L_step]) ?s3"
    by (intro lrun_snoc)
  moreover have "?s3 = ?init\<lparr>reload_at := M_initialized 1, attempts := 1, configs := [0 \<mapsto> c0, 1 \<mapsto> c']\<rparr>"
    by (simp add: main_init_def)
  ultimately show ?thesis
    using quiet_run [of env name ?init _ ?s3 "\<lambda>_. no_request"]
    by (auto simp: request_init_def in_call_def no_request_def)
qed

text \<open>A call that falls into the end of a reload, from its beginning to the answer.\<close>

lemma call_during_swap:
  assumes "f i = no_request" "reload_at s = M_initialized k" "k \<noteq> current s" "config_mutex s = None" "reload_lock s = None"
    "in_status s = {}" "ended s = None" "pending s = {}" "signal_pc s = S_sigwait"
  shows "lrun (reload_step env name) (system_of s f)
    ([L_step, L_step, L_step, L_step, L_raise SIGHUP] @ [L_step, L_step, L_step, L_step] @
     [L_step, L_step, L_swap (configs s k), L_step, L_step] @ [L_step, L_step, L_step, L_step, L_step])
    (system_of (s\<lparr>reload_at := M_waiting, current := k, configs := (configs s)(current s := None)\<rparr>)
      (f(i := \<lparr>request_at = Q_answered True, current_config = current s, new_config = k, request_i = 1\<rparr>)))"
proof -
  let ?step = "reload_step env name"
  let ?q = "\<lparr>request_at = Q_test, current_config = current s, new_config = current s, request_i = 0\<rparr>"
  let ?s1 = "s\<lparr>pending := {SIGHUP}\<rparr>"
  let ?t = "s\<lparr>reload_at := M_waiting, current := k, configs := (configs s)(current s := None)\<rparr>"
  have "lrun ?step (system_of s f) [L_step, L_step, L_step, L_step, L_raise SIGHUP] (system_of ?s1 (f(i := ?q)))"
    using first_look_run [of f i s env name] assms by (simp add: no_request_def)
  moreover have "lrun ?step (system_of ?s1 (f(i := ?q))) [L_step, L_step, L_step, L_step] (system_of s (f(i := ?q)))"
    using sighup_run [of ?s1 env name] assms by (cases s) (simp add: cond_signal_def)
  moreover have "lrun ?step (system_of s (f(i := ?q))) [L_step, L_step, L_swap (configs s k), L_step, L_step] (system_of ?t (f(i := ?q)))"
    using assms by (intro swap_run)
  moreover have "lrun ?step (system_of ?t (f(i := ?q))) [L_step, L_step, L_step, L_step, L_step]
      (system_of ?t (f(i := \<lparr>request_at = Q_answered True, current_config = current s, new_config = k, request_i = 1\<rparr>)))"
    using second_look_run [of ?t "current s" env name f i] assms by simp
  ultimately show ?thesis by (blast intro: lrun_trans [where step = ?step])
qed




text \<open>From the wake-up by a signal to the wait again, when both calls succeed.\<close>

lemma woken_reload_run:
  assumes "reload_at s = M_woken" "reload_lock s = None" "\<not> system_done s" "config_mutex s = None" "ended s = None"
    and "configs s k = None" "k \<noteq> current s"
    and "load_new (env (attempts s)) name = Some (Inr (Some c))"
    and "init_new (env (attempts s)) c = Some (Inr (Some (c', pools, fs)))"
  shows "lrun (reload_step env name) (system_of s f)
    ([L_step, L_step, L_step, L_step] @ [L_step, L_step, L_swap (Some c'), L_step, L_step])
    (system_of (s\<lparr>reload_at := M_waiting, attempts := attempts s + 1, current := k,
       configs := (configs s)(k \<mapsto> c', current s := None)\<rparr>) f)"
proof -
  let ?step = "reload_step env name"
  let ?s1 = "s\<lparr>reload_at := M_check, reload_lock := Some By_main\<rparr>"
  let ?s2 = "s\<lparr>reload_at := M_reload\<rparr>"
  let ?s3 = "s\<lparr>reload_at := M_loaded k, configs := (configs s)(k \<mapsto> c)\<rparr>"
  let ?s4 = "s\<lparr>reload_at := M_initialized k, attempts := attempts s + 1, configs := (configs s)(k \<mapsto> c')\<rparr>"
  have "loop_step env name s L_step ?s1" using assms by (intro m_woken)
  moreover have "loop_step env name ?s1 L_step ?s2" using m_check [of ?s1 env name] assms by (cases s) simp
  moreover have "loop_step env name ?s2 L_step ?s3" using m_load [of ?s2 env name "Inr (Some c)" k] assms by simp
  moreover have "loop_step env name ?s3 L_step ?s4"
    using m_init [of ?s3 k c env "Inr (Some (c', pools, fs))" name] assms by (cases s) simp
  ultimately have "lrun ?step (system_of s f) [L_step, L_step, L_step, L_step] (system_of ?s4 f)"
    by (intro lrun_Cons [where step = ?step, OF quiet_move [of s _ ?s1]] lrun_Cons [where step = ?step, OF quiet_move [of ?s1 _ ?s2]]
      lrun_Cons [where step = ?step, OF quiet_move [of ?s2 _ ?s3]] lrun_one [where step = ?step, OF quiet_move [of ?s3]])
      (simp_all add: assms)
  moreover have "lrun ?step (system_of ?s4 f) [L_step, L_step, L_swap (Some c'), L_step, L_step]
     (system_of (s\<lparr>reload_at := M_waiting, attempts := attempts s + 1, current := k,
       configs := (configs s)(k \<mapsto> c', current s := None)\<rparr>) f)"
    using swap_run [of ?s4 k env name f] assms by (cases s) simp
  ultimately show ?thesis by (blast intro: lrun_trans [where step = ?step])
qed



end
