(* ===== verification/Spec2Isabelle.thy ===== *)
theory Spec2Isabelle
  imports Round_Writes Rrd_Fair Sched_Fair Control_Fair Config_Rows Config_Threads Class_Pacing Reload_Request
begin

text \<open>
  \<^bold>\<open>A verification development for the SNAPP collector.\<close>

  The collector polls network devices over SNMP and stores what they answer in round-robin
  databases (RRD files). Its configuration is a small XML file that names a database, and that
  database: hosts, classes of collections, and the mapping sequences that turn a name such as an
  interface description into the suffix of an OID. The parts and how they interact:

  \<^item> \<^verbatim>\<open>main\<close> (\<^verbatim>\<open>src/src/sql-collector.cpp\<close>) reads the command line, becomes a daemon, loads and starts a
    configuration and then reloads it every two hours or on a signal, which a thread of its own
    receives;
  \<^item> a configuration (\<^verbatim>\<open>snapp_config.cpp\<close>, \<^verbatim>\<open>xml_load.c\<close>) loads its rows, creates missing RRD files, has
    every host's tables walked (\<^verbatim>\<open>host_info.cpp\<close>) and maps the suffixes;
  \<^item> each collection class (\<^verbatim>\<open>collection_class.cpp\<close>) has a main thread that hands its hosts to a pool of
    workers once per interval; a worker asks the host for all its collections and pushes the values;
  \<^item> the writer (\<^verbatim>\<open>rrd_writer.cpp\<close>) queues an update by the hash (\<^verbatim>\<open>hash_32.c\<close>) of its file name and
    writes it from one thread per queue;
  \<^item> the control port (\<^verbatim>\<open>snapp_control.cpp\<close>) lets a client look at the state, reload and change the log
    expression (\<^verbatim>\<open>util.c\<close>).

  \<^bold>\<open>Conventions.\<close> A class is a record, an operation a function from the old state to the new one with
  the value the code returns. \<open>failure\<close> (theory \<open>Snapp_Prelude\<close>) is what C++ does when an operation has
  no result: a failed assertion, undefined behaviour, an arithmetic trap, an uncaught
  \<^verbatim>\<open>out_of_range\<close>, \<^verbatim>\<open>exit\<close>; a \<open>result\<close> is a failure or a value. Integers keep their width; a
  character array is a list of characters that a reader scans up to the NUL (\<open>read_buf\<close>, undefined
  without one), and memory that the code does not initialise is a parameter. Threads are
  \<open>inductive\<close> step relations over a record of the shared state and the program counters; what is
  atomic in a step is what the code does under one lock or without a shared access. A run is
  \<open>lrun\<close> (theory \<open>Sem_Queue\<close>). A loop that need not end is a \<open>partial_function (option)\<close>: None is
  exactly that it never ends, so no fuel is chosen anywhere; the only numeric bounds are those of the
  code. Code that is not in the repository is a parameter: net-snmp (\<open>snmp_lib\<close>), libdbi
  (\<open>database\<close>), libxml2 (\<open>xml_doc\<close>), PCRE, RRDtool, the file system and the system calls.

  \<^bold>\<open>Theories.\<close>

  \<^item> \<open>Snapp_Prelude\<close>: results, C strings, decimal numbers, \<^verbatim>\<open>strtok_r\<close>, \<^verbatim>\<open>strstr\<close>, \<^verbatim>\<open>atoi\<close>.
  \<^item> \<open>Index_Table\<close>, \<open>Sem_Queue\<close>: the two interfaces. The first is a vector with an index from keys
    to positions (interpreted by hosts, sequences, file names and templates); the second a locked
    queue with a semaphore that counts its items (interpreted by the writer's queues, the
    collectors' pool and the control port): what is taken is what was put, in order, and a taker
    always finds an item.
  \<^item> \<open>Fair_Runs\<close>: infinite runs, weak and strong fairness, and the interface of a queue that is served
    (interpreted by the same three): in a fair run what is pending is served in the end, in order.
  \<^item> \<open>Fnv_Hash\<close> (\<^verbatim>\<open>hash_32.c\<close>, \<^verbatim>\<open>fnv.h\<close>): equality with the published function.
  \<^item> \<open>Long_Double\<close>: \<^verbatim>\<open>strtold\<close> and \<^verbatim>\<open>long double\<close> as far as the writer uses them.
  \<^item> \<open>Util_Log\<close> (\<^verbatim>\<open>util.c\<close>): which messages reach the log; when the flush returns.
  \<^item> \<open>Rrd_Writer\<close>, \<open>Rrd_Pipeline\<close>, \<open>Rrd_Drain\<close> (\<^verbatim>\<open>rrd_writer.cpp\<close>): the operations, what is written for
    what is pushed, statistics; then all interleavings of producers and writers: order per file, no
    empty \<^verbatim>\<open>front()\<close>, the account of every semaphore, how a wake-up can be lost, and that without a
    lost one everything the collectors push can be written. \<open>Rrd_Fair\<close>: in every fair infinite run it
    is written.
  \<^item> \<open>Snmp_Env\<close>, \<open>Host_Info\<close>, \<open>Host_Table\<close> (\<^verbatim>\<open>host_info.cpp\<close>): the table walk, what it loads and when it
    ends; the parallel loading of all hosts.
  \<^item> \<open>Collection_Class\<close>, \<open>Collection_Sched\<close> (\<^verbatim>\<open>collection_class.cpp\<close>): mapping sequences, cleaning of
    values, one round of a host and its clock; then the pool of a class, its rounds and its
    shutdown. \<open>Sched_Fair\<close>: in every fair infinite run each host is collected again and
    again. \<open>Class_Pacing\<close>: the sleep between two rounds and the factor that corrects it, a
    \<^verbatim>\<open>double\<close> as the rational number it stands for, rounded as the format rounds.
  \<^item> \<open>Xml_Load\<close> (\<^verbatim>\<open>xml_load.c\<close>), \<open>Snapp_Config\<close>, \<open>Config_Init\<close>, \<open>Config_Wf\<close> (\<^verbatim>\<open>snapp_config.cpp\<close>): the
    settings of the file; the loaders, that paging is invisible and that nothing is lost; RRD
    files and suffixes; the shape every loaded configuration has, and that it excludes the
    failures of the later stages. \<open>Config_Rows\<close>: the abstract reading of the database row by row,
    which loading and starting refines, and from it what a round of all classes updates.
    \<open>Config_Threads\<close>: all classes of a configuration together, with the session semaphore they
    share, up to the destruction of the configuration in the order of its members.
  \<^item> \<open>Snapp_Control\<close> (\<^verbatim>\<open>snapp_control.cpp\<close>): the dialogue, who may do what, the queue of connections;
    \<open>Control_Fair\<close>: in a fair run, in which dialogues end, every client gets its turn.
  \<^item> \<open>Collector_Start\<close>, \<open>Collector_Main\<close> (\<^verbatim>\<open>sql-collector.cpp\<close>): start-up as the list of its effects;
    the main, signal and control threads around the running configuration. \<open>Reload_Request\<close>: beside
    them the reload command of one control connection step by step (\<^verbatim>\<open>do_reload\<close> of
    \<^verbatim>\<open>snapp_control.cpp\<close>), and what its answers 200 and 550 say of the main program.
  \<^item> \<open>Round_Writes\<close>: pushing the updates of one round of a host is a run of the writer.
  \<^item> this theory: what spans components, from an agent's answers in a round to the text RRDtool is given.

  \<^bold>\<open>Not modelled.\<close> The second half of \<open>load_oid_table_get\<close> of \<^verbatim>\<open>host_info.cpp\<close> (it lies behind an
  assertion that always fails); the texts of log messages and of SQL queries; output-only functions
  (\<^verbatim>\<open>print_help\<close>, \<^verbatim>\<open>print_version\<close>, \<^verbatim>\<open>list_drivers\<close>); stack sizes and other thread attributes;
  the destructor of the one static writer, which runs when the process ends; the headers
  \<^verbatim>\<open>rrd_is_thread_safe.h\<close> and \<^verbatim>\<open>config.h\<close>. Allocation never fails, and reallocation of a vector does not
  move objects that are pointed to: the code reserves or fills its vectors before it takes addresses.
\<close>

section \<open>From the agent to the file\<close>

text \<open>
  One variable of an agent's answer that the collector can make something of: a number, a missing
  instance, or a negative number, as net-snmp prints them.
\<close>

datatype reading = Value string nat | No_instance | Negative string nat

fun varbind_of :: "oid \<Rightarrow> reading \<Rightarrow> varbind" where
  "varbind_of name (Value ty n) = \<lparr>vb_name = name, vb_type = Ordinary, vb_print = ty @ '': '' @ show_nat n\<rparr>"
| "varbind_of name No_instance = \<lparr>vb_name = name, vb_type = SNMP_NOSUCHINSTANCE, vb_print = []\<rparr>"
| "varbind_of name (Negative ty n) = \<lparr>vb_name = name, vb_type = Ordinary, vb_print = ty @ '': -'' @ show_nat n\<rparr>"

fun reading_ok :: "reading \<Rightarrow> bool" where
  "reading_ok (Value ty n) \<longleftrightarrow> ty \<in> set numeric_types \<and> n < 2 ^ 64"
| "reading_ok No_instance \<longleftrightarrow> True"
| "reading_ok (Negative ty n) \<longleftrightarrow> ty \<in> set numeric_types"

fun sample_of :: "reading \<Rightarrow> sample" where
  "sample_of (Value ty n) = Counter n"
| "sample_of No_instance = Unknown"
| "sample_of (Negative ty n) = Unreadable"

definition ticks_var :: "nat \<Rightarrow> string \<Rightarrow> varbind" where
  "ticks_var n rest = \<lparr>vb_name = [1, 3, 6, 1, 2, 1, 1, 3, 0], vb_type = Ordinary,
     vb_print = ''Timeticks: ('' @ show_nat n @ '')'' @ rest\<rparr>"

lemma numeric_type_no_nul: "ty \<in> set numeric_types \<Longrightarrow> no_nul ty"
  by (auto simp: numeric_types_def no_nul_def)

lemma no_nul_show_nat: "no_nul (show_nat n)"
  using show_nat_chars [of nul n] by (simp add: no_nul_def is_digit_def)

lemma length_request_oids: "request_oids lib c ocs = Some oids \<Longrightarrow> length oids = length ocs + 1"
  by (induction ocs arbitrary: oids) (auto split: option.splits)

lemma collect_reading:
  assumes "reading_ok r"
  shows "collect_values (varbind_of name r # vars) =
    bind_result (collect_values vars) (\<lambda>vs. Inr (map_option ((#) (sample_text (sample_of r))) vs))"
proof (cases r)
  case (Value ty n)
  with assms have "get_clean_snmpvalue (c_str (ty @ '': '' @ show_nat n)) = Inr (show_nat n)"
    using clean_typed_values [of ty n] numeric_type_no_nul [of ty] no_nul_show_nat [of n]
    by (subst c_str_no_nul) (auto simp: no_nul_def)
  with Value show ?thesis by simp
next
  case (Negative ty n)
  with assms have "get_clean_snmpvalue (c_str (ty @ '': -'' @ show_nat n)) = Inr ''U''"
    using clean_typed_values [of ty n] numeric_type_no_nul [of ty] no_nul_show_nat [of n]
    by (subst c_str_no_nul) (auto simp: no_nul_def)
  with Negative show ?thesis by simp
qed simp

lemma collect_readings:
  assumes "list_all reading_ok rs" "length names \<ge> length rs" "no_nul rest"
  shows "collect_values (map2 varbind_of names rs @ [ticks_var n rest]) =
    Inr (Some (map (sample_text \<circ> sample_of) rs @ [show_nat n]))"
  using assms
proof (induction rs arbitrary: names)
  case Nil
  have "no_nul (''Timeticks: ('' @ show_nat n @ '')'' @ rest)"
    using Nil.prems no_nul_show_nat [of n] by (auto simp: no_nul_def)
  then have "get_clean_snmpvalue (c_str (''Timeticks: ('' @ show_nat n @ '')'' @ rest)) = Inr (show_nat n)"
    using clean_typed_values [of "''INTEGER''" n rest] by (simp only: c_str_no_nul) (simp add: numeric_types_def)
  then show ?case by (simp add: ticks_var_def)
next
  case (Cons r rs)
  then obtain name names' where names: "names = name # names'" by (cases names) auto
  with Cons have "collect_values (map2 varbind_of names' rs @ [ticks_var n rest]) =
      Inr (Some (map (sample_text \<circ> sample_of) rs @ [show_nat n]))" by simp
  moreover from Cons.prems have "reading_ok r" by simp
  ultimately show ?case using names by (simp add: collect_reading del: collect_values.simps(2))
qed

lemma sample_of_ok: "reading_ok r \<Longrightarrow> sample_ok (sample_of r)"
  by (cases r) simp_all

text \<open>From the agent to the file: when a host answers the request of a collection with up to 19
  values, the round pushes one update, the writer accepts it, and the worker that takes it tells
  RRD, for the file of the collection under the configured directory and the data sources of the
  class, the time of the update and exactly the counters the agent sent, digit for digit, and
  \<^verbatim>\<open>U\<close> for an instance the agent does not have. A negative number, which the collector marks with
  \<^verbatim>\<open>U\<close> as unknown, is told as the measurement 0.
\<close>

theorem agent_to_rrd:
  assumes "sh_host h = Some i" "i < length hosts" "collection h = [c]" "\<not> mapping_failed c"
    and "lib = snmp (ip_address (hosts ! i)) (community (hosts ! i))" "sess_open_ok lib 0"
    and "request_oids lib c ocs = Some oids"
    and "synch_response lib 0 (Get oids) = Stat_success True (map2 varbind_of oids rs @ [ticks_var n rest])"
    and "length rs = length ocs" "rs \<noteq> []" "length rs \<le> 19" "list_all reading_ok rs" "no_nul rest" "n < 2 ^ 32 - 1"
    and "\<And>j. 0 \<le> sint (now j)" "0 \<le> sint (mytime h)"
    and "filename_table_ok w" "template_table_ok w" "data_queue w \<noteq> []"
    and "length (file_info w) < 2 ^ 32" "length (rrd_template w) < 2 ^ 32"
    and "no_nul (dir @ rrd_filename c)" "length (dir @ rrd_filename c) < 1023"
    and "no_nul (join_with CHR '':'' (map ds_name ocs))" "length (join_with CHR '':'' (map ds_name ocs)) < 1023"
    and "nul \<in> set (wk_filename k)"
  shows "\<exists>h' p w' d k'.
    get_collect snmp hosts now ocs dir h = Inr (0, h', [p]) \<and>
    push_data None junk w (p_time p) (p_filename p) (p_template p) (p_values p) = Inr (0, w') \<and>
    datum_queue (data_queue w' ! queue_of (length (data_queue w)) (dir @ rrd_filename c)) =
      datum_queue (data_queue w ! queue_of (length (data_queue w)) (dir @ rrd_filename c)) @ [d] \<and>
    worker_write env w' k d = Inr (k', [Rrd_update (dir @ rrd_filename c) (join_with CHR '':'' (map ds_name ocs))
      (join_with CHR '':'' (show_nat (nat (p_time p)) # map (sample_rrd \<circ> sample_of) rs))])"
proof -
  define vals where "vals = map sample_text (map sample_of rs)"
  define h' where "h' = advance_clock (now 1) (of_nat n) h"
  define p where "p = \<lparr>p_time = final_time (of_nat n) h', p_filename = dir @ rrd_filename c,
    p_template = join_with CHR '':'' (map ds_name ocs), p_values = join_with CHR '':'' vals\<rparr>"
  have "unat (- 1 :: 32 word) = 4294967295" by (simp add: unat_eq_nat_uint uint_word_ariths mask_eq_exp_minus_1)
  then have tt: "atoi (show_nat n) = of_nat n" "(of_nat n :: 32 word) \<noteq> - 1"
    using assms(14) atoi_show_nat [of n] unat_of_nat_size32 [of n] by auto
  have "length oids \<ge> length rs" using length_request_oids [OF assms(7)] assms(9) by simp
  from collect_readings [OF assms(12) this assms(13)]
  have cv: "collect_values (map2 varbind_of oids rs @ [ticks_var n rest]) = Inr (Some (vals @ [show_nat n]))"
    by (simp add: vals_def)
  have len: "length vals = length ocs" "ocs \<noteq> []" using assms(9,10) by (auto simp: vals_def)
  have "get_collect snmp hosts now ocs dir h = Inr (0, h', [p])"
    using assms(1-8) cv tt len
    by (simp add: get_collect_def vector_at_def collect_one_def handle_values_def Let_def
        nth_append h'_def p_def)
  moreover have t: "0 \<le> p_time p" "p_time p < 2 ^ 64"
    using final_time_range [OF assms(15,16)] by (simp_all add: p_def h'_def)
  have "\<exists>w' d k'. push_data None junk w (p_time p) (dir @ rrd_filename c) (join_with CHR '':'' (map ds_name ocs))
        (join_with CHR '':'' (map sample_text (map sample_of rs))) = Inr (0, w') \<and>
      datum_queue (data_queue w' ! queue_of (length (data_queue w)) (dir @ rrd_filename c)) =
        datum_queue (data_queue w ! queue_of (length (data_queue w)) (dir @ rrd_filename c)) @ [d] \<and>
      worker_write env w' k d = Inr (k', [Rrd_update (dir @ rrd_filename c) (join_with CHR '':'' (map ds_name ocs))
        (join_with CHR '':'' (show_nat (nat (p_time p)) # map sample_rrd (map sample_of rs)))])"
    using assms t by (intro samples_written) (auto simp: list_all_iff intro: sample_of_ok)
  ultimately show ?thesis by (fastforce simp: p_def vals_def)
qed

definition three_readings :: "reading list" where
  "three_readings = [Value ''Counter64'' 42, No_instance, Negative ''INTEGER'' 5]"

definition three_agent :: snmp_lib where
  "three_agent = \<lparr>read_objid = (\<lambda>_. Some [1]), sess_open_ok = (\<lambda>_. True),
     synch_response = (\<lambda>_ _. Stat_success True
       (map2 varbind_of [[1], [1], [1], [1, 3, 6, 1, 2, 1, 1, 3, 0]] three_readings @ [ticks_var 900 []])),
     snprint_objid = (\<lambda>_ _. [])\<rparr>"

definition three_ocs :: "oid_collection list" where
  "three_ocs = map (\<lambda>n. \<lparr>oid_prefix = ''1'', ds_datatype = ''COUNTER'', ds_name = n\<rparr>) [''in'', ''out'', ''err'']"

definition three_collection :: sql_collection where
  "three_collection = \<lparr>premaping_oid_suffix = ''eth'', post_mapping_oid_suffix = ''5'',
     oid_mapping_sequence_db_id = 1, rrd_filename = ''e.rrd''\<rparr>"

theorem agent_to_rrd_witness:
  "\<exists>h' p w' d k'.
    get_collect (\<lambda>_ _. three_agent) [new_host_info 0] (\<lambda>_. 1000) three_ocs ''/d/''
      \<lparr>collection = [three_collection], sh_host = Some 0, timeticks = 0, mytime = 0\<rparr> = Inr (0, h', [p]) \<and>
    push_data None [] two_queue_writer (p_time p) (p_filename p) (p_template p) (p_values p) = Inr (0, w') \<and>
    worker_write \<lparr>we_rrd_last = (\<lambda>_. 0), we_now = 0, we_rand = 0, we_rrd_update = (\<lambda>_ _ _. 0)\<rparr> w'
      \<lparr>wk_id = 0, wk_filename = [nul], wk_template_str = [], to_be_flushed = []\<rparr> d =
      Inr (k', [Rrd_update ''/d/e.rrd'' ''in:out:err'' (show_nat (nat (p_time p)) @ '':42:U:0'')])"
proof -
  have "show_nat 42 = ''42''" by code_simp
  then show ?thesis
    using agent_to_rrd [of "\<lparr>collection = [three_collection], sh_host = Some 0, timeticks = 0, mytime = 0\<rparr>" 0
        "[new_host_info 0]" three_collection three_agent "\<lambda>_ _. three_agent" three_ocs
        "[[1], [1], [1], [1, 3, 6, 1, 2, 1, 1, 3, 0]]" three_readings 900 "[]" "\<lambda>_. 1000" two_queue_writer "''/d/''"
        "\<lparr>wk_id = 0, wk_filename = [nul], wk_template_str = [], to_be_flushed = []\<rparr>" "[]"
        "\<lparr>we_rrd_last = (\<lambda>_. 0), we_now = 0, we_rand = 0, we_rrd_update = (\<lambda>_ _ _. 0)\<rparr>"]
      two_queue_writer_ok
    by (auto simp: three_collection_def three_ocs_def three_readings_def three_agent_def mapping_failed_def
        numeric_types_def no_nul_def) blast
qed

section \<open>A whole round\<close>

text \<open>
  The agent answers the request of each mapped collection \<open>c\<close> with the readings \<open>rd c\<close>, one per OID,
  and its tick counter \<open>n c\<close>.
\<close>

definition agent_reads ::
  "snmp_lib \<Rightarrow> oid_collection list \<Rightarrow> (sql_collection \<Rightarrow> reading list) \<Rightarrow> (sql_collection \<Rightarrow> nat) \<Rightarrow>
   sql_collection list \<Rightarrow> bool" where
  "agent_reads lib ocs rd n cs \<longleftrightarrow>
     (\<forall>c \<in> set cs. \<not> mapping_failed c \<longrightarrow> length (rd c) = length ocs \<and> list_all reading_ok (rd c) \<and> n c < 2 ^ 32 - 1 \<and>
        (\<exists>oids. request_oids lib c ocs = Some oids \<and>
           (\<forall>k. synch_response lib k (Get oids) = Stat_success True (map2 varbind_of oids (rd c) @ [ticks_var (n c) []]))))"

lemma atoi_ticks: "n < 2 ^ 32 - 1 \<Longrightarrow> atoi (show_nat n) \<noteq> - 1"
proof -
  have "unat (- 1 :: 32 word) = 4294967295" by (simp add: unat_eq_nat_uint uint_word_ariths mask_eq_exp_minus_1)
  then show "n < 2 ^ 32 - 1 \<Longrightarrow> ?thesis" using atoi_show_nat [of n] unat_of_nat_size32 [of n] by auto
qed

lemma agent_reads_answers:
  assumes "agent_reads lib ocs rd n cs"
  shows "answers_all lib ocs (\<lambda>c. map (sample_text \<circ> sample_of) (rd c)) (\<lambda>c. show_nat (n c)) cs"
  unfolding answers_all_def
proof (intro ballI impI conjI)
  fix c
  assume c: "c \<in> set cs" "\<not> mapping_failed c"
  with assms obtain oids where rd: "length (rd c) = length ocs" "list_all reading_ok (rd c)" "n c < 2 ^ 32 - 1"
    and oids: "request_oids lib c ocs = Some oids"
      "\<And>k. synch_response lib k (Get oids) = Stat_success True (map2 varbind_of oids (rd c) @ [ticks_var (n c) []])"
    unfolding agent_reads_def by blast
  have "length oids \<ge> length (rd c)" using length_request_oids [OF oids(1)] rd(1) by simp
  from collect_readings [OF rd(2) this, of "[]" "n c"] oids
  show "\<exists>oids. request_oids lib c ocs = Some oids \<and> (\<forall>k. \<exists>vars. synch_response lib k (Get oids) = Stat_success True vars \<and>
      collect_values vars = Inr (Some (map (sample_text \<circ> sample_of) (rd c) @ [show_nat (n c)])))"
    by (auto simp: no_nul_def)
  show "length (map (sample_text \<circ> sample_of) (rd c)) = length ocs" using rd(1) by simp
  show "atoi (show_nat (n c)) \<noteq> - 1" using atoi_ticks rd(3) by blast
qed

lemma round_updates:
  assumes "sh_host h = Some i" "i < length hosts" "ocs \<noteq> []" "length ocs \<le> 19"
    and "lib = snmp (ip_address (hosts ! i)) (community (hosts ! i))" "sess_open_ok lib 0"
    and "agent_reads lib ocs rd n (collection h)"
    and "\<And>j. 0 \<le> sint (now j)" "0 \<le> sint (mytime h)"
    and "\<And>c. c \<in> set (collection h) \<Longrightarrow> no_nul (dir @ rrd_filename c) \<and> length (dir @ rrd_filename c) < 1023"
    and "tmpl = join_with CHR '':'' (map ds_name ocs)" "no_nul tmpl" "length tmpl < 1023"
    and "cs = filter (\<lambda>c. \<not> mapping_failed c) (collection h)"
  shows "\<exists>h' ps. get_collect snmp hosts now ocs dir h = Inr (0, h', ps) \<and>
    list_all2 (\<lambda>c p. p_filename p = dir @ rrd_filename c \<and> p_template p = tmpl \<and> pushable (p, map sample_of (rd c))) cs ps"
proof -
  obtain h' ps where gc: "get_collect snmp hosts now ocs dir h = Inr (0, h', ps)"
    and ps: "map p_update ps = map (\<lambda>c. update_of ocs dir c (map (sample_text \<circ> sample_of) (rd c))) cs"
    using get_collect_answered [where snmp = snmp and now = now, OF assms(1-3,5,6) agent_reads_answers [OF assms(7)]]
    unfolding assms(14) by blast
  have len: "length ps = length cs" using arg_cong [OF ps, of length] by simp
  have "p_filename (ps ! j) = dir @ rrd_filename (cs ! j) \<and> p_template (ps ! j) = tmpl \<and>
      pushable (ps ! j, map sample_of (rd (cs ! j)))" if j: "j < length cs" for j
  proof -
    have p: "p_filename (ps ! j) = dir @ rrd_filename (cs ! j)" "p_template (ps ! j) = tmpl"
      "p_values (ps ! j) = join_with CHR '':'' (map sample_text (map sample_of (rd (cs ! j))))"
      using arg_cong [OF ps, of "\<lambda>xs. xs ! j"] j len by (simp_all add: update_of_def assms(11))
    have c: "cs ! j \<in> set (collection h)" "\<not> mapping_failed (cs ! j)"
      using nth_mem [OF j] by (simp_all add: assms(14))
    then have "length (rd (cs ! j)) = length ocs" "list_all reading_ok (rd (cs ! j))"
      using assms(7) unfolding agent_reads_def by blast+
    moreover have "printable_time (ps ! j)"
      using get_collect_times [OF gc assms(8,9)] j len by (simp add: list_all_length)
    ultimately show ?thesis
      using p assms(3,4,12,13) assms(10) [OF c(1)] by (auto simp: pushable_def list_all_iff intro: sample_of_ok)
  qed
  with gc len show ?thesis by (simp add: list_all2_conv_all_nth)
qed

text \<open>
  C1. From the agent to the files: when a host answers the requests of a round, the round returns 0 and
  makes one update per mapped collection, in order; pushing them is a run of the writer, whatever it
  has to do already; and whichever worker takes the datum of a collection tells RRD, for the file of
  the collection under the configured directory and the data sources of the class, the time of the
  update and exactly the counters the agent sent, digit for digit, \<^verbatim>\<open>U\<close> for an instance it does not have,
  and 0 for a negative number.
\<close>

theorem round_to_rrd:
  assumes "sh_host h = Some i" "i < length hosts" "ocs \<noteq> []" "length ocs \<le> 19"
    and "lib = snmp (ip_address (hosts ! i)) (community (hosts ! i))" "sess_open_ok lib 0"
    and "agent_reads lib ocs rd n (collection h)"
    and "\<And>j. 0 \<le> sint (now j)" "0 \<le> sint (mytime h)"
    and "\<And>c. c \<in> set (collection h) \<Longrightarrow> no_nul (dir @ rrd_filename c) \<and> length (dir @ rrd_filename c) < 1023"
    and "tmpl = join_with CHR '':'' (map ds_name ocs)" "no_nul tmpl" "length tmpl < 1023"
    and "all_writable s" "length (file_info (rs_writer s)) + length (collection h) < 2 ^ 32"
    and "length (rrd_template (rs_writer s)) + length (collection h) < 2 ^ 32"
  shows "\<exists>h' ps tr t. get_collect snmp hosts now ocs dir h = Inr (0, h', ps) \<and> lrun sample_step s tr t \<and>
    length ps = length (filter (\<lambda>c. \<not> mapping_failed c) (collection h)) \<and>
    list_all2 (\<lambda>(c, p) l. \<exists>d.
        l = L_push (queue_of (length (data_queue (rs_writer s))) (p_filename p)) (p_filename p) d \<and>
        (\<forall>env k. nul \<in> set (wk_filename k) \<longrightarrow> (\<exists>k'. worker_write env (rs_writer t) k d =
           Inr (k', [Rrd_update (dir @ rrd_filename c) tmpl
             (join_with CHR '':'' (show_nat (nat (p_time p)) # map (sample_rrd \<circ> sample_of) (rd c)))]))))
      (zip (filter (\<lambda>c. \<not> mapping_failed c) (collection h)) ps) tr"
proof -
  define cs where "cs = filter (\<lambda>c. \<not> mapping_failed c) (collection h)"
  obtain h' ps where gc: "get_collect snmp hosts now ocs dir h = Inr (0, h', ps)"
    and ps: "list_all2 (\<lambda>c p. p_filename p = dir @ rrd_filename c \<and> p_template p = tmpl \<and>
        pushable (p, map sample_of (rd c))) cs ps"
    using round_updates [where snmp = snmp and now = now and dir = dir, OF assms(1-13) cs_def] by blast
  then have len: "length ps = length cs" by (simp add: list_all2_lengthD)
  define us where "us = zip ps (map (\<lambda>c. map sample_of (rd c)) cs)"
  have us: "length us = length cs" "\<And>j. j < length cs \<Longrightarrow> us ! j = (ps ! j, map sample_of (rd (cs ! j)))"
    using len by (simp_all add: us_def)
  have "length cs \<le> length (collection h)" by (simp add: cs_def)
  moreover have "list_all pushable us" using ps us by (simp add: list_all2_conv_all_nth list_all_length)
  ultimately obtain tr t where t: "lrun sample_step s tr t"
    "list_all2 (\<lambda>(p, ss) l. \<exists>d. l = L_push (queue_of (length (data_queue (rs_writer s))) (p_filename p)) (p_filename p) d \<and>
      tells (rs_writer t) p ss d) us tr"
    using push_all [of us s] assms(14-16) us(1) by fastforce
  have "\<exists>d. tr ! j = L_push (queue_of (length (data_queue (rs_writer s))) (p_filename (ps ! j))) (p_filename (ps ! j)) d \<and>
      (\<forall>env k. nul \<in> set (wk_filename k) \<longrightarrow> (\<exists>k'. worker_write env (rs_writer t) k d =
         Inr (k', [Rrd_update (dir @ rrd_filename (cs ! j)) tmpl
           (join_with CHR '':'' (show_nat (nat (p_time (ps ! j))) # map (sample_rrd \<circ> sample_of) (rd (cs ! j))))])))"
    if j: "j < length cs" for j
  proof -
    from t(2) us j obtain d where d: "tr ! j = L_push (queue_of (length (data_queue (rs_writer s))) (p_filename (ps ! j))) (p_filename (ps ! j)) d"
      "tells (rs_writer t) (ps ! j) (map sample_of (rd (cs ! j))) d"
      by (force simp: list_all2_conv_all_nth)
    with tells_written [OF d(2)] ps j show ?thesis
      by (intro exI [of _ d]) (simp add: told_rrd_def list_all2_conv_all_nth)
  qed
  moreover have "length tr = length cs" using t(2) us(1) by (simp add: list_all2_lengthD)
  ultimately show ?thesis
    using gc t(1) len unfolding cs_def by (intro exI conjI) (assumption | simp add: list_all2_conv_all_nth)+
qed

text \<open>A host with two collections, one of which could not be mapped, on a writer just initialised.\<close>

definition two_collections :: sql_host where
  "two_collections = \<lparr>collection = [three_collection, three_collection\<lparr>post_mapping_oid_suffix := []\<rparr>],
     sh_host = Some 0, timeticks = 0, mytime = 0\<rparr>"

theorem round_to_rrd_witness:
  "\<exists>h' p l t d. get_collect (\<lambda>_ _. three_agent) [new_host_info 0] (\<lambda>_. 1000) three_ocs ''/d/'' two_collections =
      Inr (0, h', [p]) \<and> lrun sample_step demo_init [l] t \<and> l = L_push 0 (p_filename p) d \<and>
    (\<forall>env k. nul \<in> set (wk_filename k) \<longrightarrow> (\<exists>k'. worker_write env (rs_writer t) k d = Inr (k', [Rrd_update ''/d/e.rrd'' ''in:out:err''
      (show_nat (nat (p_time p)) @ '':42:U:0'')])))"
proof -
  have n: "show_nat 42 = ''42''" by code_simp
  have req: "request_oids three_agent three_collection three_ocs = Some [[1], [1], [1], [1, 3, 6, 1, 2, 1, 1, 3, 0]]"
    by (simp add: three_agent_def three_ocs_def)
  have reads: "agent_reads three_agent three_ocs (\<lambda>_. three_readings) (\<lambda>_. 900) (collection two_collections)"
    using req by (auto simp: agent_reads_def two_collections_def three_readings_def three_ocs_def numeric_types_def
        mapping_failed_def three_collection_def three_agent_def)
  have s: "all_writable demo_init" unfolding demo_init_def by (rule all_writable_init)
  have names: "file_info (rs_writer demo_init) = []" "rrd_template (rs_writer demo_init) = []"
    by (simp_all add: demo_init_def init_system_def initialize_def Let_def fresh_writer_def)
  have mapped: "filter (\<lambda>c. \<not> mapping_failed c) (collection two_collections) = [three_collection]"
    by (simp add: two_collections_def mapping_failed_def three_collection_def)
  have fits: "no_nul (''/d/'' @ rrd_filename c) \<and> length (''/d/'' @ rrd_filename c) < 1023"
    if "c \<in> set (collection two_collections)" for c
    using that by (auto simp: two_collections_def three_collection_def no_nul_def)
  have tmpl: "''in:out:err'' = join_with CHR '':'' (map ds_name three_ocs)" by (simp add: three_ocs_def)
  have ocs: "three_ocs \<noteq> []" "length three_ocs \<le> 19" by (simp_all add: three_ocs_def)
  obtain h' ps tr t where r: "get_collect (\<lambda>_ _. three_agent) [new_host_info 0] (\<lambda>_. 1000) three_ocs ''/d/'' two_collections =
      Inr (0, h', ps)" "lrun sample_step demo_init tr t" "length ps = 1"
    "list_all2 (\<lambda>(c, p) l. \<exists>d. l = L_push (queue_of 1 (p_filename p)) (p_filename p) d \<and>
      (\<forall>env k. nul \<in> set (wk_filename k) \<longrightarrow> (\<exists>k'. worker_write env (rs_writer t) k d = Inr (k', [Rrd_update (''/d/'' @ rrd_filename c) ''in:out:err''
        (join_with CHR '':'' (show_nat (nat (p_time p)) # map (sample_rrd \<circ> sample_of) three_readings))]))))
      (zip [three_collection] ps) tr"
    using round_to_rrd [where snmp = "\<lambda>_ _. three_agent" and now = "\<lambda>_. 1000", OF _ _ ocs _ _ reads _ _ fits tmpl _ _ s,
        of 0 "[new_host_info 0]"] names demo_size(1) mapped
    by (auto simp: two_collections_def three_agent_def no_nul_def)
  from r(3) obtain p where ps: "ps = [p]" by (cases ps) auto
  with r(4) obtain l where "tr = [l]" by (auto simp: list_all2_Cons1)
  with r ps n show ?thesis by (fastforce simp: queue_of_def three_collection_def three_readings_def)
qed

end
